(* ===== verification/Prelude.thy ===== *)
theory Prelude
  imports Main "HOL-Library.Word"
begin

text \<open>
  Shared vocabulary of the development: the machine types of a 64-bit target, the values Rust
  uses for suspension and failure (\<^verbatim>\<open>Poll\<close>, panics), and a transition-system interface
  from which every concurrent component takes its ``invariant of all reachable states'' rule.
  Integer operators are modelled with overflow checks on (the debug and \<^verbatim>\<open>const\<close>
  evaluation semantics): an overflowing operator is a panic value, never a silent wrap, unless
  the source calls a \<^verbatim>\<open>wrapping_\<close> method.
\<close>

unbundle bit_operations_syntax

subsection \<open>Collections\<close>

text \<open>
  The rewrite rules the components share: readiness values as sets of flags, and the operations
  on a readiness word as functions of its fields. The theories that prove the rules add them.
\<close>

named_theorems flag_simps \<open>readiness values as sets of flags\<close>
named_theorems word_simps \<open>operations on the readiness word by its fields\<close>

subsection \<open>Machine types\<close>

type_synonym usize = "64 word"
type_synonym u32 = "32 word"
type_synonym u8 = "8 word"

subsection \<open>Suspension and panics\<close>

datatype 'a poll = Poll_Pending | Poll_Ready 'a

datatype panic =
    Arithmetic_Overflow
  | Assertion_Failed
  | Index_Out_Of_Bounds
  | Unwrap_None
  | Unwrap_Err
  | Expect_Failed string
  | Unexpected_Error

text \<open>Sequencing of computations that may panic: the first panic wins.\<close>

definition bindE :: "'e + 'a \<Rightarrow> ('a \<Rightarrow> 'e + 'b) \<Rightarrow> 'e + 'b" where
  "bindE m f = (case m of Inl e \<Rightarrow> Inl e | Inr x \<Rightarrow> f x)"

primrec opt_list :: "'a option \<Rightarrow> 'a list" where
  "opt_list None = []"
| "opt_list (Some x) = [x]"

text \<open>Checked indexing of a slice: Rust panics out of range.\<close>

definition index_get :: "'a list \<Rightarrow> nat \<Rightarrow> panic + 'a" where
  "index_get xs i = (if i < length xs then Inr (xs ! i) else Inl Index_Out_Of_Bounds)"

definition index_set :: "'a list \<Rightarrow> nat \<Rightarrow> 'a \<Rightarrow> panic + 'a list" where
  "index_set xs i v = (if i < length xs then Inr (xs[i := v]) else Inl Index_Out_Of_Bounds)"

lemma bindE_simps [simp]:
  "bindE (Inl e) f = Inl e"
  "bindE (Inr x) f = f x"
  by (simp_all add: bindE_def)

lemma bindE_eq_Inr: "bindE m f = Inr y \<longleftrightarrow> (\<exists>x. m = Inr x \<and> f x = Inr y)"
  by (cases m) simp_all

lemma bindE_cong [fundef_cong]:
  "m = m' \<Longrightarrow> (\<And>x. m' = Inr x \<Longrightarrow> f x = f' x) \<Longrightarrow> bindE m f = bindE m' f'"
  by (cases m') simp_all

lemma index_get_ok [simp]: "i < length xs \<Longrightarrow> index_get xs i = Inr (xs ! i)"
  by (simp add: index_get_def)

lemma index_set_ok [simp]: "i < length xs \<Longrightarrow> index_set xs i v = Inr (xs[i := v])"
  by (simp add: index_set_def)

lemma bit_usize_below [simp]: "bit (x :: usize) n \<Longrightarrow> n < 64"
  using bit_imp_le_length [of x n] by simp

subsection \<open>Transition systems\<close>

text \<open>
  The states an interleaved execution can reach: every concurrent component supplies its start
  states and its step relation.
\<close>

inductive reaches :: "('s \<Rightarrow> bool) \<Rightarrow> ('s \<Rightarrow> 's \<Rightarrow> bool) \<Rightarrow> 's \<Rightarrow> bool"
  for start :: "'s \<Rightarrow> bool" and step :: "'s \<Rightarrow> 's \<Rightarrow> bool" where
  reaches_start: "start s \<Longrightarrow> reaches start step s"
| reaches_step: "reaches start step s \<Longrightarrow> step s t \<Longrightarrow> reaches start step t"

inductive steps :: "('s \<Rightarrow> 's \<Rightarrow> bool) \<Rightarrow> 's \<Rightarrow> 's \<Rightarrow> bool"
  for step :: "'s \<Rightarrow> 's \<Rightarrow> bool" where
  steps_refl: "steps step s s"
| steps_more: "step s t \<Longrightarrow> steps step t u \<Longrightarrow> steps step s u"

lemma steps_trans:
  assumes "steps step s t" and "steps step t u"
  shows "steps step s u"
  using assms by (induction rule: steps.induct) (auto intro: steps.intros)

lemma reaches_steps:
  assumes "steps step s t" and "reaches start step s"
  shows "reaches start step t"
  using assms by (induction rule: steps.induct) (auto intro: reaches.intros)

text \<open>
  The interface: a start predicate, a step relation and an invariant that the start states
  satisfy and every step keeps. What follows from it once is what every component uses.
\<close>

locale transition_system =
  fixes start :: "'s \<Rightarrow> bool"
    and step :: "'s \<Rightarrow> 's \<Rightarrow> bool"
    and invar :: "'s \<Rightarrow> bool"
  assumes invar_start: "start s \<Longrightarrow> invar s"
    and invar_step: "invar s \<Longrightarrow> step s t \<Longrightarrow> invar t"
begin

lemma invar_reaches:
  assumes "reaches start step s"
  shows "invar s"
  using assms by (induction rule: reaches.induct) (auto intro: invar_start invar_step)

lemma invar_steps:
  assumes "steps step s t" and "invar s"
  shows "invar t"
  using assms by (induction rule: steps.induct) (auto intro: invar_step)

end

end
