(* ===== verification/Bits.thy ===== *)
theory Bits
  imports Prelude
begin

text \<open>
  \<^verbatim>\<open>src/src/bits.rs\<close>: packing of several small integers into one \<^verbatim>\<open>usize\<close>.
  A \<^verbatim>\<open>Pack\<close> is a mask and a shift; \<^verbatim>\<open>then\<close> places the next field right above the
  previous one. The lemmas show that the fields are laid out contiguously, that
  \<^verbatim>\<open>unpack\<close> inverts \<^verbatim>\<open>pack\<close>, and that packing one field leaves every field
  that shares no bit with it as it was.
\<close>

record Pack =
  pmask :: usize
  pshift :: u32

text \<open>\<^verbatim>\<open>usize::leading_zeros\<close>.\<close>

definition leading_zeros :: "usize \<Rightarrow> nat" where
  "leading_zeros w = length (takeWhile (\<lambda>i. \<not> bit w i) (rev [0..<64]))"

text \<open>The operators \<^verbatim>\<open><<\<close> and \<^verbatim>\<open>>>\<close> panic when the shift is not below the width.\<close>

definition shl :: "usize \<Rightarrow> u32 \<Rightarrow> panic + usize" where
  "shl w n = (if unat n < 64 then Inr (push_bit (unat n) w) else Inl Arithmetic_Overflow)"

definition shr :: "usize \<Rightarrow> u32 \<Rightarrow> panic + usize" where
  "shr w n = (if unat n < 64 then Inr (drop_bit (unat n) w) else Inl Arithmetic_Overflow)"

definition pointer_width :: u32 where
  "pointer_width = 8 * 8"

definition mask_for :: "u32 \<Rightarrow> panic + usize" where
  "mask_for n =
     (if n = 0 then Inl Arithmetic_Overflow
      else let s = push_bit (unat (n - 1) mod 64) (1 :: usize) in Inr (s OR (s - 1)))"

definition least_significant :: "u32 \<Rightarrow> panic + Pack" where
  "least_significant width =
     bindE (mask_for width) (\<lambda>m. Inr \<lparr>pmask = m, pshift = 0\<rparr>)"

definition then_pack :: "Pack \<Rightarrow> u32 \<Rightarrow> panic + Pack" where
  "then_pack p width =
     (let s = pointer_width - of_nat (leading_zeros (pmask p)) in
      bindE (mask_for width) (\<lambda>m0.
      bindE (shl m0 s) (\<lambda>m. Inr \<lparr>pmask = m, pshift = s\<rparr>)))"

definition width :: "Pack \<Rightarrow> panic + u32" where
  "width p =
     bindE (shr (pmask p) (pshift p)) (\<lambda>m. Inr (pointer_width - of_nat (leading_zeros m)))"

definition max_value :: "Pack \<Rightarrow> panic + usize" where
  "max_value p = bindE (width p) (\<lambda>w. bindE (shl 1 w) (\<lambda>x. Inr (x - 1)))"

definition pack :: "Pack \<Rightarrow> usize \<Rightarrow> usize \<Rightarrow> panic + usize" where
  "pack p value base =
     bindE (max_value p) (\<lambda>mx.
       if value \<le> mx
       then bindE (shl value (pshift p)) (\<lambda>v. Inr ((base AND NOT (pmask p)) OR v))
       else Inl Assertion_Failed)"

definition pack_lossy :: "Pack \<Rightarrow> usize \<Rightarrow> usize \<Rightarrow> panic + usize" where
  "pack_lossy p value base =
     bindE (max_value p) (\<lambda>mx. pack p (value AND mx) base)"

definition unpack_bits :: "usize \<Rightarrow> usize \<Rightarrow> u32 \<Rightarrow> panic + usize" where
  "unpack_bits src m s = shr (src AND m) s"

definition unpack :: "Pack \<Rightarrow> usize \<Rightarrow> panic + usize" where
  "unpack p src = unpack_bits src (pmask p) (pshift p)"

text \<open>The shape every field built by \<^verbatim>\<open>least_significant\<close> and \<^verbatim>\<open>then\<close> has.\<close>

definition field_at :: "Pack \<Rightarrow> nat \<Rightarrow> nat \<Rightarrow> bool" where
  "field_at p s w \<longleftrightarrow>
     0 < w \<and> s + w \<le> 64 \<and> pmask p = push_bit s (mask w) \<and> pshift p = word_of_nat s"

subsection \<open>Bit-level facts\<close>

lemma leading_zeros_top:
  assumes "bit w k" and "\<And>i. bit w i \<Longrightarrow> i \<le> k"
  shows "leading_zeros w = 63 - k"
proof -
  have k: "k < 64" using assms(1) by simp
  then have "[0..<64] = [0..<k] @ k # [Suc k..<64]"
    by (metis less_imp_le_nat upt_add_eq_append upt_conv_Cons le0 le_add_diff_inverse)
  then have "rev [0..<64] = rev [Suc k..<64] @ k # rev [0..<k]" by simp
  moreover have "takeWhile (\<lambda>i. \<not> bit w i) (rev [Suc k..<64] @ k # rev [0..<k]) = rev [Suc k..<64]"
    using assms by (subst takeWhile_append2) (auto dest: assms(2))
  ultimately show ?thesis by (simp add: leading_zeros_def)
qed

lemma leading_zeros_field:
  assumes "0 < w" and "s + w \<le> 64"
  shows "leading_zeros (push_bit s (mask w) :: usize) = 64 - (s + w)"
proof -
  have "bit (push_bit s (mask w) :: usize) (s + w - 1)"
    using assms by (auto simp: bit_simps)
  moreover have "i \<le> s + w - 1" if "bit (push_bit s (mask w) :: usize) i" for i
    using that by (auto simp: bit_simps)
  ultimately have "leading_zeros (push_bit s (mask w) :: usize) = 63 - (s + w - 1)"
    by (rule leading_zeros_top)
  with assms show ?thesis by simp
qed

lemma unat_small [simp]: "n \<le> 64 \<Longrightarrow> unat (word_of_nat n :: u32) = n"
  by (simp add: unat_of_nat)

lemma mask_for_ok:
  assumes "0 < n" and "n \<le> 64"
  shows "mask_for (word_of_nat n) = Inr (mask n)"
proof -
  obtain m where n: "n = Suc m" using assms(1) by (cases n) auto
  with assms have m: "m < 64" by simp
  have "(word_of_nat n :: u32) \<noteq> 0"
    using assms unat_small [of n] by (metis less_numeral_extra(3) unat_0)
  moreover have "unat ((word_of_nat n :: u32) - 1) = m" using m by (simp add: n)
  moreover have "(push_bit m 1 :: usize) - 1 = mask m"
    by (simp add: mask_eq_exp_minus_1 push_bit_eq_mult)
  moreover have "push_bit m 1 OR mask m = (mask n :: usize)"
    by (rule bit_eqI) (auto simp: bit_simps n)
  ultimately show ?thesis using m by (simp add: mask_for_def)
qed

subsection \<open>Construction of fields\<close>

lemma least_significant_ok:
  assumes "0 < w" and "w \<le> 64"
  shows "\<exists>p. least_significant (word_of_nat w) = Inr p \<and> field_at p 0 w"
  using assms by (simp add: least_significant_def mask_for_ok field_at_def)

lemma then_pack_ok:
  assumes "field_at p s w" and "0 < v" and "s + w + v \<le> 64"
  shows "\<exists>q. then_pack p (word_of_nat v) = Inr q \<and> field_at q (s + w) v"
proof -
  have "pointer_width - word_of_nat (leading_zeros (pmask p)) = word_of_nat (s + w)"
    using assms by (simp add: field_at_def leading_zeros_field pointer_width_def of_nat_diff)
  moreover have "shl (mask v) (word_of_nat (s + w)) = Inr (push_bit (s + w) (mask v))"
    using assms by (simp add: shl_def unat_small [of "s + w"] del: of_nat_add)
  ultimately show ?thesis
    using assms by (simp add: then_pack_def mask_for_ok field_at_def Let_def del: of_nat_add)
qed

lemma width_ok:
  assumes "field_at p s w"
  shows "width p = Inr (word_of_nat w)"
proof -
  have sw: "0 < w" "s + w \<le> 64" "s < 64" "w \<le> 64" using assms by (auto simp: field_at_def)
  have "drop_bit s (push_bit s (mask w) :: usize) = mask w"
    using sw by (intro bit_eqI) (auto simp: bit_simps)
  moreover have "leading_zeros (mask w) = 64 - w"
    using leading_zeros_field [of w 0] sw by simp
  ultimately show ?thesis
    using assms sw by (simp add: width_def shr_def field_at_def pointer_width_def of_nat_diff)
qed

lemma max_value_ok:
  assumes "field_at p s w" and "w < 64"
  shows "max_value p = Inr (mask w)"
  using assms(2)
  by (simp add: max_value_def width_ok [OF assms(1)] shl_def mask_eq_exp_minus_1 push_bit_eq_mult)

text \<open>A field as wide as the word has no representable maximum: the shift overflows.\<close>

lemma max_value_full_word:
  assumes "field_at p s 64"
  shows "max_value p = Inl Arithmetic_Overflow"
  by (simp add: max_value_def width_ok [OF assms] shl_def)

subsection \<open>Packing and unpacking\<close>

lemma unpack_field:
  assumes "field_at p s w"
  shows "unpack p src = Inr (take_bit w (drop_bit s src))"
proof -
  have s: "s < 64" using assms by (auto simp: field_at_def)
  have "drop_bit s (src AND push_bit s (mask w)) = take_bit w (drop_bit s src)"
    using assms by (intro bit_eqI) (auto simp: bit_simps field_at_def)
  with s assms show ?thesis
    by (simp add: unpack_def unpack_bits_def shr_def field_at_def)
qed

lemma pack_field:
  assumes "field_at p s w" and "w < 64"
  shows "pack p v base =
    (if v \<le> mask w then Inr ((base AND NOT (push_bit s (mask w))) OR push_bit s v)
     else Inl Assertion_Failed)"
proof -
  have "s < 64" using assms by (auto simp: field_at_def)
  then show ?thesis
    using assms by (simp add: pack_def max_value_ok [OF assms] shl_def) (simp add: field_at_def)
qed

lemma le_mask_iff_take_bit:
  assumes "w < 64"
  shows "(v :: usize) \<le> mask w \<longleftrightarrow> take_bit w v = v"
proof -
  have "uint (mask w :: usize) = mask w"
    using assms by (simp add: uint_mask_eq)
  then have "v \<le> mask w \<longleftrightarrow> uint v < 2 ^ w"
    by (simp add: word_le_def mask_eq_exp_minus_1 [where ?'a = int])
  also have "\<dots> \<longleftrightarrow> take_bit w (uint v) = uint v"
    by (simp add: take_bit_int_eq_self_iff)
  also have "\<dots> \<longleftrightarrow> take_bit w v = v"
    by (metis unsigned_take_bit_eq unsigned_word_eqI)
  finally show ?thesis .
qed

text \<open>
  The interface of one field of a packed word: where it lies and that a shift past it exists.
  The clients (the I/O driver's readiness word, the slab token) use the laws proved here.
\<close>

locale packed_field =
  fixes p :: Pack and s :: nat and w :: nat
  assumes at: "field_at p s w" and narrow: "w < 64"
begin

lemma unpack_total: "unpack p x = Inr (take_bit w (drop_bit s x))"
  by (rule unpack_field [OF at])

lemma pack_total:
  assumes "take_bit w v = v"
  shows "pack p v base = Inr ((base AND NOT (push_bit s (mask w))) OR push_bit s v)"
  using assms by (simp add: pack_field [OF at narrow] le_mask_iff_take_bit [OF narrow])

lemma pack_rejects:
  assumes "take_bit w v \<noteq> v"
  shows "pack p v base = Inl Assertion_Failed"
  using assms by (simp add: pack_field [OF at narrow] le_mask_iff_take_bit [OF narrow])

lemma bit_packed:
  assumes "take_bit w v = v" and "pack p v base = Inr x"
  shows "bit x i \<longleftrightarrow> (if s \<le> i \<and> i < s + w then bit v (i - s) else bit base i)"
proof -
  have fit: "s + w \<le> 64" using at by (simp add: field_at_def)
  have high: "k < w" if "bit v k" for k
    using assms(1) that by (metis bit_take_bit_iff)
  have "x = (base AND NOT (push_bit s (mask w))) OR push_bit s v"
    using assms pack_total by simp
  then show ?thesis
    using fit by (cases "i < 64") (auto simp: bit_simps dest: bit_usize_below high)
qed

lemma unpack_pack:
  assumes "take_bit w v = v" and "pack p v base = Inr x"
  shows "unpack p x = Inr v"
proof -
  have "take_bit w (drop_bit s x) = v"
  proof (rule bit_eqI)
    fix n
    show "bit (take_bit w (drop_bit s x)) n = bit v n"
      using assms(1) bit_packed [OF assms, of "s + n"] by (metis add_diff_cancel_left'
        bit_drop_bit_eq bit_take_bit_iff comp_apply le_add1 nat_add_left_cancel_less)
  qed
  then show ?thesis by (simp add: unpack_total)
qed

lemma pack_frame:
  assumes "take_bit w v = v" and "pack p v base = Inr x"
    and "field_at q s' w'" and "s' + w' \<le> s \<or> s + w \<le> s'"
  shows "unpack q x = unpack q base"
proof -
  have "take_bit w' (drop_bit s' x) = take_bit w' (drop_bit s' base)"
    using assms(4) bit_packed [OF assms(1,2)] by (intro bit_eqI) (auto simp: bit_simps)
  with assms(3) show ?thesis by (simp add: unpack_field)
qed

lemma pack_lossy_total:
  "pack_lossy p v base = pack p (take_bit w v) base"
  by (simp add: pack_lossy_def max_value_ok [OF at narrow] take_bit_eq_mask)

end

lemma then_pack_overflow:
  assumes "field_at p s w" and "0 < v" and "v \<le> 64" and "s + w = 64"
  shows "then_pack p (word_of_nat v) = Inl Arithmetic_Overflow"
proof -
  have "pointer_width - word_of_nat (leading_zeros (pmask p)) = 64"
    using assms by (simp add: field_at_def leading_zeros_field pointer_width_def)
  then show ?thesis using assms by (simp add: then_pack_def mask_for_ok shl_def Let_def)
qed

subsection \<open>Properties\<close>

text \<open>
  C36: Unpacking a packed field gives the value back and every disjoint field keeps its value; a
  value that does not fit is rejected by pack and truncated by pack_lossy.
\<close>

theorem pack_roundtrip:
  assumes "field_at p s w" and "w < 64"
  shows "(v \<le> mask w \<longrightarrow> (\<exists>x. pack p v base = Inr x \<and> unpack p x = Inr v \<and>
      (\<forall>q s' w'. field_at q s' w' \<and> (s' + w' \<le> s \<or> s + w \<le> s') \<longrightarrow> unpack q x = unpack q base))) \<and>
    (\<not> v \<le> mask w \<longrightarrow> pack p v base = Inl Assertion_Failed) \<and>
    pack_lossy p v base = pack p (take_bit w v) base"
proof -
  have pf: "packed_field p s w" using assms by unfold_locales
  have "\<exists>x. pack p v base = Inr x \<and> unpack p x = Inr v \<and>
      (\<forall>q s' w'. field_at q s' w' \<and> (s' + w' \<le> s \<or> s + w \<le> s') \<longrightarrow> unpack q x = unpack q base)"
    if "v \<le> mask w"
  proof -
    have v: "take_bit w v = v" using that le_mask_iff_take_bit [OF assms(2)] by simp
    obtain x where x: "pack p v base = Inr x" using packed_field.pack_total [OF pf v] by simp
    then show ?thesis using packed_field.unpack_pack [OF pf v x] packed_field.pack_frame [OF pf v x] by blast
  qed
  then show ?thesis
    using packed_field.pack_rejects [OF pf] le_mask_iff_take_bit [OF assms(2)] packed_field.pack_lossy_total [OF pf]
    by blast
qed

theorem pack_roundtrip_witness:
  "\<exists>x. pack \<lparr>pmask = 0xF0, pshift = 4\<rparr> 9 0x1FF = Inr x \<and> unpack \<lparr>pmask = 0xF0, pshift = 4\<rparr> x = Inr 9"
proof -
  have "field_at \<lparr>pmask = 0xF0, pshift = 4\<rparr> 4 4" by (simp add: field_at_def mask_numeral)
  from pack_roundtrip [OF this, of 9 "0x1FF"] show ?thesis by (auto simp: mask_numeral)
qed

text \<open>
  The field made by then lies directly above the previous one when it fits in the word, and the
  shift overflows when the word is already full.
\<close>

theorem then_places_field_above:
  assumes "field_at p s w" and "0 < v" and "v \<le> 64"
  shows "(s + w + v \<le> 64 \<longrightarrow> (\<exists>q. then_pack p (word_of_nat v) = Inr q \<and> field_at q (s + w) v)) \<and>
    (s + w = 64 \<longrightarrow> then_pack p (word_of_nat v) = Inl Arithmetic_Overflow)"
  using then_pack_ok [OF assms(1,2)] then_pack_overflow [OF assms] by blast

theorem then_places_field_above_witness:
  "\<exists>q. then_pack \<lparr>pmask = 0xF0, pshift = 4\<rparr> 3 = Inr q \<and> field_at q 8 3"
proof -
  have "field_at \<lparr>pmask = 0xF0, pshift = 4\<rparr> 4 4" by (simp add: field_at_def mask_numeral)
  from then_places_field_above [OF this, of 3] show ?thesis by simp
qed

end
