(* ===== verification/Ready.thy ===== *)
theory Ready
  imports Prelude
begin

text \<open>
  \<^verbatim>\<open>src/src/io/ready.rs\<close>: the set of operations an I/O resource is ready for, kept as
  bits of a \<^verbatim>\<open>usize\<close>. Values of the \<^verbatim>\<open>mio\<close> package are represented by
  what their accessors return: an event by its token and four flags, an interest by whether it
  covers reading and writing and whether it has a platform-specific flag besides. The lemmas
  show that the bit operations are the set operations on flags.
\<close>

subsection \<open>What mio reports\<close>

record mio_event =
  token :: usize
  ev_readable :: bool
  ev_writable :: bool
  ev_read_closed :: bool
  ev_write_closed :: bool

record interest =
  int_readable :: bool
  int_writable :: bool
  int_platform :: bool

definition Interest_READABLE :: interest where
  "Interest_READABLE = \<lparr>int_readable = True, int_writable = False, int_platform = False\<rparr>"

definition Interest_WRITABLE :: interest where
  "Interest_WRITABLE = \<lparr>int_readable = False, int_writable = True, int_platform = False\<rparr>"

definition Interest_BOTH :: interest where
  "Interest_BOTH = \<lparr>int_readable = True, int_writable = True, int_platform = False\<rparr>"

subsection \<open>Readiness sets\<close>

datatype ready = Ready (as_usize: usize)

definition EMPTY :: ready where "EMPTY = Ready 0"
definition READABLE :: ready where "READABLE = Ready 1"
definition WRITABLE :: ready where "WRITABLE = Ready 2"
definition READ_CLOSED :: ready where "READ_CLOSED = Ready 4"
definition WRITE_CLOSED :: ready where "WRITE_CLOSED = Ready 8"
definition READY_ALL :: ready where "READY_ALL = Ready (1 OR 2 OR 4 OR 8)"

definition bitor :: "ready \<Rightarrow> ready \<Rightarrow> ready" where
  "bitor a b = Ready (as_usize a OR as_usize b)"

definition bitand :: "ready \<Rightarrow> ready \<Rightarrow> ready" where
  "bitand a b = Ready (as_usize a AND as_usize b)"

definition sub :: "ready \<Rightarrow> ready \<Rightarrow> ready" where
  "sub a b = Ready (as_usize a AND NOT (as_usize b))"

definition from_mio :: "mio_event \<Rightarrow> ready" where
  "from_mio event =
     (let r0 = EMPTY;
          r1 = (if ev_readable event then bitor r0 READABLE else r0);
          r2 = (if ev_writable event then bitor r1 WRITABLE else r1);
          r3 = (if ev_read_closed event then bitor r2 READ_CLOSED else r2);
          r4 = (if ev_write_closed event then bitor r3 WRITE_CLOSED else r3)
      in r4)"

definition is_empty :: "ready \<Rightarrow> bool" where
  "is_empty r \<longleftrightarrow> r = EMPTY"

definition contains :: "ready \<Rightarrow> ready \<Rightarrow> bool" where
  "contains r other \<longleftrightarrow> bitand r other = other"

definition is_read_closed :: "ready \<Rightarrow> bool" where
  "is_read_closed r \<longleftrightarrow> contains r READ_CLOSED"

definition is_write_closed :: "ready \<Rightarrow> bool" where
  "is_write_closed r \<longleftrightarrow> contains r WRITE_CLOSED"

definition is_readable :: "ready \<Rightarrow> bool" where
  "is_readable r \<longleftrightarrow> contains r READABLE \<or> is_read_closed r"

definition is_writable :: "ready \<Rightarrow> bool" where
  "is_writable r \<longleftrightarrow> contains r WRITABLE \<or> is_write_closed r"

definition from_usize :: "usize \<Rightarrow> ready" where
  "from_usize val = Ready (val AND as_usize READY_ALL)"

definition from_interest :: "interest \<Rightarrow> ready" where
  "from_interest i =
     (let r0 = EMPTY;
          r1 = (if int_readable i then bitor (bitor r0 READABLE) READ_CLOSED else r0);
          r2 = (if int_writable i then bitor (bitor r1 WRITABLE) WRITE_CLOSED else r1)
      in r2)"

definition intersection :: "ready \<Rightarrow> interest \<Rightarrow> ready" where
  "intersection r i = Ready (as_usize r AND as_usize (from_interest i))"

definition satisfies :: "ready \<Rightarrow> interest \<Rightarrow> bool" where
  "satisfies r i \<longleftrightarrow> as_usize r AND as_usize (from_interest i) \<noteq> 0"

text \<open>The derived order of the tuple struct is the order of the integers.\<close>

instantiation ready :: "{linorder, order_bot}"
begin

definition less_eq_ready :: "ready \<Rightarrow> ready \<Rightarrow> bool" where
  "less_eq_ready a b \<longleftrightarrow> as_usize a \<le> as_usize b"

definition less_ready :: "ready \<Rightarrow> ready \<Rightarrow> bool" where
  "less_ready a b \<longleftrightarrow> as_usize a < as_usize b"

definition bot_ready :: ready where
  "bot_ready = EMPTY"

instance
  by standard (auto simp: less_eq_ready_def less_ready_def bot_ready_def EMPTY_def ready.expand)

end

subsection \<open>Readiness as a set of flags\<close>

datatype flag = Readable | Writable | ReadClosed | WriteClosed

primrec flag_index :: "flag \<Rightarrow> nat" where
  "flag_index Readable = 0"
| "flag_index Writable = 1"
| "flag_index ReadClosed = 2"
| "flag_index WriteClosed = 3"

definition flags :: "ready \<Rightarrow> flag set" where
  "flags r = {f. bit (as_usize r) (flag_index f)}"

text \<open>The values the driver builds have no bit outside \<^verbatim>\<open>Ready::ALL\<close>.\<close>

definition valid :: "ready \<Rightarrow> bool" where
  "valid r \<longleftrightarrow> as_usize r AND as_usize READY_ALL = as_usize r"

lemmas ready_consts =
  EMPTY_def READABLE_def WRITABLE_def READ_CLOSED_def WRITE_CLOSED_def READY_ALL_def

text \<open>
  The contract of a set-like flag value: an abstraction to sets under which the operations
  are the set operations, and which determines the valid values.
\<close>

locale flag_algebra =
  fixes abs :: "'r \<Rightarrow> 'f set"
    and ok :: "'r \<Rightarrow> bool"
    and none :: 'r
    and union :: "'r \<Rightarrow> 'r \<Rightarrow> 'r"
    and inter :: "'r \<Rightarrow> 'r \<Rightarrow> 'r"
    and diff :: "'r \<Rightarrow> 'r \<Rightarrow> 'r"
  assumes abs_none: "abs none = {}" and ok_none: "ok none"
    and abs_union: "abs (union a b) = abs a \<union> abs b"
    and abs_inter: "abs (inter a b) = abs a \<inter> abs b"
    and abs_diff: "abs (diff a b) = abs a - abs b"
    and ok_union: "ok a \<Longrightarrow> ok b \<Longrightarrow> ok (union a b)"
    and ok_inter: "ok a \<Longrightarrow> ok (inter a b)"
    and ok_diff: "ok a \<Longrightarrow> ok (diff a b)"
    and abs_inject: "ok a \<Longrightarrow> ok b \<Longrightarrow> abs a = abs b \<Longrightarrow> a = b"
begin

lemma empty_iff: "ok a \<Longrightarrow> a = none \<longleftrightarrow> abs a = {}"
  using abs_inject [of a none] by (auto simp: abs_none ok_none)

lemma contains_iff: "ok a \<Longrightarrow> ok b \<Longrightarrow> inter a b = b \<longleftrightarrow> abs b \<subseteq> abs a"
proof
  assume "inter a b = b"
  then have "abs b = abs a \<inter> abs b" using abs_inter [of a b] by simp
  then show "abs b \<subseteq> abs a" by blast
next
  assume "ok a" "ok b" "abs b \<subseteq> abs a"
  then have "abs (inter a b) = abs b" by (auto simp: abs_inter)
  with \<open>ok a\<close> \<open>ok b\<close> show "inter a b = b" by (intro abs_inject ok_inter)
qed

lemma inter_empty_iff: "ok a \<Longrightarrow> inter a b = none \<longleftrightarrow> abs a \<inter> abs b = {}"
  using empty_iff [of "inter a b"] ok_inter [of a b] by (simp add: abs_inter)

end

lemma bit_READY_ALL: "bit (as_usize READY_ALL) n \<longleftrightarrow> n < 4"
proof -
  have "as_usize READY_ALL = mask 4" by (simp add: ready_consts mask_numeral)
  then show ?thesis by (auto simp: bit_simps)
qed

lemma flag_index_less [simp]: "flag_index f < 4"
  by (cases f) simp_all

lemma flag_index_surj: "n < 4 \<Longrightarrow> \<exists>f. flag_index f = n"
proof -
  assume "n < 4"
  then consider "n = 0" | "n = 1" | "n = 2" | "n = 3" by linarith
  then show ?thesis
    by cases (use flag_index.simps in metis)+
qed

lemma valid_bit: "valid r \<longleftrightarrow> (\<forall>n. bit (as_usize r) n \<longrightarrow> n < 4)"
  by (auto simp: valid_def bit_eq_iff bit_and_iff bit_READY_ALL dest: bit_usize_below)

lemma valid_consts [simp]:
  "valid EMPTY" "valid READABLE" "valid WRITABLE" "valid READ_CLOSED" "valid WRITE_CLOSED"
  "valid READY_ALL"
  by (simp_all add: valid_def ready_consts)

lemma flags_inject:
  assumes "valid a" "valid b" "flags a = flags b"
  shows "a = b"
proof -
  have "bit (as_usize a) n = bit (as_usize b) n" for n
  proof (cases "n < 4")
    case True
    then obtain f where "flag_index f = n" using flag_index_surj by blast
    with assms(3) show ?thesis by (auto simp: flags_def)
  next
    case False
    with assms(1,2) show ?thesis by (auto simp: valid_bit)
  qed
  then have "as_usize a = as_usize b" by (rule bit_eqI)
  then show ?thesis by (simp add: ready.expand)
qed

interpretation rf: flag_algebra flags valid EMPTY bitor bitand sub
  by unfold_locales
    (auto simp: flags_def valid_bit bitor_def bitand_def sub_def EMPTY_def bit_simps
      dest: bit_usize_below intro: flags_inject)

lemma flag_case_bit:
  "bit (as_usize EMPTY) (flag_index f) \<longleftrightarrow> False"
  "bit (as_usize READABLE) (flag_index f) \<longleftrightarrow> f = Readable"
  "bit (as_usize WRITABLE) (flag_index f) \<longleftrightarrow> f = Writable"
  "bit (as_usize READ_CLOSED) (flag_index f) \<longleftrightarrow> f = ReadClosed"
  "bit (as_usize WRITE_CLOSED) (flag_index f) \<longleftrightarrow> f = WriteClosed"
  "bit (as_usize READY_ALL) (flag_index f)"
  by (cases f; simp add: ready_consts)+

lemma flags_consts [simp]:
  "flags EMPTY = {}" "flags READABLE = {Readable}" "flags WRITABLE = {Writable}"
  "flags READ_CLOSED = {ReadClosed}" "flags WRITE_CLOSED = {WriteClosed}"
  "flags READY_ALL = UNIV"
  by (auto simp: flags_def flag_case_bit)

subsection \<open>The operations as set operations\<close>

declare rf.abs_union [flag_simps] rf.abs_inter [flag_simps] rf.abs_diff [flag_simps] rf.abs_none [flag_simps]
declare rf.ok_union [flag_simps] rf.ok_inter [flag_simps] rf.ok_diff [flag_simps]

lemma valid_from_usize [simp]: "valid (from_usize x)"
  by (simp add: valid_def from_usize_def)

lemma flags_from_usize: "flags (from_usize x) = {f. bit x (flag_index f)}"
  by (simp add: flags_def from_usize_def bit_and_iff flag_case_bit)

lemma from_usize_as_usize: "valid r \<Longrightarrow> from_usize (as_usize r) = r"
  by (simp add: from_usize_def valid_def)

lemma valid_from_mio [simp]: "valid (from_mio e)"
  by (simp add: from_mio_def Let_def rf.ok_union)

lemma flags_from_mio [flag_simps]:
  "flags (from_mio e) =
     {f. case f of Readable \<Rightarrow> ev_readable e | Writable \<Rightarrow> ev_writable e
       | ReadClosed \<Rightarrow> ev_read_closed e | WriteClosed \<Rightarrow> ev_write_closed e}"
proof (rule set_eqI)
  fix f
  show "f \<in> flags (from_mio e) \<longleftrightarrow> f \<in> {f. case f of Readable \<Rightarrow> ev_readable e
      | Writable \<Rightarrow> ev_writable e | ReadClosed \<Rightarrow> ev_read_closed e | WriteClosed \<Rightarrow> ev_write_closed e}"
    by (cases f) (simp_all add: from_mio_def Let_def rf.abs_union)
qed

lemma valid_from_interest [simp]: "valid (from_interest i)"
  by (simp add: from_interest_def Let_def rf.ok_union)

lemma flags_from_interest [flag_simps]:
  "flags (from_interest i) =
     (if int_readable i then {Readable, ReadClosed} else {})
     \<union> (if int_writable i then {Writable, WriteClosed} else {})"
  by (auto simp: from_interest_def Let_def rf.abs_union)

lemma intersection_alt: "intersection r i = bitand r (from_interest i)"
  by (simp add: intersection_def bitand_def)

lemma valid_intersection [simp]: "valid r \<Longrightarrow> valid (intersection r i)"
  by (simp add: intersection_alt rf.ok_inter)

lemma flags_intersection [flag_simps]: "flags (intersection r i) = flags r \<inter> flags (from_interest i)"
  by (simp add: intersection_alt rf.abs_inter)

lemma satisfies_intersection: "satisfies r i \<longleftrightarrow> \<not> is_empty (intersection r i)"
  by (simp add: satisfies_def is_empty_def intersection_def EMPTY_def)

lemma satisfies_iff:
  assumes "valid r"
  shows "satisfies r i \<longleftrightarrow> flags r \<inter> flags (from_interest i) \<noteq> {}"
  using rf.empty_iff [of "intersection r i"] assms
  by (simp add: satisfies_intersection is_empty_def flags_intersection)

lemma contains_iff_flags:
  assumes "valid r" "valid q"
  shows "contains r q \<longleftrightarrow> flags q \<subseteq> flags r"
  using rf.contains_iff [OF assms] by (simp add: contains_def)

text \<open>The derived order extends inclusion: a readiness is at least every readiness it contains.\<close>

lemma contains_le: "contains r q \<Longrightarrow> q \<le> r"
proof -
  assume "contains r q"
  then have "as_usize r AND as_usize q = as_usize q" by (metis bitand_def contains_def ready.sel)
  then show ?thesis using word_and_le2 [of "as_usize r" "as_usize q"] by (simp add: less_eq_ready_def)
qed

lemma is_readable_iff [flag_simps]: "valid r \<Longrightarrow> is_readable r \<longleftrightarrow> Readable \<in> flags r \<or> ReadClosed \<in> flags r"
  by (simp add: is_readable_def is_read_closed_def contains_iff_flags)

lemma is_writable_iff [flag_simps]: "valid r \<Longrightarrow> is_writable r \<longleftrightarrow> Writable \<in> flags r \<or> WriteClosed \<in> flags r"
  by (simp add: is_writable_def is_write_closed_def contains_iff_flags)

lemma is_empty_iff: "valid r \<Longrightarrow> is_empty r \<longleftrightarrow> flags r = {}"
  using rf.empty_iff by (simp add: is_empty_def)

subsection \<open>Properties\<close>

text \<open>
  A readiness satisfies an interest exactly when the interest includes reading and the readiness is
  readable, or writing and writable.
\<close>

theorem satisfies_iff_ready:
  assumes "valid r"
  shows "satisfies r i \<longleftrightarrow> (int_readable i \<and> is_readable r) \<or> (int_writable i \<and> is_writable r)"
  using assms by (auto simp: satisfies_iff is_readable_iff is_writable_iff flags_from_interest)

theorem satisfies_iff_ready_witness:
  "satisfies READ_CLOSED Interest_READABLE \<longleftrightarrow>
     (int_readable Interest_READABLE \<and> is_readable READ_CLOSED) \<or> (int_writable Interest_READABLE \<and> is_writable READ_CLOSED)"
  using satisfies_iff_ready [of READ_CLOSED Interest_READABLE] by simp

text \<open>
  The readiness of an event has exactly the event's flags, and survives the round trip through its
  integer.
\<close>

theorem from_mio_exact:
  "is_read_closed (from_mio e) = ev_read_closed e \<and>
   is_write_closed (from_mio e) = ev_write_closed e \<and>
   is_readable (from_mio e) = (ev_readable e \<or> ev_read_closed e) \<and>
   is_writable (from_mio e) = (ev_writable e \<or> ev_write_closed e) \<and>
   is_empty (from_mio e) = (\<not> (ev_readable e \<or> ev_writable e \<or> ev_read_closed e \<or> ev_write_closed e)) \<and>
   from_usize (as_usize (from_mio e)) = from_mio e"
proof -
  have "flags (from_mio e) = {} \<longleftrightarrow> \<not> (ev_readable e \<or> ev_writable e \<or> ev_read_closed e \<or> ev_write_closed e)"
    by (auto simp: flags_from_mio split: flag.splits)
  then show ?thesis
    by (simp add: is_readable_iff is_writable_iff is_empty_iff from_usize_as_usize
        is_read_closed_def is_write_closed_def contains_iff_flags flags_from_mio)
qed

text \<open>
  C37: Values with no bit outside ALL are closed under the operations, which are union, intersection
  and difference of their sets of flags; such a value is determined by its flags and survives the
  round trip through its integer, and the derived order extends inclusion.
\<close>

theorem readiness_is_a_flag_set:
  assumes "valid a" "valid b"
  shows "valid (bitor a b) \<and> flags (bitor a b) = flags a \<union> flags b \<and>
    valid (bitand a b) \<and> flags (bitand a b) = flags a \<inter> flags b \<and>
    valid (sub a b) \<and> flags (sub a b) = flags a - flags b \<and>
    valid (intersection a i) \<and> flags (intersection a i) = flags a \<inter> flags (from_interest i) \<and>
    from_usize (as_usize a) = a \<and> (a = b \<longleftrightarrow> flags a = flags b) \<and> (flags a \<subseteq> flags b \<longrightarrow> a \<le> b)"
  using assms contains_le [of b a]
  by (auto simp: flag_simps from_usize_as_usize contains_iff_flags intro: flags_inject)

theorem readiness_is_a_flag_set_witness:
  "valid (bitor READABLE READ_CLOSED) \<and> flags (bitor READABLE READ_CLOSED) = {Readable, ReadClosed} \<and> READABLE \<noteq> READ_CLOSED"
  using readiness_is_a_flag_set [of READABLE READ_CLOSED] by auto

end
