(* ===== verification/Scheduled_IO.thy ===== *)
theory Scheduled_IO
  imports Bits Ready
begin

text \<open>
  \<^verbatim>\<open>src/src/io/mod.rs\<close>, the per-resource state \<^verbatim>\<open>ScheduledIo\<close>: the packed
  readiness word and the parked wakers. The pinned list of waiters belongs to the
  \<^verbatim>\<open>pin_list\<close> package, so its operations are an argument of the definitions (a record of
  functions) and the documented behaviour of its cursor is the predicate \<^verbatim>\<open>pin_list_spec\<close>.
  \<^verbatim>\<open>ArrayVec\<close> is used as a list of at most 32 wakers. Loops that may run forever are
  \<^theory_text>\<open>partial_function (option)\<close>: \<^verbatim>\<open>None\<close> is ``does not return''.
\<close>

subsection \<open>Layout of the readiness word\<close>

text \<open>The four constants are evaluated at compile time, where a panic is a build error.\<close>

definition READINESS :: Pack where "READINESS = projr (least_significant 16)"
definition TICK :: Pack where "TICK = projr (then_pack READINESS 8)"
definition GENERATION :: Pack where "GENERATION = projr (then_pack TICK 7)"
definition SHUTDOWN :: Pack where "SHUTDOWN = projr (then_pack GENERATION 1)"

subsection \<open>Data\<close>

record ('l, 'w) scheduled_io =
  readiness :: usize
  waiter_list :: 'l
  reader :: "'w option"
  writer :: "'w option"

record ready_event =
  ev_tick :: u8
  ev_ready :: ready
  is_shutdown :: bool

datatype tick = Tick_Set u8 | Tick_Clear u8

datatype direction = Read | Write

datatype future_state = Init | Waiting | Done

text \<open>The part of \<^verbatim>\<open>pin_list\<close> the code calls.\<close>

record ('l, 'c, 'n, 'w) pin_list =
  cursor_front_mut :: "'l \<Rightarrow> 'c"
  unprotected :: "'c \<Rightarrow> interest option"
  remove_current :: "'c \<Rightarrow> ('w \<times> 'c) option"
  cursor_list :: "'c \<Rightarrow> 'l"
  push_front :: "'n \<Rightarrow> 'w \<Rightarrow> interest \<Rightarrow> 'l \<Rightarrow> 'l"
  protected :: "'n \<Rightarrow> 'l \<Rightarrow> 'w option"
  set_protected :: "'n \<Rightarrow> 'w \<Rightarrow> 'l \<Rightarrow> 'l"

subsection \<open>The readiness word\<close>

definition default_scheduled_io :: "'l \<Rightarrow> ('l, 'w) scheduled_io" where
  "default_scheduled_io new_list =
     \<lparr>readiness = 0, waiter_list = new_list, reader = None, writer = None\<rparr>"

definition clear :: "('l, 'w) scheduled_io \<Rightarrow> panic + ('l, 'w) scheduled_io" where
  "clear sio =
     bindE (unpack GENERATION (readiness sio)) (\<lambda>generation.
     bindE (pack_lossy GENERATION (generation + 1) 0) (\<lambda>nxt.
       Inr (sio\<lparr>readiness := nxt\<rparr>)))"

definition generation :: "('l, 'w) scheduled_io \<Rightarrow> panic + usize" where
  "generation sio = unpack GENERATION (readiness sio)"

text \<open>
  One turn of the loop of \<^verbatim>\<open>set_readiness\<close>: what it would store for the word it has
  loaded, \<^verbatim>\<open>None\<close> when it gives up because the event is old.
\<close>

definition next_readiness ::
    "tick \<Rightarrow> (ready \<Rightarrow> ready) \<Rightarrow> usize \<Rightarrow> panic + usize option" where
  "next_readiness tk f current =
     bindE (unpack GENERATION current) (\<lambda>current_generation.
       let new = f (from_usize current) in
       case tk of
         Tick_Set t \<Rightarrow>
           bindE (pack TICK (ucast t) (as_usize new)) (\<lambda>packed.
           bindE (pack GENERATION current_generation packed) (\<lambda>nxt. Inr (Some nxt)))
       | Tick_Clear t \<Rightarrow>
           bindE (unpack TICK current) (\<lambda>tk.
             if ucast tk \<noteq> t then Inr None
             else
               bindE (pack TICK (ucast t) (as_usize new)) (\<lambda>packed.
               bindE (pack GENERATION current_generation packed) (\<lambda>nxt. Inr (Some nxt)))))"

text \<open>
  The compare-and-exchange loop. \<open>actual\<close> lists what the atomic holds at each exchange: the
  loop retries while that is not the word it computed from. The result is the word the atomic
  held at the successful exchange with the word stored, or \<^verbatim>\<open>None\<close> for the early return;
  a list that ends before the loop does is a run still in progress.
\<close>

datatype 'a cas_run = Running | Returned 'a

fun set_readiness_loop ::
    "tick \<Rightarrow> (ready \<Rightarrow> ready) \<Rightarrow> usize \<Rightarrow> usize list \<Rightarrow> (panic + (usize \<times> usize) option) cas_run" where
  "set_readiness_loop tk f current [] = Running"
| "set_readiness_loop tk f current (actual # rest) =
     (case next_readiness tk f current of
        Inl p \<Rightarrow> Returned (Inl p)
      | Inr None \<Rightarrow> Returned (Inr None)
      | Inr (Some nxt) \<Rightarrow>
          if actual = current then Returned (Inr (Some (actual, nxt)))
          else set_readiness_loop tk f actual rest)"

text \<open>Without interference the first exchange succeeds.\<close>

definition set_readiness ::
    "tick \<Rightarrow> (ready \<Rightarrow> ready) \<Rightarrow> ('l, 'w) scheduled_io \<Rightarrow> panic + ('l, 'w) scheduled_io" where
  "set_readiness tk f sio =
     bindE (next_readiness tk f (readiness sio)) (\<lambda>r.
       case r of None \<Rightarrow> Inr sio | Some nxt \<Rightarrow> Inr (sio\<lparr>readiness := nxt\<rparr>))"

definition clear_readiness ::
    "ready_event \<Rightarrow> ('l, 'w) scheduled_io \<Rightarrow> panic + ('l, 'w) scheduled_io" where
  "clear_readiness event sio =
     (let mask_no_closed = sub (sub (ev_ready event) READ_CLOSED) WRITE_CLOSED in
      set_readiness (Tick_Clear (ev_tick event)) (\<lambda>cur. sub cur mask_no_closed) sio)"

definition interest_mask :: "interest \<Rightarrow> ready" where
  "interest_mask i =
     (if i = Interest_READABLE then bitor READABLE READ_CLOSED
      else if i = Interest_WRITABLE then bitor WRITABLE WRITE_CLOSED
      else EMPTY)"

primrec direction_mask :: "direction \<Rightarrow> ready" where
  "direction_mask Read = bitor READABLE READ_CLOSED"
| "direction_mask Write = bitor WRITABLE WRITE_CLOSED"

text \<open>The three fields every reader of the word takes from it.\<close>

definition load_fields :: "usize \<Rightarrow> panic + (u8 \<times> ready \<times> bool)" where
  "load_fields cur =
     bindE (unpack TICK cur) (\<lambda>tk.
     bindE (unpack READINESS cur) (\<lambda>r.
     bindE (unpack SHUTDOWN cur) (\<lambda>sd.
       Inr (ucast tk, from_usize r, sd \<noteq> 0))))"

definition ready_event :: "interest \<Rightarrow> ('l, 'w) scheduled_io \<Rightarrow> panic + ready_event" where
  "ready_event i sio =
     bindE (load_fields (readiness sio)) (\<lambda>(tk, r, sd).
       Inr \<lparr>ev_tick = tk, ev_ready = bitand (interest_mask i) r, is_shutdown = sd\<rparr>)"

text \<open>
  \<^verbatim>\<open>poll_readiness\<close> loads the word twice: once before and once while holding the
  waiters' lock. \<open>cur1\<close> and \<open>cur2\<close> are what the two loads return. \<^verbatim>\<open>will_wake\<close>
  only saves a clone: in both branches the slot ends up with a waker for the polling task.
\<close>

definition store_waker :: "direction \<Rightarrow> 'w \<Rightarrow> ('l, 'w) scheduled_io \<Rightarrow> ('l, 'w) scheduled_io" where
  "store_waker dir cx sio =
     (case dir of
        Read \<Rightarrow> (case reader sio of
                   Some existing \<Rightarrow> if existing = cx then sio else sio\<lparr>reader := Some cx\<rparr>
                 | None \<Rightarrow> sio\<lparr>reader := Some cx\<rparr>)
      | Write \<Rightarrow> (case writer sio of
                   Some existing \<Rightarrow> if existing = cx then sio else sio\<lparr>writer := Some cx\<rparr>
                 | None \<Rightarrow> sio\<lparr>writer := Some cx\<rparr>))"

definition poll_readiness_loads ::
    "usize \<Rightarrow> usize \<Rightarrow> 'w \<Rightarrow> direction \<Rightarrow> ('l, 'w) scheduled_io
     \<Rightarrow> panic + (ready_event poll \<times> ('l, 'w) scheduled_io)" where
  "poll_readiness_loads cur1 cur2 cx dir sio =
     bindE (load_fields cur1) (\<lambda>(tk, r, sd).
       let rdy = bitand (direction_mask dir) r in
       if is_empty rdy \<and> \<not> sd
       then
         let sio' = store_waker dir cx sio in
         bindE (load_fields cur2) (\<lambda>(tk2, r2, sd2).
           let rdy2 = bitand (direction_mask dir) r2 in
           if sd2
           then Inr (Poll_Ready \<lparr>ev_tick = tk2, ev_ready = direction_mask dir, is_shutdown = sd2\<rparr>, sio')
           else if is_empty rdy2 then Inr (Poll_Pending, sio')
           else Inr (Poll_Ready \<lparr>ev_tick = tk2, ev_ready = rdy2, is_shutdown = sd2\<rparr>, sio'))
       else Inr (Poll_Ready \<lparr>ev_tick = tk, ev_ready = rdy, is_shutdown = sd\<rparr>, sio))"

definition poll_readiness ::
    "'w \<Rightarrow> direction \<Rightarrow> ('l, 'w) scheduled_io \<Rightarrow> panic + (ready_event poll \<times> ('l, 'w) scheduled_io)" where
  "poll_readiness cx dir sio = poll_readiness_loads (readiness sio) (readiness sio) cx dir sio"

subsection \<open>Waking the waiters\<close>

definition WAKERS_CAP :: nat where "WAKERS_CAP = 32"

text \<open>
  The inner loop of \<^verbatim>\<open>wake\<close>: it ends when the array is full (\<open>False\<close>) or the cursor has
  passed the last waiter (\<open>True\<close>).
\<close>

partial_function (option) collect_wakers ::
    "('l, 'c, 'n, 'w) pin_list \<Rightarrow> ready \<Rightarrow> 'c \<Rightarrow> 'w list \<Rightarrow> (panic + 'c \<times> 'w list \<times> bool) option" where
  "collect_wakers pl rdy cursor wakers =
     (if length wakers = WAKERS_CAP then Some (Inr (cursor, wakers, False))
      else case unprotected pl cursor of
        None \<Rightarrow> Some (Inr (cursor, wakers, True))
      | Some i \<Rightarrow>
          if satisfies rdy i
          then (case remove_current pl cursor of
                  None \<Rightarrow> Some (Inl (Expect_Failed ''we just checked that the item is protected''))
                | Some (waker, cursor') \<Rightarrow> collect_wakers pl rdy cursor' (wakers @ [waker]))
          else collect_wakers pl rdy cursor wakers)"

text \<open>
  The outer loop: the third argument is the array, the last the wakers woken so far. Each turn
  starts a new cursor at the front of the list.
\<close>

partial_function (option) wake_loop ::
    "('l, 'c, 'n, 'w) pin_list \<Rightarrow> ready \<Rightarrow> 'l \<Rightarrow> 'w list \<Rightarrow> 'w list \<Rightarrow> (panic + 'l \<times> 'w list) option" where
  "wake_loop pl rdy lst wakers woken =
     Option.bind (collect_wakers pl rdy (cursor_front_mut pl lst) wakers) (\<lambda>r.
       case r of
         Inl p \<Rightarrow> Some (Inl p)
       | Inr (cursor, wakers', finished) \<Rightarrow>
           if finished then Some (Inr (cursor_list pl cursor, woken @ wakers'))
           else wake_loop pl rdy (cursor_list pl cursor) [] (woken @ wakers'))"

definition store_list ::
    "('l, 'w) scheduled_io \<Rightarrow> panic + 'l \<times> 'w list \<Rightarrow> panic + ('l, 'w) scheduled_io \<times> 'w list" where
  "store_list sio r = bindE r (\<lambda>(lst, woken). Inr (sio\<lparr>waiter_list := lst\<rparr>, woken))"

definition wake ::
    "('l, 'c, 'n, 'w) pin_list \<Rightarrow> ready \<Rightarrow> ('l, 'w) scheduled_io
     \<Rightarrow> (panic + ('l, 'w) scheduled_io \<times> 'w list) option" where
  "wake pl rdy sio =
     (let (w1, sio1) =
            (if is_readable rdy
             then (case reader sio of Some w \<Rightarrow> ([w], sio\<lparr>reader := None\<rparr>) | None \<Rightarrow> ([], sio))
             else ([], sio));
          (w2, sio2) =
            (if is_writable rdy
             then (case writer sio1 of Some w \<Rightarrow> (w1 @ [w], sio1\<lparr>writer := None\<rparr>) | None \<Rightarrow> (w1, sio1))
             else (w1, sio1))
      in map_option (store_list sio2) (wake_loop pl rdy (waiter_list sio2) w2 []))"

subsection \<open>The future returned by \<^verbatim>\<open>readiness()\<close>\<close>

record 'n readiness_future =
  fut_state :: future_state
  fut_interest :: interest
  fut_node :: 'n

text \<open>
  The three arms of the loop of \<^verbatim>\<open>Readiness::poll\<close>, each with the word it loads; an arm that
  does not return falls through to the next state, so the loop runs three times at most.
\<close>

definition poll_done ::
    "usize \<Rightarrow> 'n readiness_future \<Rightarrow> panic + (ready_event poll \<times> 'n readiness_future)" where
  "poll_done cur fut =
     bindE (load_fields cur) (\<lambda>(tk, r, sd).
       Inr (Poll_Ready \<lparr>ev_tick = tk, ev_ready = intersection r (fut_interest fut), is_shutdown = sd\<rparr>,
            fut))"

definition poll_waiting ::
    "('l, 'c, 'n, 'w) pin_list \<Rightarrow> 'w \<Rightarrow> usize \<Rightarrow> 'n readiness_future \<Rightarrow> 'l
     \<Rightarrow> panic + (ready_event poll \<times> 'n readiness_future \<times> 'l)" where
  "poll_waiting pl cx cur fut lst =
     (case protected pl (fut_node fut) lst of
        Some _ \<Rightarrow> Inr (Poll_Pending, fut, set_protected pl (fut_node fut) cx lst)
      | None \<Rightarrow>
          bindE (poll_done cur (fut\<lparr>fut_state := Done\<rparr>)) (\<lambda>(ev, fut'). Inr (ev, fut', lst)))"

definition poll_init ::
    "('l, 'c, 'n, 'w) pin_list \<Rightarrow> 'w \<Rightarrow> usize \<Rightarrow> usize \<Rightarrow> usize \<Rightarrow> 'n readiness_future \<Rightarrow> 'l
     \<Rightarrow> panic + (ready_event poll \<times> 'n readiness_future \<times> 'l)" where
  "poll_init pl cx cur1 cur2 cur3 fut lst =
     bindE (load_fields cur1) (\<lambda>(tk, r, sd).
       let rdy = intersection r (fut_interest fut) in
       if \<not> is_empty rdy \<or> sd
       then Inr (Poll_Ready \<lparr>ev_tick = tk, ev_ready = rdy, is_shutdown = sd\<rparr>,
                 fut\<lparr>fut_state := Done\<rparr>, lst)
       else
         bindE (load_fields cur2) (\<lambda>(tk2, r2, sd2).
           let rdy2 = intersection (if sd2 then READY_ALL else r2) (fut_interest fut) in
           if \<not> is_empty rdy2 \<or> sd2
           then Inr (Poll_Ready \<lparr>ev_tick = tk2, ev_ready = rdy2, is_shutdown = sd2\<rparr>,
                     fut\<lparr>fut_state := Done\<rparr>, lst)
           else
             poll_waiting pl cx cur3 (fut\<lparr>fut_state := Waiting\<rparr>)
               (push_front pl (fut_node fut) cx (fut_interest fut) lst)))"

definition readiness_poll ::
    "('l, 'c, 'n, 'w) pin_list \<Rightarrow> 'w \<Rightarrow> 'n readiness_future \<Rightarrow> ('l, 'w) scheduled_io
     \<Rightarrow> panic + (ready_event poll \<times> 'n readiness_future \<times> ('l, 'w) scheduled_io)" where
  "readiness_poll pl cx fut sio =
     (let cur = readiness sio in
      bindE
        (case fut_state fut of
           Init \<Rightarrow> poll_init pl cx cur cur cur fut (waiter_list sio)
         | Waiting \<Rightarrow> poll_waiting pl cx cur fut (waiter_list sio)
         | Done \<Rightarrow> bindE (poll_done cur fut) (\<lambda>(ev, fut'). Inr (ev, fut', waiter_list sio)))
        (\<lambda>(ev, fut', lst). Inr (ev, fut', sio\<lparr>waiter_list := lst\<rparr>)))"

subsection \<open>Views of the word and of the waiter list\<close>

text \<open>What a reader of the word sees.\<close>

definition tick_of :: "usize \<Rightarrow> u8" where "tick_of x = ucast (take_bit 8 (drop_bit 16 x))"
definition generation_of :: "usize \<Rightarrow> usize" where "generation_of x = take_bit 7 (drop_bit 24 x)"
definition shutdown_of :: "usize \<Rightarrow> bool" where "shutdown_of x \<longleftrightarrow> bit x 31"

text \<open>The word with the given tick and generation over the given base.\<close>

definition packed_word :: "u8 \<Rightarrow> usize \<Rightarrow> ready \<Rightarrow> usize" where
  "packed_word t g r =
     projr (bindE (pack TICK (ucast t) (as_usize r)) (pack GENERATION g))"

type_synonym ('n, 'w) waiter = "'n \<times> 'w \<times> interest"

abbreviation waiter_waker :: "('n, 'w) waiter \<Rightarrow> 'w" where
  "waiter_waker x \<equiv> fst (snd x)"

abbreviation waiter_interest :: "('n, 'w) waiter \<Rightarrow> interest" where
  "waiter_interest x \<equiv> snd (snd x)"

text \<open>
  The documented behaviour of \<^verbatim>\<open>pin_list\<close>. \<open>elems\<close> reads a list as its nodes from front to back,
  \<open>pos\<close> a cursor as the nodes before it and those from it on. Reading a cursor does not move it;
  \<^verbatim>\<open>remove_current\<close> takes the node at the cursor, which then points at the next one.
\<close>

definition pin_list_spec ::
    "('l, 'c, 'n, 'w) pin_list \<Rightarrow> ('l \<Rightarrow> ('n, 'w) waiter list)
     \<Rightarrow> ('c \<Rightarrow> ('n, 'w) waiter list \<times> ('n, 'w) waiter list) \<Rightarrow> bool" where
  "pin_list_spec pl elems pos \<longleftrightarrow>
     (\<forall>l. pos (cursor_front_mut pl l) = ([], elems l)) \<and>
     (\<forall>c. unprotected pl c = (case snd (pos c) of [] \<Rightarrow> None | x # _ \<Rightarrow> Some (waiter_interest x))) \<and>
     (\<forall>c x rest. snd (pos c) = x # rest \<longrightarrow>
        (\<exists>c'. remove_current pl c = Some (waiter_waker x, c') \<and> pos c' = (fst (pos c), rest))) \<and>
     (\<forall>c. elems (cursor_list pl c) = fst (pos c) @ snd (pos c)) \<and>
     (\<forall>n w i l. map_of (elems l) n = None \<longrightarrow> elems (push_front pl n w i l) = (n, w, i) # elems l) \<and>
     (\<forall>n l. protected pl n l = map_option fst (map_of (elems l) n)) \<and>
     (\<forall>n w l. elems (set_protected pl n w l) =
        map (\<lambda>(m, w', i). (m, if m = n then w else w', i)) (elems l))"

text \<open>A list of nodes has this behaviour; the witnesses use it.\<close>

definition list_pin_list ::
    "(('n, 'w) waiter list, ('n, 'w) waiter list \<times> ('n, 'w) waiter list, 'n, 'w) pin_list" where
  "list_pin_list =
     \<lparr>cursor_front_mut = (\<lambda>l. ([], l)),
      unprotected = (\<lambda>c. case snd c of [] \<Rightarrow> None | x # _ \<Rightarrow> Some (waiter_interest x)),
      remove_current = (\<lambda>c. case snd c of [] \<Rightarrow> None | x # rest \<Rightarrow> Some (waiter_waker x, (fst c, rest))),
      cursor_list = (\<lambda>c. fst c @ snd c),
      push_front = (\<lambda>n w i l. (n, w, i) # l),
      protected = (\<lambda>n l. map_option fst (map_of l n)),
      set_protected = (\<lambda>n w l. map (\<lambda>(m, w', i). (m, if m = n then w else w', i)) l)\<rparr>"

definition waker_slot :: "direction \<Rightarrow> ('l, 'w) scheduled_io \<Rightarrow> 'w option" where
  "waker_slot dir sio = (case dir of Read \<Rightarrow> reader sio | Write \<Rightarrow> writer sio)"

text \<open>The wakers \<^verbatim>\<open>wake\<close> takes from the two slots before it walks the list.\<close>

definition slot_wakers :: "ready \<Rightarrow> ('l, 'w) scheduled_io \<Rightarrow> 'w list" where
  "slot_wakers rdy sio =
     (if is_readable rdy then opt_list (reader sio) else [])
     @ (if is_writable rdy then opt_list (writer sio) else [])"

definition clear_slots :: "ready \<Rightarrow> ('l, 'w) scheduled_io \<Rightarrow> ('l, 'w) scheduled_io" where
  "clear_slots rdy sio =
     sio\<lparr>reader := (if is_readable rdy then None else reader sio),
         writer := (if is_writable rdy then None else writer sio)\<rparr>"

text \<open>The writes the program makes to a readiness word over its life.\<close>

inductive word_step :: "usize \<Rightarrow> usize \<Rightarrow> bool" where
  driver_event: "next_readiness (Tick_Set t) (\<lambda>c. bitor c (from_mio e)) x = Inr (Some y) \<Longrightarrow> word_step x y"
| consumer_clear: "next_readiness (Tick_Clear t) (\<lambda>c. sub c m) x = Inr (Some y) \<Longrightarrow> word_step x y"
| slot_reuse: "clear (sio :: (unit, unit) scheduled_io) = Inr sio' \<Longrightarrow>
    x = readiness sio \<Longrightarrow> y = readiness sio' \<Longrightarrow> word_step x y"

subsection \<open>The layout constants\<close>

lemma layout_fields:
  "field_at READINESS 0 16" "field_at TICK 16 8" "field_at GENERATION 24 7" "field_at SHUTDOWN 31 1"
proof -
  show r: "field_at READINESS 0 16"
    using least_significant_ok [of 16] by (auto simp: READINESS_def)
  show t: "field_at TICK 16 8"
    using then_pack_ok [OF r, of 8] by (auto simp: TICK_def)
  show g: "field_at GENERATION 24 7"
    using then_pack_ok [OF t, of 7] by (auto simp: GENERATION_def)
  show "field_at SHUTDOWN 31 1"
    using then_pack_ok [OF g, of 1] by (auto simp: SHUTDOWN_def)
qed

interpretation rd: packed_field READINESS 0 16
  by unfold_locales (simp_all add: layout_fields)

interpretation tk: packed_field TICK 16 8
  by unfold_locales (simp_all add: layout_fields)

interpretation gn: packed_field GENERATION 24 7
  by unfold_locales (simp_all add: layout_fields)

interpretation sd: packed_field SHUTDOWN 31 1
  by unfold_locales (rule layout_fields, simp)

lemma bit_tick_of: "bit (tick_of x) i \<longleftrightarrow> i < 8 \<and> bit x (16 + i)"
  by (auto simp: tick_of_def bit_simps)

lemma bit_generation_of: "bit (generation_of x) i \<longleftrightarrow> i < 7 \<and> bit x (24 + i)"
  by (auto simp: generation_of_def bit_simps)

lemma ucast_u8_fits: "take_bit 8 (ucast (t :: u8) :: usize) = ucast t"
  by (rule bit_eqI) (auto simp: bit_simps dest: bit_imp_le_length)

lemma generation_of_fits: "take_bit 7 (generation_of x) = generation_of x"
  by (simp add: generation_of_def)

lemma from_usize_take_bit: "from_usize (take_bit 16 x) = from_usize x"
proof -
  have "take_bit 16 x AND as_usize READY_ALL = x AND as_usize READY_ALL"
    by (rule bit_eqI) (auto simp: bit_and_iff bit_take_bit_iff bit_READY_ALL)
  then show ?thesis by (simp add: from_usize_def)
qed

lemma load_fields_total [word_simps]: "load_fields x = Inr (tick_of x, from_usize x, shutdown_of x)"
proof -
  have "take_bit 1 (drop_bit 31 x) \<noteq> 0 \<longleftrightarrow> bit x 31"
    by (simp add: take_bit_Suc bit_iff_odd_drop_bit mod_2_eq_odd)
  then show ?thesis
    unfolding load_fields_def rd.unpack_total tk.unpack_total sd.unpack_total
    by (simp add: tick_of_def from_usize_take_bit shutdown_of_def)
qed

lemma pack_word:
  assumes "take_bit 7 g = g"
  shows "bindE (pack TICK (ucast t) (as_usize r)) (\<lambda>x. bindE (pack GENERATION g x) (\<lambda>n. Inr (Some n)))
    = Inr (Some (packed_word t g r))"
  using assms by (simp add: packed_word_def tk.pack_total [OF ucast_u8_fits] gn.pack_total)

lemma bit_packed_word:
  assumes "take_bit 7 g = g"
  shows "bit (packed_word t g r) i \<longleftrightarrow>
    (if 24 \<le> i \<and> i < 31 then bit g (i - 24)
     else if 16 \<le> i \<and> i < 24 then bit t (i - 16) else bit (as_usize r) i)"
proof -
  obtain x where x: "pack TICK (ucast t) (as_usize r) = Inr x"
    using tk.pack_total [OF ucast_u8_fits] by blast
  obtain y where y: "pack GENERATION g x = Inr y"
    using gn.pack_total [OF assms] by blast
  have "packed_word t g r = y" by (simp add: packed_word_def x y)
  then show ?thesis
    using gn.bit_packed [OF assms y, of i] tk.bit_packed [OF ucast_u8_fits x, of i]
    by (auto simp: bit_simps)
qed

lemma packed_word_view:
  assumes "take_bit 7 g = g" and "valid r"
  shows "tick_of (packed_word t g r) = t" "generation_of (packed_word t g r) = g"
    "from_usize (packed_word t g r) = r" "\<not> shutdown_of (packed_word t g r)"
proof -
  show "tick_of (packed_word t g r) = t"
    by (rule bit_eqI) (auto simp: bit_tick_of bit_packed_word [OF assms(1)] dest: bit_imp_le_length)
  show "generation_of (packed_word t g r) = g"
    by (rule bit_eqI) (use assms(1) in \<open>auto simp: bit_generation_of bit_packed_word [OF assms(1)]
      bit_take_bit_iff bit_eq_iff\<close>)
  have "packed_word t g r AND as_usize READY_ALL = as_usize r"
    by (rule bit_eqI) (use assms(2) in \<open>auto simp: bit_and_iff bit_READY_ALL valid_bit bit_packed_word [OF assms(1)]\<close>)
  then show "from_usize (packed_word t g r) = r"
    by (simp add: from_usize_def)
  show "\<not> shutdown_of (packed_word t g r)"
    using assms(2) by (auto simp: shutdown_of_def bit_packed_word [OF assms(1)] valid_bit)
qed

lemma next_readiness_total [word_simps]:
  "next_readiness tk f cur = Inr
     (case tk of
        Tick_Set t \<Rightarrow> Some (packed_word t (generation_of cur) (f (from_usize cur)))
      | Tick_Clear t \<Rightarrow>
          if tick_of cur \<noteq> t then None
          else Some (packed_word t (generation_of cur) (f (from_usize cur))))"
  by (simp add: next_readiness_def gn.unpack_total tk.unpack_total Let_def
      pack_word [OF generation_of_fits, unfolded generation_of_def] generation_of_def
      tick_of_def split: tick.splits)

subsection \<open>The waking loop\<close>

lemma list_pin_list_spec: "pin_list_spec list_pin_list (\<lambda>l. l) (\<lambda>c. c)"
  by (auto simp: pin_list_spec_def list_pin_list_def)

lemma pin_list_specD:
  assumes "pin_list_spec pl elems pos"
  shows "pos (cursor_front_mut pl l) = ([], elems l)"
    "snd (pos c) = [] \<Longrightarrow> unprotected pl c = None"
    "snd (pos c) = x # rest \<Longrightarrow> unprotected pl c = Some (waiter_interest x)"
    "snd (pos c) = x # rest \<Longrightarrow>
       \<exists>c'. remove_current pl c = Some (waiter_waker x, c') \<and> pos c' = (fst (pos c), rest)"
    "elems (cursor_list pl c) = fst (pos c) @ snd (pos c)"
  using assms unfolding pin_list_spec_def by (simp_all del: split_paired_All)

lemma collect_wakers_all:
  assumes pl: "pin_list_spec pl elems pos"
    and "\<forall>x \<in> set (snd (pos c)). satisfies rdy (waiter_interest x)"
    and "length ws \<le> WAKERS_CAP"
  shows "\<exists>c'. collect_wakers pl rdy c ws =
      Some (Inr (c', ws @ map waiter_waker (take (WAKERS_CAP - length ws) (snd (pos c))),
            length (snd (pos c)) < WAKERS_CAP - length ws))
    \<and> pos c' = (fst (pos c), drop (WAKERS_CAP - length ws) (snd (pos c)))"
  using assms(2,3)
proof (induction "snd (pos c)" arbitrary: c ws)
  case Nil
  then have "snd (pos c) = []" by simp
  with Nil show ?case
    by (subst collect_wakers.simps) (auto simp: pin_list_specD [OF pl] intro: prod_eqI)
next
  case (Cons x rest)
  show ?case
  proof (cases "length ws = WAKERS_CAP")
    case True
    then show ?thesis by (subst collect_wakers.simps) auto
  next
    case False
    obtain c' where c': "remove_current pl c = Some (waiter_waker x, c')" "pos c' = (fst (pos c), rest)"
      using pin_list_specD(4) [OF pl Cons.hyps(2) [symmetric]] by blast
    have unp: "unprotected pl c = Some (waiter_interest x)"
      by (rule pin_list_specD(3) [OF pl Cons.hyps(2) [symmetric]])
    have sat: "satisfies rdy (waiter_interest x)"
      using Cons.prems(1) Cons.hyps(2) by (metis list.set_intros(1))
    have step: "collect_wakers pl rdy c ws = collect_wakers pl rdy c' (ws @ [waiter_waker x])"
      using False c' unp sat by (subst collect_wakers.simps) simp
    obtain k where k: "WAKERS_CAP - length ws = Suc k" "WAKERS_CAP - length (ws @ [waiter_waker x]) = k"
      using False Cons.prems(2) by (metis Suc_diff_Suc diff_Suc_eq_diff_pred diff_commute le_neq_implies_less
          length_append_singleton diff_Suc_1)
    have "rest = snd (pos c')" using c' by simp
    moreover have "\<forall>x \<in> set (snd (pos c')). satisfies rdy (waiter_interest x)"
      using Cons.prems(1) Cons.hyps(2) c'(2) by (metis list.set_intros(2) snd_conv)
    moreover have "length (ws @ [waiter_waker x]) \<le> WAKERS_CAP"
      using False Cons.prems(2) by simp
    ultimately show ?thesis
      using Cons.hyps(1) [of c' "ws @ [waiter_waker x]"] step k c'(2) Cons.hyps(2) [symmetric] by auto
  qed
qed

lemma wake_loop_all:
  assumes pl: "pin_list_spec pl elems pos"
    and "\<forall>x \<in> set (elems l). satisfies rdy (waiter_interest x)"
    and "length ws < WAKERS_CAP"
  shows "\<exists>l'. wake_loop pl rdy l ws woken = Some (Inr (l', woken @ ws @ map waiter_waker (elems l)))
    \<and> elems l' = []"
  using assms(2,3)
proof (induction "length (elems l)" arbitrary: l ws woken rule: less_induct)
  case less
  let ?c = "cursor_front_mut pl l" and ?k = "WAKERS_CAP - length ws"
  have front: "pos ?c = ([], elems l)" by (rule pin_list_specD(1) [OF pl])
  obtain c' where c': "collect_wakers pl rdy ?c ws =
      Some (Inr (c', ws @ map waiter_waker (take ?k (elems l)), length (elems l) < ?k))"
    "pos c' = ([], drop ?k (elems l))"
    using collect_wakers_all [OF pl, of ?c rdy ws] less.prems front by auto
  have el: "elems (cursor_list pl c') = drop ?k (elems l)"
    using pin_list_specD(5) [OF pl, of c'] c'(2) by simp
  show ?case
  proof (cases "length (elems l) < ?k")
    case True
    then show ?thesis using c'(1) el by (subst wake_loop.simps) simp
  next
    case False
    have "length (elems (cursor_list pl c')) < length (elems l)"
      using False less.prems(2) el by auto
    moreover have "\<forall>x \<in> set (elems (cursor_list pl c')). satisfies rdy (waiter_interest x)"
      using less.prems(1) el by (metis in_set_dropD)
    moreover have "length ([] :: 'd list) < WAKERS_CAP" by (simp add: WAKERS_CAP_def)
    ultimately obtain l' where "wake_loop pl rdy (cursor_list pl c') []
        (woken @ ws @ map waiter_waker (take ?k (elems l))) =
        Some (Inr (l', (woken @ ws @ map waiter_waker (take ?k (elems l))) @ []
          @ map waiter_waker (elems (cursor_list pl c')))) \<and> elems l' = []"
      using less.hyps by blast
    moreover have "map waiter_waker (take ?k (elems l)) @ map waiter_waker (drop ?k (elems l))
        = map waiter_waker (elems l)"
      by (metis append_take_drop_id map_append)
    ultimately show ?thesis
      using c'(1) el False by (subst wake_loop.simps) simp
  qed
qed

lemma collect_wakers_stuck:
  assumes pl: "pin_list_spec pl elems pos"
    and ret: "collect_wakers pl rdy c ws = Some r"
    and bad: "\<exists>x \<in> set (snd (pos c)). \<not> satisfies rdy (waiter_interest x)"
  shows "\<exists>c' ws'. r = Inr (c', ws', False) \<and>
    (\<exists>x \<in> set (snd (pos c')). \<not> satisfies rdy (waiter_interest x))"
proof -
  have "pl' = pl \<longrightarrow> (\<exists>x \<in> set (snd (pos c)). \<not> satisfies rdy (waiter_interest x)) \<longrightarrow>
      (\<exists>c' ws'. r = Inr (c', ws', False) \<and> (\<exists>x \<in> set (snd (pos c')). \<not> satisfies rdy (waiter_interest x)))"
    if "collect_wakers pl' rdy c ws = Some r" for pl'
  proof (rule collect_wakers.raw_induct [where P = "\<lambda>pl' rdy c ws r. pl' = pl \<longrightarrow>
      (\<exists>x \<in> set (snd (pos c)). \<not> satisfies rdy (waiter_interest x)) \<longrightarrow>
      (\<exists>c' ws'. r = Inr (c', ws', False) \<and> (\<exists>x \<in> set (snd (pos c')). \<not> satisfies rdy (waiter_interest x)))",
      OF _ that], intro impI, goal_cases)
    case (1 f pl' rdy c ws r)
    then obtain x rest where xs: "snd (pos c) = x # rest" by (metis list.set_cases)
    from pin_list_specD(4) [OF pl xs] obtain c' where
      c': "remove_current pl c = Some (waiter_waker x, c')" "pos c' = (fst (pos c), rest)" by blast
    note unp = pin_list_specD(3) [OF pl xs]
    show ?case
    proof (cases "length ws = WAKERS_CAP")
      case True
      with 1(2,4) show ?thesis by auto
    next
      case False
      show ?thesis
      proof (cases "satisfies rdy (waiter_interest x)")
        case True
        with 1(2,3) False unp c' have "f pl rdy c' (ws @ [waiter_waker x]) = Some r" by simp
        moreover have "\<exists>x \<in> set (snd (pos c')). \<not> satisfies rdy (waiter_interest x)"
          using 1(4) True xs c'(2) by auto
        ultimately show ?thesis using 1(1) by blast
      next
        case unsat: False
        with 1(2,3) False unp have "f pl rdy c ws = Some r" by simp
        with 1(1,4) show ?thesis by blast
      qed
    qed
  qed
  with ret bad show ?thesis by blast
qed

lemma wake_loop_stuck:
  assumes pl: "pin_list_spec pl elems pos"
    and bad: "\<exists>x \<in> set (elems l). \<not> satisfies rdy (waiter_interest x)"
  shows "wake_loop pl rdy l ws woken = None"
proof (rule ccontr)
  assume "wake_loop pl rdy l ws woken \<noteq> None"
  then obtain r where ret: "wake_loop pl rdy l ws woken = Some r" by blast
  have "pl = pl \<longrightarrow> \<not> (\<exists>x \<in> set (elems l). \<not> satisfies rdy (waiter_interest x))"
  proof (rule wake_loop.raw_induct [where P = "\<lambda>pl' rdy l ws woken r. pl' = pl \<longrightarrow>
      \<not> (\<exists>x \<in> set (elems l). \<not> satisfies rdy (waiter_interest x))", OF _ ret], intro impI notI, goal_cases)
    case (1 f pl' rdy l ws woken r)
    then obtain r1 where r1: "collect_wakers pl rdy (cursor_front_mut pl l) ws = Some r1"
      by (auto simp: bind_eq_Some_conv)
    moreover have "\<exists>x \<in> set (snd (pos (cursor_front_mut pl l))). \<not> satisfies rdy (waiter_interest x)"
      using 1(4) pin_list_specD(1) [OF pl] by simp
    ultimately obtain c' ws' where c': "r1 = Inr (c', ws', False)"
      "\<exists>x \<in> set (snd (pos c')). \<not> satisfies rdy (waiter_interest x)"
      using collect_wakers_stuck [OF pl] by blast
    then have "f pl rdy (cursor_list pl c') [] (woken @ ws') = Some r"
      using 1(2,3) r1 by simp
    moreover have "\<exists>x \<in> set (elems (cursor_list pl c')). \<not> satisfies rdy (waiter_interest x)"
      using c'(2) pin_list_specD(5) [OF pl, of c'] by auto
    ultimately show False using 1(1) by blast
  qed
  with bad show False by simp
qed

subsection \<open>Helper facts\<close>

lemma set_readiness_total [word_simps]:
  "set_readiness tk f sio = Inr (case tk of
      Tick_Set t \<Rightarrow> sio\<lparr>readiness := packed_word t (generation_of (readiness sio)) (f (from_usize (readiness sio)))\<rparr>
    | Tick_Clear t \<Rightarrow>
        if tick_of (readiness sio) \<noteq> t then sio
        else sio\<lparr>readiness := packed_word t (generation_of (readiness sio)) (f (from_usize (readiness sio)))\<rparr>)"
  by (simp add: set_readiness_def word_simps split: tick.splits)

lemma flags_direction_mask:
  "flags (direction_mask dir) = (case dir of Read \<Rightarrow> {Readable, ReadClosed} | Write \<Rightarrow> {Writable, WriteClosed})"
  by (cases dir) (auto simp: flag_simps)

lemma valid_direction_mask [simp]: "valid (direction_mask dir)"
  by (cases dir) (simp_all add: flag_simps)

lemma is_empty_masked:
  "is_empty (bitand (direction_mask dir) (from_usize x)) \<longleftrightarrow>
     flags (direction_mask dir) \<inter> flags (from_usize x) = {}"
  by (simp add: is_empty_iff flag_simps)

lemma store_waker_slot [simp]:
  "waker_slot dir (store_waker dir cx sio) = Some cx"
  "readiness (store_waker dir cx sio) = readiness sio"
  "waiter_list (store_waker dir cx sio) = waiter_list sio"
  by (auto simp: waker_slot_def store_waker_def split: direction.splits option.splits)

lemma wake_alt:
  "wake pl rdy sio = map_option (store_list (clear_slots rdy sio))
     (wake_loop pl rdy (waiter_list sio) (slot_wakers rdy sio) [])"
  by (cases sio; cases "reader sio"; cases "writer sio"; cases "is_readable rdy"; cases "is_writable rdy")
    (simp_all add: wake_def slot_wakers_def clear_slots_def)

lemma slot_wakers_short: "length (slot_wakers rdy sio) < WAKERS_CAP"
  by (cases "reader sio"; cases "writer sio") (simp_all add: slot_wakers_def WAKERS_CAP_def)

lemma wake_all:
  assumes "pin_list_spec pl elems pos"
    and "\<forall>x \<in> set (elems (waiter_list sio)). satisfies rdy (waiter_interest x)"
  shows "\<exists>sio'. wake pl rdy sio =
      Some (Inr (sio', slot_wakers rdy sio @ map waiter_waker (elems (waiter_list sio))))
    \<and> elems (waiter_list sio') = []
    \<and> reader sio' = (if is_readable rdy then None else reader sio)
    \<and> writer sio' = (if is_writable rdy then None else writer sio)
    \<and> readiness sio' = readiness sio"
  using wake_loop_all [OF assms slot_wakers_short [of rdy sio], of "[]"]
  by (auto simp: wake_alt store_list_def clear_slots_def)

subsection \<open>Properties\<close>

text \<open>
  Recording an event stores the new readiness and the driver's tick, keeps the generation and
  changes nothing else.
\<close>

theorem set_readiness_records_event:
  assumes "valid (f (from_usize (readiness sio)))"
  shows "\<exists>sio'. set_readiness (Tick_Set t) f sio = Inr sio' \<and>
    tick_of (readiness sio') = t \<and>
    generation_of (readiness sio') = generation_of (readiness sio) \<and>
    from_usize (readiness sio') = f (from_usize (readiness sio)) \<and>
    sio'\<lparr>readiness := readiness sio\<rparr> = sio"
  using packed_word_view [OF generation_of_fits assms] by (simp add: word_simps)

theorem set_readiness_records_event_witness:
  "\<exists>sio'. set_readiness (Tick_Set 7) (\<lambda>c. bitor c READABLE)
      \<lparr>readiness = 0x5010002, waiter_list = ([] :: nat list), reader = Some (3 :: nat), writer = None\<rparr> = Inr sio' \<and>
    tick_of (readiness sio') = 7 \<and> generation_of (readiness sio') = 5 \<and>
    flags (from_usize (readiness sio')) = {Readable, Writable} \<and> reader sio' = Some 3"
proof -
  let ?s = "\<lparr>readiness = 0x5010002, waiter_list = ([] :: nat list), reader = Some (3 :: nat), writer = None\<rparr>"
  have w: "from_usize 0x5010002 = WRITABLE" by (simp add: from_usize_def ready_consts)
  have "valid (bitor (from_usize (readiness ?s)) READABLE)" by (simp add: flag_simps)
  from set_readiness_records_event [of "\<lambda>c. bitor c READABLE", OF this, of 7] obtain sio' where
    sio': "set_readiness (Tick_Set 7) (\<lambda>c. bitor c READABLE) ?s = Inr sio'"
    "tick_of (readiness sio') = 7" "generation_of (readiness sio') = generation_of 0x5010002"
    "from_usize (readiness sio') = bitor WRITABLE READABLE" "sio'\<lparr>readiness := 0x5010002\<rparr> = ?s"
    by (auto simp: w)
  have "reader sio' = Some 3" using arg_cong [OF sio'(5), of reader] by simp
  moreover have "generation_of 0x5010002 = 5" by (simp add: generation_of_def drop_bit_eq_div take_bit_eq_mod)
  ultimately show ?thesis using sio' by (auto simp: flag_simps)
qed

text \<open>
  Clearing readiness with the event of an older tick changes nothing, so readiness that arrived
  since is not lost.
\<close>

theorem stale_clear_keeps_new_event:
  assumes "valid (f (from_usize (readiness sio)))"
    and "set_readiness (Tick_Set t) f sio = Inr sio1" and "ev_tick ev \<noteq> t"
  shows "clear_readiness ev sio1 = Inr sio1"
proof -
  have "tick_of (readiness sio1) = t"
    using set_readiness_total [of "Tick_Set t" f sio] packed_word_view [OF generation_of_fits assms(1)] assms(2)
    by auto
  with assms(3) show ?thesis by (simp add: clear_readiness_def word_simps)
qed

text \<open>
  Clearing with the current tick removes exactly the readiness of the event except the closed flags,
  which are final, and keeps the tick and the generation.
\<close>

theorem clear_readiness_keeps_closed:
  assumes "ev_tick ev = tick_of (readiness sio)"
  shows "\<exists>sio'. clear_readiness ev sio = Inr sio' \<and>
    flags (from_usize (readiness sio')) =
      flags (from_usize (readiness sio)) - (flags (ev_ready ev) - {ReadClosed, WriteClosed}) \<and>
    tick_of (readiness sio') = tick_of (readiness sio) \<and>
    generation_of (readiness sio') = generation_of (readiness sio) \<and>
    sio'\<lparr>readiness := readiness sio\<rparr> = sio"
proof -
  let ?r = "sub (from_usize (readiness sio)) (sub (sub (ev_ready ev) READ_CLOSED) WRITE_CLOSED)"
  have "valid ?r" by (simp add: flag_simps)
  moreover have "flags ?r = flags (from_usize (readiness sio)) - (flags (ev_ready ev) - {ReadClosed, WriteClosed})"
    by (auto simp: flag_simps)
  ultimately show ?thesis
    using packed_word_view [OF generation_of_fits, of ?r] assms
    by (simp add: clear_readiness_def word_simps)
qed

theorem stale_clear_keeps_new_event_witness:
  "clear_readiness \<lparr>ev_tick = 4, ev_ready = READABLE, is_shutdown = False\<rparr>
     \<lparr>readiness = packed_word 5 0 READABLE, waiter_list = ([] :: nat list), reader = None :: nat option, writer = None\<rparr>
   = Inr \<lparr>readiness = packed_word 5 0 READABLE, waiter_list = [], reader = None, writer = None\<rparr>"
proof -
  let ?s = "\<lparr>readiness = 0, waiter_list = ([] :: nat list), reader = None :: nat option, writer = None\<rparr>"
  have "generation_of 0 = 0" by (simp add: generation_of_def)
  moreover have "from_usize 0 = EMPTY" by (simp add: from_usize_def ready_consts)
  ultimately have "set_readiness (Tick_Set 5) (\<lambda>c. READABLE) ?s =
      Inr (?s\<lparr>readiness := packed_word 5 0 READABLE\<rparr>)"
    by (simp add: word_simps)
  from stale_clear_keeps_new_event [OF _ this, of "\<lparr>ev_tick = 4, ev_ready = READABLE, is_shutdown = False\<rparr>"]
  show ?thesis by simp
qed

theorem clear_readiness_keeps_closed_witness:
  "\<exists>sio'. clear_readiness \<lparr>ev_tick = 0, ev_ready = bitor READABLE READ_CLOSED, is_shutdown = False\<rparr>
      \<lparr>readiness = 5, waiter_list = ([] :: nat list), reader = None :: nat option, writer = None\<rparr> = Inr sio'
    \<and> flags (from_usize (readiness sio')) = {ReadClosed}"
proof -
  let ?s = "\<lparr>readiness = 5, waiter_list = ([] :: nat list), reader = None :: nat option, writer = None\<rparr>"
  let ?ev = "\<lparr>ev_tick = 0, ev_ready = bitor READABLE READ_CLOSED, is_shutdown = False\<rparr>"
  have t: "ev_tick ?ev = tick_of (readiness ?s)" by (simp add: tick_of_def drop_bit_eq_div)
  have "from_usize 5 = bitor READABLE READ_CLOSED"
    by (simp add: from_usize_def bitor_def ready_consts)
  with clear_readiness_keeps_closed [OF t] show ?thesis by (auto simp: flag_simps)
qed

text \<open>
  When the compare-exchange loop returns, it either replaced the value it had computed from, or gave
  up on a value whose tick is not the one to clear.
\<close>

theorem set_readiness_loop_atomic:
  assumes "set_readiness_loop tk f cur actuals = Returned r"
  shows "(\<exists>old new. r = Inr (Some (old, new)) \<and> old \<in> set actuals \<and> next_readiness tk f old = Inr (Some new))
    \<or> (r = Inr None \<and> (\<exists>old \<in> insert cur (set actuals). next_readiness tk f old = Inr None))"
  using assms
proof (induction actuals arbitrary: cur)
  case Nil
  then show ?case by simp
next
  case (Cons a rest)
  obtain o1 where "next_readiness tk f cur = Inr o1" using next_readiness_total by blast
  then consider (stop) "next_readiness tk f cur = Inr None" | (go) nxt where "next_readiness tk f cur = Inr (Some nxt)"
    by (cases o1) auto
  then show ?case
  proof cases
    case stop
    with Cons.prems show ?thesis by simp
  next
    case go
    show ?thesis
    proof (cases "a = cur")
      case True
      with go Cons.prems show ?thesis by auto
    next
      case False
      with go Cons.prems have "set_readiness_loop tk f a rest = Returned r" by simp
      from Cons.IH [OF this] show ?thesis by auto
    qed
  qed
qed

theorem set_readiness_loop_atomic_witness:
  "\<exists>new. set_readiness_loop (Tick_Set 3) (\<lambda>c. bitor c READABLE) 0 [2, 2] = Returned (Inr (Some (2, new)))
    \<and> next_readiness (Tick_Set 3) (\<lambda>c. bitor c READABLE) 2 = Inr (Some new)"
proof -
  let ?f = "\<lambda>c. bitor c READABLE"
  have run: "set_readiness_loop (Tick_Set 3) ?f 0 [2, 2]
      = Returned (Inr (Some (2, packed_word 3 (generation_of 2) (?f (from_usize 2)))))"
    by (simp add: word_simps)
  from set_readiness_loop_atomic [OF run] run show ?thesis by auto
qed

lemma ex_up_to_Suc: "(\<exists>j \<le> Suc k. P ((x # xs) ! j)) \<longleftrightarrow> P x \<or> (\<exists>j \<le> k. P (xs ! j))"
  by (metis Suc_le_mono le0 nat.exhaust nth_Cons_0 nth_Cons_Suc)

lemma set_readiness_loop_quiet:
  assumes "k < length actuals" "actuals ! k = (cur # actuals) ! k" "\<forall>j < k. actuals ! j \<noteq> (cur # actuals) ! j"
  shows "set_readiness_loop tk f cur actuals = Returned (Inr (case tk of
      Tick_Set t \<Rightarrow> Some (actuals ! k, packed_word t (generation_of (actuals ! k)) (f (from_usize (actuals ! k))))
    | Tick_Clear t \<Rightarrow> if \<exists>j \<le> k. tick_of ((cur # actuals) ! j) \<noteq> t then None
        else Some (actuals ! k, packed_word t (generation_of (actuals ! k)) (f (from_usize (actuals ! k))))))"
  using assms
proof (induction actuals arbitrary: cur k)
  case (Cons a rest)
  show ?case
  proof (cases k)
    case 0
    then show ?thesis using Cons.prems(2) by (simp add: next_readiness_total split: tick.splits)
  next
    case (Suc m)
    have "a \<noteq> cur" using Cons.prems(3) Suc by (metis nth_Cons_0 zero_less_Suc)
    moreover have "\<forall>j < m. rest ! j \<noteq> (a # rest) ! j" using Cons.prems(3) Suc by (metis Suc_mono nth_Cons_Suc)
    with Cons.IH [of m a] Cons.prems(1,2) Suc have "set_readiness_loop tk f a rest = Returned (Inr (case tk of
        Tick_Set t \<Rightarrow> Some (rest ! m, packed_word t (generation_of (rest ! m)) (f (from_usize (rest ! m))))
      | Tick_Clear t \<Rightarrow> if \<exists>j \<le> m. tick_of ((a # rest) ! j) \<noteq> t then None
          else Some (rest ! m, packed_word t (generation_of (rest ! m)) (f (from_usize (rest ! m))))))" by simp
    ultimately show ?thesis using Suc ex_up_to_Suc [where P = "\<lambda>x. tick_of x \<noteq> _" and x = cur and xs = "a # rest" and k = m]
      by (auto simp: next_readiness_total split: tick.splits)
  qed
qed simp

text \<open>
  C29: The compare-exchange loop returns at its first exchange before which the word did not change
  since its load. Setting then replaces that word by one with the new readiness, the given tick, the
  same generation and no shutdown; clearing does the same when every word it has loaded carries the
  tick to clear, and else leaves the word alone.
\<close>

theorem set_readiness_loop_returns:
  assumes "k < length actuals" "actuals ! k = (cur # actuals) ! k" "\<forall>j < k. actuals ! j \<noteq> (cur # actuals) ! j"
    and "valid (f (from_usize (actuals ! k)))"
  shows "\<exists>y. from_usize y = f (from_usize (actuals ! k)) \<and> tick_of y = t \<and> generation_of y = generation_of (actuals ! k) \<and> \<not> shutdown_of y \<and>
    set_readiness_loop (Tick_Set t) f cur actuals = Returned (Inr (Some (actuals ! k, y))) \<and>
    set_readiness_loop (Tick_Clear t) f cur actuals =
      Returned (Inr (if \<exists>j \<le> k. tick_of ((cur # actuals) ! j) \<noteq> t then None else Some (actuals ! k, y)))"
  using set_readiness_loop_quiet [OF assms(1-3), of _ f] packed_word_view [OF generation_of_fits assms(4)]
  by (intro exI [of _ "packed_word t (generation_of (actuals ! k)) (f (from_usize (actuals ! k)))"]) (simp only: tick.simps simp_thms)

theorem set_readiness_loop_returns_witness:
  "(\<exists>y. from_usize y = sub (from_usize 0x10003) READABLE \<and> tick_of y = 1 \<and>
      set_readiness_loop (Tick_Clear 1) (\<lambda>c. sub c READABLE) 0x10001 [0x10003, 0x10003] = Returned (Inr (Some (0x10003, y)))) \<and>
   set_readiness_loop (Tick_Clear 2) (\<lambda>c. sub c READABLE) 0x10001 [0x10001] = Returned (Inr None)"
proof
  let ?f = "\<lambda>c. sub c READABLE"
  have t: "tick_of 0x10001 = 1" "tick_of 0x10003 = 1" by (simp_all add: tick_of_def drop_bit_take_bit take_bit_drop_bit)
  have "valid (?f (from_usize 0x10003))" "valid (?f (from_usize 0x10001))" by (simp_all add: flag_simps)
  then have v: "valid (?f (from_usize ([0x10003, 0x10003] ! 1)))" "valid (?f (from_usize ([0x10001] ! 0)))" by simp_all
  have q: "\<not> (\<exists>j \<le> 1. tick_of ([0x10001, 0x10003, 0x10003] ! j) \<noteq> 1)" "\<forall>j < 1. [0x10003, 0x10003] ! j \<noteq> [0x10001 :: usize, 0x10003, 0x10003] ! j"
    using t ex_up_to_Suc [of 0 "\<lambda>x. tick_of x \<noteq> 1" "0x10001" "[0x10003, 0x10003]"] by simp_all
  from set_readiness_loop_returns [of 1 "[0x10003, 0x10003]" "0x10001" ?f 1, OF _ _ q(2) v(1)] q(1)
  show "\<exists>y. from_usize y = sub (from_usize 0x10003) READABLE \<and> tick_of y = 1 \<and>
      set_readiness_loop (Tick_Clear 1) ?f 0x10001 [0x10003, 0x10003] = Returned (Inr (Some (0x10003, y)))"
    by (auto simp del: set_readiness_loop.simps)
  from set_readiness_loop_returns [of 0 "[0x10001]" "0x10001" ?f 2, OF _ _ _ v(2)] t
  show "set_readiness_loop (Tick_Clear 2) ?f 0x10001 [0x10001] = Returned (Inr None)" by auto
qed

lemma clear_total:
  "\<exists>x. clear sio = Inr (sio\<lparr>readiness := x\<rparr>) \<and>
    unat (generation_of x) = (unat (generation_of (readiness sio)) + 1) mod 128 \<and>
    tick_of x = 0 \<and> is_empty (from_usize x) \<and>
    \<not> shutdown_of x"
proof -
  let ?g = "generation_of (readiness sio)" and ?n = "take_bit 7 (generation_of (readiness sio) + 1)"
  have n: "take_bit 7 ?n = ?n" by simp
  obtain x where x: "pack GENERATION ?n 0 = Inr x" using gn.pack_total [OF n] by blast
  have bits: "bit x i \<longleftrightarrow> (24 \<le> i \<and> i < 31 \<and> bit ?n (i - 24))" for i
    using gn.bit_packed [OF n x, of i] by auto
  have "clear sio = Inr (sio\<lparr>readiness := x\<rparr>)"
    by (simp add: clear_def gn.unpack_total gn.pack_lossy_total flip: generation_of_def) (simp add: x)
  moreover have gx: "generation_of x = ?n"
    by (rule bit_eqI) (auto simp: bit_generation_of bits bit_take_bit_iff)
  moreover have "tick_of x = 0" by (rule bit_eqI) (auto simp: bit_tick_of bits)
  moreover have "is_empty (from_usize x)"
  proof -
    have "\<not> bit x (flag_index f)" for f
      using bits [of "flag_index f"] flag_index_less [of f] by linarith
    then show ?thesis by (simp add: is_empty_iff flags_from_usize)
  qed
  moreover have "\<not> shutdown_of x" by (simp add: shutdown_of_def bits)
  moreover have "unat (generation_of x) = (unat ?g + 1) mod 128"
  proof -
    have "unat ?g < 128" using arg_cong [OF generation_of_fits [of "readiness sio"], of unat]
      by (simp add: unsigned_take_bit_eq take_bit_nat_eq_self_iff del: generation_of_fits)
    then have "unat (?g + 1) = unat ?g + 1" by (simp add: unat_word_ariths)
    moreover have "unat ?n = take_bit 7 (unat (?g + 1))" by (rule unsigned_take_bit_eq)
    ultimately show ?thesis by (simp add: gx take_bit_eq_mod)
  qed
  ultimately show ?thesis by (intro exI [of _ x] conjI)
qed

text \<open>
  Clearing a slot for reuse increments its generation modulo 128 and resets readiness, tick and
  shutdown.
\<close>

theorem clear_bumps_generation:
  "\<exists>sio'. clear sio = Inr sio' \<and>
    unat (generation_of (readiness sio')) = (unat (generation_of (readiness sio)) + 1) mod 128 \<and>
    tick_of (readiness sio') = 0 \<and> is_empty (from_usize (readiness sio')) \<and>
    \<not> shutdown_of (readiness sio') \<and> sio'\<lparr>readiness := readiness sio\<rparr> = sio"
  using clear_total [of sio] by auto

lemma poll_readiness_pending_iff:
  "poll_readiness_loads cur1 cur2 cx dir sio = Inr (Poll_Pending, sio') \<longleftrightarrow>
     flags (direction_mask dir) \<inter> flags (from_usize cur1) = {} \<and> \<not> shutdown_of cur1 \<and>
     flags (direction_mask dir) \<inter> flags (from_usize cur2) = {} \<and> \<not> shutdown_of cur2 \<and> sio' = store_waker dir cx sio"
  by (auto simp: poll_readiness_loads_def word_simps Let_def is_empty_masked split: if_splits)

text \<open>
  When every listed waiter is interested in the event, wake returns and has woken the matching slots
  and every listed waiter once, however many there are.
\<close>

theorem wake_wakes_every_waiter:
  assumes "pin_list_spec pl elems pos"
    and "\<forall>x \<in> set (elems (waiter_list sio)). satisfies rdy (waiter_interest x)"
  shows "\<exists>sio'. wake pl rdy sio =
      Some (Inr (sio', slot_wakers rdy sio @ map waiter_waker (elems (waiter_list sio))))
    \<and> elems (waiter_list sio') = []
    \<and> reader sio' = (if is_readable rdy then None else reader sio)
    \<and> writer sio' = (if is_writable rdy then None else writer sio)
    \<and> readiness sio' = readiness sio"
  by (rule wake_all [OF assms])

theorem wake_wakes_every_waiter_witness:
  "\<exists>sio'. wake list_pin_list READABLE
      \<lparr>readiness = 1, waiter_list = map (\<lambda>k. (k :: nat, k + 100, Interest_READABLE)) [0..<40],
       reader = Some (7 :: nat), writer = Some 8\<rparr>
    = Some (Inr (sio', 7 # map (\<lambda>k. k + 100) [0..<40])) \<and> waiter_list sio' = [] \<and> writer sio' = Some 8"
proof -
  let ?s = "\<lparr>readiness = 1, waiter_list = map (\<lambda>k. (k :: nat, k + 100, Interest_READABLE)) [0..<40],
       reader = Some (7 :: nat), writer = Some 8\<rparr>"
  have r: "is_readable READABLE" "\<not> is_writable READABLE"
    by (simp_all add: flag_simps)
  have "satisfies READABLE Interest_READABLE"
    by (simp add: satisfies_iff flag_simps Interest_READABLE_def)
  then have "\<forall>x \<in> set (waiter_list ?s). satisfies READABLE (waiter_interest x)" by auto
  from wake_wakes_every_waiter [OF list_pin_list_spec this] r show ?thesis
    by (auto simp: slot_wakers_def comp_def)
qed

text \<open>
  C30: When a listed waiter is not interested in the event, wake never returns: the cursor is not
  advanced past it.
\<close>

theorem wake_spins_on_unready_waiter:
  assumes "pin_list_spec pl elems pos"
    and "\<exists>x \<in> set (elems (waiter_list sio)). \<not> satisfies rdy (waiter_interest x)"
  shows "wake pl rdy sio = None"
  using wake_loop_stuck [OF assms] by (simp add: wake_alt)

theorem wake_spins_on_unready_waiter_witness:
  "wake list_pin_list WRITABLE
     \<lparr>readiness = 2, waiter_list = [(0 :: nat, 5 :: nat, Interest_READABLE)], reader = None, writer = Some 9\<rparr> = None"
proof -
  have "\<not> satisfies WRITABLE Interest_READABLE"
    by (simp add: satisfies_iff flag_simps Interest_READABLE_def)
  with wake_spins_on_unready_waiter [OF list_pin_list_spec, of
      "\<lparr>readiness = 2, waiter_list = [(0 :: nat, 5 :: nat, Interest_READABLE)], reader = None, writer = Some 9\<rparr>" WRITABLE]
  show ?thesis by simp
qed

lemma slot_wakers_member:
  assumes "waker_slot dir sio = Some cx"
    and "(dir = Read \<longrightarrow> is_readable r) \<and> (dir = Write \<longrightarrow> is_writable r)"
  shows "cx \<in> set (slot_wakers r sio)"
  using assms by (cases dir) (simp_all add: slot_wakers_def waker_slot_def)

text \<open>
  No wakeup is lost: when a poll for a direction is pending, recording an event for that direction
  and waking the waiters wakes the waker the poll stored.
\<close>

theorem pending_poll_is_woken:
  assumes pl: "pin_list_spec pl elems pos"
    and pend: "poll_readiness cx dir sio = Inr (Poll_Pending, sio1)"
    and ev: "flags (from_mio e) \<inter> flags (direction_mask dir) \<noteq> {}"
    and ws: "\<forall>x \<in> set (elems (waiter_list sio)). satisfies (from_mio e) (waiter_interest x)"
  shows "\<exists>sio2 sio3 woken. set_readiness (Tick_Set t) (\<lambda>c. bitor c (from_mio e)) sio1 = Inr sio2
    \<and> wake pl (from_mio e) sio2 = Some (Inr (sio3, woken)) \<and> cx \<in> set woken
    \<and> waker_slot dir sio3 = None
    \<and> (\<exists>ev. poll_readiness cx' dir sio3 = Inr (Poll_Ready ev, sio3) \<and> ev_tick ev = t)"
proof -
  have sio1: "sio1 = store_waker dir cx sio"
    using pend by (simp add: poll_readiness_def poll_readiness_pending_iff)
  let ?f = "\<lambda>c. bitor c (from_mio e)"
  have v: "valid (?f (from_usize (readiness sio1)))" by (simp add: flag_simps)
  obtain sio2 where sio2: "set_readiness (Tick_Set t) ?f sio1 = Inr sio2" "tick_of (readiness sio2) = t"
    "from_usize (readiness sio2) = ?f (from_usize (readiness sio1))" "\<not> shutdown_of (readiness sio2)"
    "reader sio2 = reader sio1" "writer sio2 = writer sio1" "waiter_list sio2 = waiter_list sio1"
    using packed_word_view [OF generation_of_fits v] by (simp add: word_simps)
  have slot: "waker_slot dir sio2 = Some cx"
    using store_waker_slot(1) [of dir cx sio] sio2(5,6) by (cases dir) (simp_all add: sio1 waker_slot_def)
  have dirs: "(dir = Read \<longrightarrow> is_readable (from_mio e)) \<and> (dir = Write \<longrightarrow> is_writable (from_mio e))"
    using ev by (cases dir) (auto simp: flag_simps)
  have ws': "\<forall>x \<in> set (elems (waiter_list sio2)). satisfies (from_mio e) (waiter_interest x)"
    using ws sio2(7) by (simp add: sio1)
  obtain sio3 where sio3: "wake pl (from_mio e) sio2 =
      Some (Inr (sio3, slot_wakers (from_mio e) sio2 @ map waiter_waker (elems (waiter_list sio2))))"
    "reader sio3 = (if is_readable (from_mio e) then None else reader sio2)"
    "writer sio3 = (if is_writable (from_mio e) then None else writer sio2)"
    "readiness sio3 = readiness sio2"
    using wake_all [OF pl ws'] by blast
  have a: "cx \<in> set (slot_wakers (from_mio e) sio2 @ map waiter_waker (elems (waiter_list sio2)))"
    using slot_wakers_member [OF slot dirs] by simp
  have b: "waker_slot dir sio3 = None"
    using sio3(2,3) dirs by (cases dir) (simp_all add: waker_slot_def)
  have "\<not> is_empty (bitand (direction_mask dir) (from_usize (readiness sio3)))"
    unfolding is_empty_masked using ev sio3(4) sio2(3) by (auto simp: flag_simps)
  then have c: "poll_readiness cx' dir sio3 = Inr (Poll_Ready \<lparr>ev_tick = t,
      ev_ready = bitand (direction_mask dir) (from_usize (readiness sio3)), is_shutdown = False\<rparr>, sio3)"
    using sio2(2,4) sio3(4) by (simp add: poll_readiness_def poll_readiness_loads_def word_simps Let_def)
  show ?thesis
    by (intro exI conjI, rule sio2(1), rule sio3(1), rule a, rule b, rule c) simp
qed

lemma readiness_init_waits:
  assumes "pin_list_spec pl elems pos"
    and "fut_state fut = Init" and "map_of (elems (waiter_list sio)) (fut_node fut) = None"
    and "\<not> satisfies (from_usize (readiness sio)) (fut_interest fut)" and "\<not> shutdown_of (readiness sio)"
  shows "\<exists>sio'. readiness_poll pl cx fut sio = Inr (Poll_Pending, fut\<lparr>fut_state := Waiting\<rparr>, sio')
    \<and> elems (waiter_list sio') = (fut_node fut, cx, fut_interest fut) # elems (waiter_list sio)
    \<and> sio'\<lparr>waiter_list := waiter_list sio\<rparr> = sio"
proof -
  let ?l = "push_front pl (fut_node fut) cx (fut_interest fut) (waiter_list sio)"
  have l: "elems ?l = (fut_node fut, cx, fut_interest fut) # elems (waiter_list sio)"
    using assms(1,3) by (simp add: pin_list_spec_def)
  have p: "protected pl (fut_node fut) ?l = Some cx"
    using assms(1) l by (simp add: pin_list_spec_def)
  have "map (\<lambda>(m, w', i). (m, if m = fut_node fut then cx else w', i)) (elems (waiter_list sio)) = elems (waiter_list sio)"
    using assms(3) by (intro map_idI) (auto simp: map_of_eq_None_iff rev_image_eqI)
  then have "elems (set_protected pl (fut_node fut) cx ?l) = (fut_node fut, cx, fut_interest fut) # elems (waiter_list sio)"
    using assms(1) l by (simp add: pin_list_spec_def)
  moreover have "readiness_poll pl cx fut sio =
      Inr (Poll_Pending, fut\<lparr>fut_state := Waiting\<rparr>, sio\<lparr>waiter_list := set_protected pl (fut_node fut) cx ?l\<rparr>)"
    using assms(2,4,5) p
    by (simp add: readiness_poll_def poll_init_def poll_waiting_def word_simps Let_def satisfies_intersection)
  ultimately show ?thesis by simp
qed

text \<open>
  The readiness future that finds no readiness enters the waiter list with the caller's waker and is
  pending.
\<close>

theorem readiness_future_waits:
  assumes "pin_list_spec pl elems pos"
    and "fut_state fut = Init" and "map_of (elems (waiter_list sio)) (fut_node fut) = None"
    and "\<not> satisfies (from_usize (readiness sio)) (fut_interest fut)" and "\<not> shutdown_of (readiness sio)"
  shows "\<exists>sio'. readiness_poll pl cx fut sio = Inr (Poll_Pending, fut\<lparr>fut_state := Waiting\<rparr>, sio')
    \<and> elems (waiter_list sio') = (fut_node fut, cx, fut_interest fut) # elems (waiter_list sio)
    \<and> sio'\<lparr>waiter_list := waiter_list sio\<rparr> = sio"
  by (rule readiness_init_waits [OF assms])

text \<open>
  A waiting readiness future whose node has left the list completes with the readiness and the tick
  of now.
\<close>

theorem readiness_future_completes:
  assumes "pin_list_spec pl elems pos"
    and "fut_state fut = Waiting" and "map_of (elems (waiter_list sio)) (fut_node fut) = None"
  shows "readiness_poll pl cx fut sio = Inr
    (Poll_Ready \<lparr>ev_tick = tick_of (readiness sio),
       ev_ready = intersection (from_usize (readiness sio)) (fut_interest fut),
       is_shutdown = shutdown_of (readiness sio)\<rparr>, fut\<lparr>fut_state := Done\<rparr>, sio)"
  using assms by (simp add: pin_list_spec_def readiness_poll_def poll_waiting_def poll_done_def word_simps Let_def)

theorem pending_poll_is_woken_witness:
  "\<exists>sio2 sio3 woken. set_readiness (Tick_Set 1) (\<lambda>c. bitor c (from_mio
        \<lparr>token = 0, ev_readable = True, ev_writable = False, ev_read_closed = False, ev_write_closed = False\<rparr>))
      \<lparr>readiness = 2, waiter_list = ([] :: (nat, nat) waiter list), reader = Some 7, writer = None\<rparr> = Inr sio2
    \<and> wake list_pin_list (from_mio
        \<lparr>token = 0, ev_readable = True, ev_writable = False, ev_read_closed = False, ev_write_closed = False\<rparr>) sio2
      = Some (Inr (sio3, woken)) \<and> 7 \<in> set woken"
proof -
  let ?e = "\<lparr>token = 0, ev_readable = True, ev_writable = False, ev_read_closed = False, ev_write_closed = False\<rparr>"
  let ?s = "\<lparr>readiness = 2, waiter_list = ([] :: (nat, nat) waiter list), reader = None, writer = None\<rparr>"
  have "from_usize 2 = WRITABLE" "\<not> shutdown_of 2"
    by (simp_all add: from_usize_def ready_consts shutdown_of_def)
  then have pend: "poll_readiness 7 Read ?s = Inr (Poll_Pending, ?s\<lparr>reader := Some 7\<rparr>)"
    by (simp add: poll_readiness_def poll_readiness_pending_iff flag_simps store_waker_def)
  have ev: "flags (from_mio ?e) \<inter> flags (direction_mask Read) \<noteq> {}"
    by (auto simp: flag_simps)
  have "\<forall>x \<in> set (waiter_list ?s). satisfies (from_mio ?e) (waiter_interest x)" by simp
  from pending_poll_is_woken [OF list_pin_list_spec pend ev this, of 1 7] show ?thesis by fastforce
qed

theorem readiness_future_waits_witness:
  "\<exists>sio'. readiness_poll list_pin_list 7 \<lparr>fut_state = Init, fut_interest = Interest_READABLE, fut_node = 0\<rparr>
      \<lparr>readiness = 2, waiter_list = ([(1, 9, Interest_WRITABLE)] :: (nat, nat) waiter list), reader = None, writer = None\<rparr>
    = Inr (Poll_Pending, \<lparr>fut_state = Waiting, fut_interest = Interest_READABLE, fut_node = 0\<rparr>, sio')
    \<and> waiter_list sio' = [(0, 7, Interest_READABLE), (1, 9, Interest_WRITABLE)]"
proof -
  let ?f = "\<lparr>fut_state = Init, fut_interest = Interest_READABLE, fut_node = 0 :: nat\<rparr>"
  let ?s = "\<lparr>readiness = 2, waiter_list = ([(1, 9, Interest_WRITABLE)] :: (nat, nat) waiter list), reader = None, writer = None\<rparr>"
  have "from_usize 2 = WRITABLE" by (simp add: from_usize_def ready_consts)
  then have "\<not> satisfies (from_usize (readiness ?s)) (fut_interest ?f)"
    by (simp add: satisfies_iff flag_simps Interest_READABLE_def)
  moreover have "\<not> shutdown_of (readiness ?s)" by (simp add: shutdown_of_def)
  ultimately show ?thesis
    using readiness_future_waits [OF list_pin_list_spec, of ?f ?s 7] by auto
qed

theorem readiness_future_completes_witness:
  "readiness_poll list_pin_list 7 \<lparr>fut_state = Waiting, fut_interest = Interest_READABLE, fut_node = 0\<rparr>
      \<lparr>readiness = 1, waiter_list = ([] :: (nat, nat) waiter list), reader = None, writer = None\<rparr>
    = Inr (Poll_Ready \<lparr>ev_tick = 0, ev_ready = READABLE, is_shutdown = False\<rparr>,
           \<lparr>fut_state = Done, fut_interest = Interest_READABLE, fut_node = 0\<rparr>,
           \<lparr>readiness = 1, waiter_list = [], reader = None, writer = None\<rparr>)"
proof -
  have "intersection (from_usize 1) Interest_READABLE = READABLE"
    by (simp add: intersection_def from_usize_def from_interest_def Interest_READABLE_def ready_consts bitor_def Let_def)
  moreover have "tick_of 1 = 0" "\<not> shutdown_of 1"
    by (simp_all add: tick_of_def shutdown_of_def drop_bit_eq_div)
  ultimately show ?thesis
    using readiness_future_completes [OF list_pin_list_spec, of
      "\<lparr>fut_state = Waiting, fut_interest = Interest_READABLE, fut_node = 0 :: nat\<rparr>"
      "\<lparr>readiness = 1, waiter_list = ([] :: (nat, nat) waiter list), reader = None, writer = None\<rparr>" 7]
    by simp
qed

lemma word_step_no_shutdown: "word_step x y \<Longrightarrow> \<not> shutdown_of y"
proof (induction rule: word_step.induct)
  case (driver_event t e x y)
  have "valid (bitor (from_usize x) (from_mio e))" by (simp add: flag_simps)
  from packed_word_view(4) [OF generation_of_fits this] driver_event show ?case
    by (auto simp: word_simps)
next
  case (consumer_clear t m x y)
  have "valid (sub (from_usize x) m)" by (simp add: flag_simps)
  from packed_word_view(4) [OF generation_of_fits this] consumer_clear show ?case
    by (auto simp: word_simps split: if_splits)
next
  case (slot_reuse sio sio' x y)
  from clear_total [of sio] slot_reuse show ?case by auto
qed

interpretation word: transition_system "\<lambda>x. x = 0" word_step "\<lambda>x. \<not> shutdown_of x"
  by unfold_locales (simp_all add: shutdown_of_def word_step_no_shutdown [unfolded shutdown_of_def])

text \<open>
  The shutdown bit of a readiness word is clear in every state its writers can reach.
\<close>

theorem shutdown_never_set:
  assumes "reaches (\<lambda>x. x = 0) word_step (readiness sio)"
  shows "\<exists>ev. ready_event i sio = Inr ev \<and> \<not> is_shutdown ev"
proof -
  have "\<not> shutdown_of (readiness sio)" by (rule word.invar_reaches [OF assms])
  then show ?thesis by (simp add: ready_event_def word_simps)
qed

theorem shutdown_never_set_witness:
  "\<exists>ev. ready_event Interest_READABLE (default_scheduled_io ([] :: nat list) :: (nat list, nat) scheduled_io) = Inr ev
    \<and> \<not> is_shutdown ev"
  by (rule shutdown_never_set) (simp add: default_scheduled_io_def reaches.intros)

end
