(* ===== verification/Slot_Map.thy ===== *)
theory Slot_Map
  imports Prelude
begin

text \<open>
  \<^verbatim>\<open>src/src/sync_slot_map.rs\<close>: the intrusive multi-producer single-consumer queue of parked
  worker indices. Slot \<open>i\<close> holds the index that follows \<open>i\<close>, or a value past the last slot;
  slot \<open>cap\<close> is the stub. Indices are natural numbers (the slots are a boxed slice, so they stay
  far below the \<^verbatim>\<open>usize\<close> range). The first part is the queue as one thread at a time sees it
  and shows that it is a FIFO; \<^verbatim>\<open>Slot_Map_Conc\<close> interleaves the atomic accesses.
\<close>

record slot_map =
  tail :: nat
  head :: nat
  slots :: "nat list"

datatype 'a ready_slot = Slot_Ready 'a | Slot_Inconsistent | Slot_None

definition new_map :: "nat \<Rightarrow> slot_map" where
  "new_map cap = \<lparr>tail = cap, head = cap, slots = map (\<lambda>_. cap + 1) [0..<Suc cap]\<rparr>"

definition push :: "nat \<Rightarrow> slot_map \<Rightarrow> panic + slot_map" where
  "push index m =
     bindE (index_set (slots m) index (length (slots m))) (\<lambda>s1.
       let prev = head m; m1 = m\<lparr>slots := s1, head := index\<rparr> in
       bindE (index_set (slots m1) prev index) (\<lambda>s2. Inr (m1\<lparr>slots := s2\<rparr>)))"

text \<open>\<^verbatim>\<open>pop\<close> after the stub has been skipped: \<open>t\<close> and \<open>nxt\<close> are its local variables.\<close>

definition pop_from :: "nat \<Rightarrow> nat \<Rightarrow> nat \<Rightarrow> slot_map \<Rightarrow> panic + (nat ready_slot \<times> slot_map)" where
  "pop_from cap t nxt m =
     (if nxt \<le> cap then
        (if t \<noteq> cap then Inr (Slot_Ready t, m\<lparr>tail := nxt\<rparr>) else Inl Assertion_Failed)
      else if head m \<noteq> t then Inr (Slot_Inconsistent, m)
      else
        bindE (push cap m) (\<lambda>m1.
        bindE (index_get (slots m1) t) (\<lambda>nxt1.
          if nxt1 \<le> cap then Inr (Slot_Ready t, m1\<lparr>tail := nxt1\<rparr>)
          else Inr (Slot_Inconsistent, m1))))"

definition pop :: "slot_map \<Rightarrow> panic + (nat ready_slot \<times> slot_map)" where
  "pop m =
     (if slots m = [] then Inl Arithmetic_Overflow
      else let cap = length (slots m) - 1 in
        bindE (index_get (slots m) (tail m)) (\<lambda>nxt.
          if tail m = cap then
            if nxt > cap then Inr (Slot_None, m)
            else
              let m1 = m\<lparr>tail := nxt\<rparr> in
              bindE (index_get (slots m1) nxt) (\<lambda>nxt1. pop_from cap nxt nxt1 m1)
          else pop_from cap (tail m) nxt m))"

text \<open>Repeated operations on a queue, as a client makes them.\<close>

fun enq_all :: "(nat \<Rightarrow> 'q \<Rightarrow> panic + 'q) \<Rightarrow> nat list \<Rightarrow> 'q \<Rightarrow> panic + 'q" where
  "enq_all enq [] q = Inr q"
| "enq_all enq (i # is) q = bindE (enq i q) (enq_all enq is)"

fun deq_n :: "('q \<Rightarrow> panic + ('r \<times> 'q)) \<Rightarrow> nat \<Rightarrow> 'q \<Rightarrow> panic + ('r list \<times> 'q)" where
  "deq_n deq 0 q = Inr ([], q)"
| "deq_n deq (Suc n) q =
     bindE (deq q) (\<lambda>(r, q1). bindE (deq_n deq n q1) (\<lambda>(rs, q2). Inr (r # rs, q2)))"

subsection \<open>The queue in the slots\<close>

definition capacity :: "slot_map \<Rightarrow> nat" where
  "capacity m = length (slots m) - 1"

text \<open>The nodes reached from \<open>x\<close> in at most the given number of steps.\<close>

fun walk :: "nat \<Rightarrow> nat list \<Rightarrow> nat \<Rightarrow> nat list" where
  "walk 0 sl x = []"
| "walk (Suc k) sl x = (if x < length sl then x # walk k sl (sl ! x) else [])"

fun linked :: "nat list \<Rightarrow> nat list \<Rightarrow> bool" where
  "linked sl [] \<longleftrightarrow> False"
| "linked sl [x] \<longleftrightarrow> x < length sl \<and> length sl \<le> sl ! x"
| "linked sl (x # y # xs) \<longleftrightarrow> x < length sl \<and> sl ! x = y \<and> linked sl (y # xs)"

definition nodes :: "slot_map \<Rightarrow> nat list" where
  "nodes m = walk (length (slots m)) (slots m) (tail m)"

definition contents :: "slot_map \<Rightarrow> nat list" where
  "contents m = filter (\<lambda>x. x \<noteq> capacity m) (nodes m)"

definition invar :: "slot_map \<Rightarrow> bool" where
  "invar m \<longleftrightarrow> linked (slots m) (nodes m) \<and> distinct (nodes m) \<and> last (nodes m) = head m"

text \<open>
  What is left when an index may be pushed while it is queued: the tail and the head are slots, and the stub does not follow itself.
\<close>

definition slots_ok :: "nat \<Rightarrow> slot_map \<Rightarrow> bool" where
  "slots_ok n m \<longleftrightarrow> length (slots m) = Suc n \<and> tail m \<le> n \<and> head m \<le> n \<and> slots m ! n \<noteq> n"

text \<open>What the slots hold after an index was pushed twice.\<close>

definition self_linked_map :: "nat \<Rightarrow> nat \<Rightarrow> slot_map" where
  "self_linked_map cap i = \<lparr>tail = cap, head = i, slots = (slots (new_map cap))[cap := i, i := i]\<rparr>"

text \<open>The contract: a bounded first-in first-out queue of distinct indices.\<close>

locale index_fifo =
  fixes new :: "nat \<Rightarrow> 'q"
    and enq :: "nat \<Rightarrow> 'q \<Rightarrow> panic + 'q"
    and deq :: "'q \<Rightarrow> panic + (nat ready_slot \<times> 'q)"
    and items :: "'q \<Rightarrow> nat list"
    and bound :: "'q \<Rightarrow> nat"
    and ok :: "'q \<Rightarrow> bool"
  assumes new_ok: "ok (new n)" "items (new n) = []" "bound (new n) = n"
    and enq_ok: "ok q \<Longrightarrow> i < bound q \<Longrightarrow> i \<notin> set (items q) \<Longrightarrow>
      \<exists>q'. enq i q = Inr q' \<and> ok q' \<and> items q' = items q @ [i] \<and> bound q' = bound q"
    and deq_some: "ok q \<Longrightarrow> items q = i # is \<Longrightarrow>
      \<exists>q'. deq q = Inr (Slot_Ready i, q') \<and> ok q' \<and> items q' = is \<and> bound q' = bound q"
    and deq_none: "ok q \<Longrightarrow> items q = [] \<Longrightarrow> deq q = Inr (Slot_None, q)"
begin

lemma enq_all_ok:
  assumes "ok q" "set is \<subseteq> {..<bound q}" "distinct is" "set is \<inter> set (items q) = {}"
  shows "\<exists>q'. enq_all enq is q = Inr q' \<and> ok q' \<and> items q' = items q @ is \<and> bound q' = bound q"
  using assms
proof (induction "is" arbitrary: q)
  case Nil
  then show ?case by simp
next
  case (Cons i "is")
  then obtain q1 where "enq i q = Inr q1" "ok q1" "items q1 = items q @ [i]" "bound q1 = bound q"
    using enq_ok [of q i] by auto
  with Cons show ?case using Cons.IH [of q1] by auto
qed

lemma deq_n_ok:
  assumes "ok q" "items q = is"
  shows "\<exists>q'. deq_n deq (Suc (length is)) q = Inr (map Slot_Ready is @ [Slot_None], q') \<and> ok q' \<and> items q' = []"
  using assms
proof (induction "is" arbitrary: q)
  case Nil
  then show ?case by (simp add: deq_none)
next
  case (Cons i "is")
  then obtain q1 where "deq q = Inr (Slot_Ready i, q1)" "ok q1" "items q1 = is"
    using deq_some [of q i "is"] by auto
  with Cons.IH [of q1] show ?case by auto
qed

end

subsection \<open>Walking the links\<close>

lemma linked_nth:
  "linked sl ns \<longleftrightarrow> ns \<noteq> [] \<and> (\<forall>x \<in> set ns. x < length sl) \<and>
     (\<forall>k. Suc k < length ns \<longrightarrow> sl ! (ns ! k) = ns ! Suc k) \<and> length sl \<le> sl ! last ns"
proof (induction sl ns rule: linked.induct)
  case (3 sl x y xs)
  have "(\<forall>k. Suc k < length (x # y # xs) \<longrightarrow> sl ! ((x # y # xs) ! k) = (x # y # xs) ! Suc k) \<longleftrightarrow>
      sl ! x = y \<and> (\<forall>k. Suc k < length (y # xs) \<longrightarrow> sl ! ((y # xs) ! k) = (y # xs) ! Suc k)"
    by (auto simp: nth_Cons split: nat.splits)
  with 3 show ?case by auto
qed auto

lemma linked_bounds: "linked sl ns \<Longrightarrow> x \<in> set ns \<Longrightarrow> x < length sl"
  by (simp add: linked_nth)

lemma linked_length:
  assumes "linked sl ns" "distinct ns"
  shows "length ns \<le> length sl"
proof -
  have "set ns \<subseteq> {..<length sl}" using linked_bounds [OF assms(1)] by auto
  then have "card (set ns) \<le> length sl" using card_mono [of "{..<length sl}" "set ns"] by simp
  with assms(2) show ?thesis by (simp add: distinct_card)
qed

lemma walk_linked: "linked sl ns \<Longrightarrow> length ns \<le> k \<Longrightarrow> walk k sl (hd ns) = ns"
proof (induction sl ns arbitrary: k rule: linked.induct)
  case (2 sl x)
  then show ?case by (cases k; cases "k - 1") auto
next
  case (3 sl x y xs)
  then show ?case by (cases k) auto
qed simp

lemma nodesI:
  assumes "linked (slots m) ns" "distinct ns" "last ns = head m" "hd ns = tail m"
  shows "nodes m = ns" "invar m"
proof -
  show n: "nodes m = ns"
    using walk_linked [OF assms(1) linked_length [OF assms(1,2)]] assms(4) by (simp add: nodes_def)
  show "invar m" using assms n by (simp add: invar_def)
qed

lemma invarD:
  assumes "invar m"
  shows "linked (slots m) (nodes m)" "distinct (nodes m)" "last (nodes m) = head m"
    "hd (nodes m) = tail m" "nodes m \<noteq> []" "slots m \<noteq> []"
proof -
  show l: "linked (slots m) (nodes m)" and "distinct (nodes m)" "last (nodes m) = head m"
    using assms by (simp_all add: invar_def)
  show ne: "nodes m \<noteq> []" using l by auto
  then show "hd (nodes m) = tail m"
    by (cases "length (slots m)") (auto simp: nodes_def split: if_splits)
  show "slots m \<noteq> []" using ne by (auto simp: nodes_def)
qed

lemma linked_snoc:
  assumes "linked sl ns" "distinct ns" "i < length sl" "i \<notin> set ns"
  shows "linked ((sl[i := length sl])[last ns := i]) (ns @ [i])"
proof -
  have ne: "ns \<noteq> []" using assms(1) by auto
  have "((sl[i := length sl])[last ns := i]) ! ((ns @ [i]) ! k) = (ns @ [i]) ! Suc k"
    if "Suc k < length (ns @ [i])" for k
  proof (cases "Suc k < length ns")
    case True
    then have "ns ! k \<noteq> last ns" using assms(2) ne by (simp add: last_conv_nth nth_eq_iff_index_eq)
    moreover have "ns ! k \<noteq> i" using True assms(4) by (metis Suc_lessD nth_mem)
    ultimately show ?thesis using True assms(1) by (simp add: nth_append linked_nth)
  next
    case False
    with that have "k = length ns - 1" by simp
    then show ?thesis using ne linked_bounds [OF assms(1), of "last ns"] by (simp add: nth_append last_conv_nth)
  qed
  moreover have "last ns \<noteq> i" using ne assms(4) by (metis last_in_set)
  ultimately show ?thesis using assms ne by (auto simp: linked_nth)
qed

lemma push_ok:
  assumes "invar m" "i < length (slots m)" "i \<notin> set (nodes m)"
  shows "\<exists>m'. push i m = Inr m' \<and> invar m' \<and> nodes m' = nodes m @ [i]
    \<and> length (slots m') = length (slots m) \<and> tail m' = tail m
    \<and> slots m' = (slots m)[i := length (slots m), head m := i]"
proof -
  note D = invarD [OF assms(1)]
  let ?sl = "(slots m)[i := length (slots m), head m := i]"
  let ?m = "m\<lparr>slots := ?sl, head := i\<rparr>"
  have h: "head m < length (slots m)" using D(1,3,5) linked_bounds last_in_set by metis
  have push: "push i m = Inr ?m" using assms(2) h by (simp add: push_def Let_def)
  have "linked ?sl (nodes m @ [i])" using linked_snoc [OF D(1,2) assms(2,3)] D(3) by simp
  then have "nodes ?m = nodes m @ [i] \<and> invar ?m"
    using nodesI [of ?m "nodes m @ [i]"] D assms(3) by simp
  with push show ?thesis by simp
qed

lemma linked_tl: "linked sl (x # y # xs) \<Longrightarrow> linked sl (y # xs)" by simp

lemma invar_tail_next:
  assumes "invar m" "nodes m = x # y # ns"
  shows "slots m ! x = y" "x < length (slots m)" "y < length (slots m)" "tail m = x"
    "invar (m\<lparr>tail := y\<rparr>)" "nodes (m\<lparr>tail := y\<rparr>) = y # ns"
proof -
  note D = invarD [OF assms(1), unfolded assms(2)]
  show "slots m ! x = y" "x < length (slots m)" "tail m = x" using D by auto
  show "y < length (slots m)" using linked_bounds [OF D(1)] by simp
  show "invar (m\<lparr>tail := y\<rparr>)" "nodes (m\<lparr>tail := y\<rparr>) = y # ns"
    using nodesI [of "m\<lparr>tail := y\<rparr>" "y # ns"] D by auto
qed

lemma invar_single:
  assumes "invar m" "nodes m = [x]"
  shows "tail m = x" "head m = x" "x < length (slots m)" "length (slots m) \<le> slots m ! x"
  using invarD [OF assms(1), unfolded assms(2)] by auto

text \<open>\<^verbatim>\<open>pop\<close> at a node that is not the stub.\<close>

lemma pop_from_ok:
  assumes inv: "invar m" and ns: "nodes m = i # ns" and i: "i \<noteq> capacity m"
  shows "\<exists>m'. pop_from (capacity m) i (slots m ! i) m = Inr (Slot_Ready i, m') \<and> invar m'
    \<and> filter (\<lambda>x. x \<noteq> capacity m) (nodes m') = filter (\<lambda>x. x \<noteq> capacity m) ns
    \<and> length (slots m') = length (slots m)"
proof (cases ns)
  case (Cons y ys)
  note T = invar_tail_next [OF inv ns [unfolded Cons]]
  then have "y \<le> capacity m" by (simp add: capacity_def)
  with T i show ?thesis by (simp add: pop_from_def Cons)
next
  case Nil
  note S = invar_single [OF inv ns [unfolded Nil]]
  have cap: "capacity m < length (slots m)" using S(3) by (simp add: capacity_def)
  obtain m1 where m1: "push (capacity m) m = Inr m1" "invar m1" "nodes m1 = [i, capacity m]"
      "length (slots m1) = length (slots m)"
    using push_ok [OF inv cap] ns i Nil by auto
  note T = invar_tail_next [OF m1(2,3)]
  have "\<not> slots m ! i \<le> capacity m" using S by (simp add: capacity_def)
  then show ?thesis using S(2) m1 T Nil by (simp add: pop_from_def)
qed

lemma pop_some:
  assumes inv: "invar m" and items: "contents m = i # is"
  shows "\<exists>m'. pop m = Inr (Slot_Ready i, m') \<and> invar m' \<and> contents m' = is \<and> capacity m' = capacity m"
proof -
  note D = invarD [OF inv]
  have len: "length (slots m) = Suc (capacity m)" using D(6) by (cases "slots m") (auto simp: capacity_def)
  have fin: ?thesis
    if m0: "invar m0" "nodes m0 = i # ns" "slots m0 = slots m" "filter (\<lambda>x. x \<noteq> capacity m) ns = is"
      and pop: "pop m = pop_from (capacity m) i (slots m ! i) m0" and i: "i \<noteq> capacity m" for m0 ns
  proof -
    have c: "capacity m0 = capacity m" using m0(3) by (simp add: capacity_def)
    from pop_from_ok [OF m0(1,2)] i obtain m' where "pop m = Inr (Slot_Ready i, m')" "invar m'"
      "filter (\<lambda>x. x \<noteq> capacity m) (nodes m') = is" "length (slots m') = length (slots m)"
      using m0(3,4) pop by (auto simp: c)
    then show ?thesis by (auto simp: contents_def capacity_def)
  qed
  obtain t ns where ns: "nodes m = t # ns" using D(5) by (cases "nodes m") auto
  show ?thesis
  proof (cases "t = capacity m")
    case False
    then have "t = i" "filter (\<lambda>x. x \<noteq> capacity m) ns = is" using items ns by (simp_all add: contents_def)
    moreover have "pop m = pop_from (capacity m) i (slots m ! i) m" if "t = i"
      using that False D(4) ns len linked_bounds [OF D(1), of i]
      by (simp add: pop_def capacity_def [symmetric] D(6))
    ultimately show ?thesis using fin [OF inv, of ns] ns False by simp
  next
    case True
    then obtain y ys where y: "ns = y # ys" using items ns by (cases ns) (auto simp: contents_def)
    note T = invar_tail_next [OF inv ns [unfolded y]]
    have "y \<noteq> capacity m" using D(2) ns y True by auto
    then have "y = i" "filter (\<lambda>x. x \<noteq> capacity m) ys = is"
      using items ns y True by (simp_all add: contents_def)
    moreover have "pop m = pop_from (capacity m) y (slots m ! y) (m\<lparr>tail := y\<rparr>)"
      using T True len D(6) by (simp add: pop_def Let_def capacity_def [symmetric])
    ultimately show ?thesis using fin [OF T(5), of ys] T(6) \<open>y \<noteq> capacity m\<close> by simp
  qed
qed

lemma pop_empty:
  assumes inv: "invar m" and items: "contents m = []"
  shows "pop m = Inr (Slot_None, m)"
proof -
  note D = invarD [OF inv]
  obtain t ns where ns: "nodes m = t # ns" using D(5) by (cases "nodes m") auto
  have t: "t = capacity m" and e: "filter (\<lambda>x. x \<noteq> capacity m) ns = []"
    using items ns by (auto simp: contents_def split: if_splits)
  have "ns = []" using e D(2) ns t by (cases ns) (auto split: if_splits)
  with ns t have n: "nodes m = [capacity m]" by simp
  note S = invar_single [OF inv n]
  have len: "length (slots m) = Suc (capacity m)" using D(6) by (cases "slots m") (auto simp: capacity_def)
  show ?thesis using S D(6) len by (simp add: pop_def Let_def capacity_def [symmetric])
qed

lemma new_map_ok: "invar (new_map n)" "contents (new_map n) = []" "capacity (new_map n) = n"
proof -
  have l: "linked (slots (new_map n)) [n]" by (simp add: new_map_def nth_append)
  note N = nodesI [of "new_map n" "[n]", OF l]
  show c: "capacity (new_map n) = n" by (simp add: capacity_def new_map_def)
  show "invar (new_map n)" by (rule N) (simp_all add: new_map_def)
  have "nodes (new_map n) = [n]" by (rule N) (simp_all add: new_map_def)
  then show "contents (new_map n) = []" by (simp add: contents_def c)
qed

lemma push_items:
  assumes "invar m" "i < capacity m" "i \<notin> set (contents m)"
  shows "\<exists>m'. push i m = Inr m' \<and> invar m' \<and> contents m' = contents m @ [i] \<and> capacity m' = capacity m"
proof -
  have "i < length (slots m)" "i \<notin> set (nodes m)" using assms by (auto simp: capacity_def contents_def)
  with push_ok [OF assms(1), of i] obtain m' where m': "push i m = Inr m'" "invar m'" "nodes m' = nodes m @ [i]"
      "length (slots m') = length (slots m)" by blast
  then have "capacity m' = capacity m" by (simp add: capacity_def)
  with m' assms(2) show ?thesis by (simp add: contents_def)
qed

interpretation sm: index_fifo new_map push pop contents capacity invar
  by unfold_locales (simp_all add: new_map_ok push_items pop_some pop_empty)

subsection \<open>Properties\<close>

text \<open>
  Pushing distinct free indices and popping until None returns what was queued followed by what was
  pushed, in order, and leaves the queue empty and well-formed.
\<close>

theorem push_then_pop_in_order:
  assumes "invar m" "distinct is" "set is \<subseteq> {..<capacity m}" "set is \<inter> set (contents m) = {}"
  shows "\<exists>m1 m2. enq_all push is m = Inr m1 \<and>
    deq_n pop (Suc (length (contents m @ is))) m1 = Inr (map Slot_Ready (contents m @ is) @ [Slot_None], m2) \<and>
    invar m2 \<and> contents m2 = []"
proof -
  obtain m1 where "enq_all push is m = Inr m1" "invar m1" "contents m1 = contents m @ is"
    using sm.enq_all_ok [OF assms(1,3,2,4)] by auto
  with sm.deq_n_ok [of m1 "contents m @ is"] show ?thesis by auto
qed

theorem push_then_pop_in_order_witness:
  "\<exists>m1 m2. enq_all push [2, 0, 1] (new_map 3) = Inr m1 \<and>
    deq_n pop 4 m1 = Inr ([Slot_Ready 2, Slot_Ready 0, Slot_Ready 1, Slot_None], m2) \<and> invar m2 \<and> contents m2 = []"
  using push_then_pop_in_order [of "new_map 3" "[2, 0, 1]"] by (simp add: new_map_ok numeral_eq_Suc)

text \<open>
  pop implements dequeue of the first-in first-out queue the slots represent: None exactly when it
  is empty, else its first index, without a panic.
\<close>

theorem pop_refines_fifo:
  assumes "invar m"
  shows "case contents m of
      [] \<Rightarrow> pop m = Inr (Slot_None, m)
    | i # is \<Rightarrow> \<exists>m'. pop m = Inr (Slot_Ready i, m') \<and> invar m' \<and> contents m' = is \<and> capacity m' = capacity m"
  using sm.deq_some [OF assms] sm.deq_none [OF assms] by (simp split: list.split)

theorem pop_refines_fifo_witness:
  "pop (new_map 2) = Inr (Slot_None, new_map 2)"
  using pop_refines_fifo [of "new_map 2"] by (simp add: new_map_ok)

text \<open>
  push implements enqueue of the first-in first-out queue the slots represent, for an index that is
  not in it.
\<close>

theorem push_refines_fifo:
  assumes "invar m" "i < capacity m" "i \<notin> set (contents m)"
  shows "\<exists>m'. push i m = Inr m' \<and> invar m' \<and> contents m' = contents m @ [i] \<and> capacity m' = capacity m"
  using assms by (rule sm.enq_ok)

theorem push_refines_fifo_witness:
  "\<exists>m'. push 1 (new_map 2) = Inr m' \<and> invar m' \<and> contents m' = [1] \<and> capacity m' = 2"
  using push_refines_fifo [of "new_map 2" 1] by (simp add: new_map_ok)

lemma self_loop_pop:
  assumes "i < capacity m" "tail m = i" "slots m ! i = i"
  shows "pop m = Inr (Slot_Ready i, m)"
  using assms by (cases "slots m = []") (auto simp: pop_def pop_from_def Let_def capacity_def)

lemma deq_n_const:
  assumes "deq q = Inr (r, q)"
  shows "deq_n deq n q = Inr (replicate n r, q)"
  using assms by (induction n) simp_all

text \<open>Even then \<^verbatim>\<open>push\<close> and \<^verbatim>\<open>pop\<close> return, and a popped index is that of a slot.\<close>

lemma slots_ok_new: "slots_ok n (new_map n)"
  by (simp add: slots_ok_def new_map_def del: upt_Suc)

lemma slots_ok_push:
  assumes "slots_ok n m" "i < n"
  shows "\<exists>m1. push i m = Inr m1 \<and> slots_ok n m1"
  using assms by (auto simp: slots_ok_def push_def Let_def nth_list_update)

lemma slots_ok_pop_from:
  assumes "slots_ok n m" "t < n"
  shows "\<exists>slot m1. pop_from n t nxt m = Inr (slot, m1) \<and> slots_ok n m1 \<and> (slot = Slot_Ready t \<or> slot = Slot_Inconsistent)"
  using assms by (auto simp: slots_ok_def pop_from_def push_def Let_def nth_list_update)

lemma slots_ok_pop:
  assumes "slots_ok n m"
  shows "\<exists>slot m1. pop m = Inr (slot, m1) \<and> slots_ok n m1 \<and> (\<forall>i. slot = Slot_Ready i \<longrightarrow> i < n)"
proof -
  have m: "slots m \<noteq> []" "length (slots m) - 1 = n" "tail m < length (slots m)" "slots m ! n \<noteq> n"
    using assms by (auto simp: slots_ok_def)
  consider "tail m = n" "slots m ! n > n" | "tail m = n" "slots m ! n < n" | "tail m < n"
    using assms m(4) unfolding slots_ok_def by linarith
  then show ?thesis
  proof cases
    case 1
    then show ?thesis using assms m by (simp add: pop_def Let_def)
  next
    case 2
    then have "slots_ok n (m\<lparr>tail := slots m ! n\<rparr>)" using assms by (simp add: slots_ok_def)
    from slots_ok_pop_from [OF this 2(2)] 2 show ?thesis using m by (fastforce simp: pop_def Let_def)
  next
    case 3
    with slots_ok_pop_from [OF assms 3] show ?thesis using m by (fastforce simp: pop_def Let_def)
  qed
qed

lemma self_linked:
  assumes "i < cap"
  shows "\<exists>m1. push i (new_map cap) = Inr m1 \<and> push i m1 = Inr (self_linked_map cap i)"
    "pop (self_linked_map cap i) = Inr (Slot_Ready i, (self_linked_map cap i)\<lparr>tail := i\<rparr>)"
    "pop ((self_linked_map cap i)\<lparr>tail := i\<rparr>) = Inr (Slot_Ready i, (self_linked_map cap i)\<lparr>tail := i\<rparr>)"
proof -
  have len: "length (slots (new_map cap)) = Suc cap" by (simp add: new_map_def)
  show "\<exists>m1. push i (new_map cap) = Inr m1 \<and> push i m1 = Inr (self_linked_map cap i)"
    using assms len by (auto simp: push_def Let_def self_linked_map_def new_map_def list_update_swap)
  show "pop (self_linked_map cap i) = Inr (Slot_Ready i, (self_linked_map cap i)\<lparr>tail := i\<rparr>)"
    using assms len by (auto simp: pop_def pop_from_def Let_def self_linked_map_def)
  show "pop ((self_linked_map cap i)\<lparr>tail := i\<rparr>) = Inr (Slot_Ready i, (self_linked_map cap i)\<lparr>tail := i\<rparr>)"
    by (rule self_loop_pop) (use assms len in \<open>simp_all add: capacity_def self_linked_map_def\<close>)
qed

text \<open>
  Pushing an index that is queued already links it to itself: every later pop returns it.
\<close>

theorem double_push_never_drains:
  assumes "i < cap"
  shows "\<exists>m. enq_all push [i, i] (new_map cap) = Inr m \<and>
    (\<forall>n. \<exists>m'. deq_n pop n m = Inr (replicate n (Slot_Ready i), m'))"
proof -
  let ?m = "self_linked_map cap i"
  have push: "enq_all push [i, i] (new_map cap) = Inr ?m" using self_linked(1) [OF assms] by auto
  have "\<exists>m'. deq_n pop n ?m = Inr (replicate n (Slot_Ready i), m')" for n
    using deq_n_const [where deq = pop, OF self_linked(3) [OF assms]] self_linked(2) [OF assms] by (cases n) auto
  with push show ?thesis by blast
qed

theorem double_push_never_drains_witness:
  "\<exists>m. enq_all push [0, 0] (new_map 1) = Inr m \<and>
    (\<forall>n. \<exists>m'. deq_n pop n m = Inr (replicate n (Slot_Ready 0), m'))"
  using double_push_never_drains [of 0 1] by simp

end
