(* ===== verification/Slot_Map_Conc.thy ===== *)
theory Slot_Map_Conc
  imports Slot_Map
begin

text \<open>
  \<^verbatim>\<open>src/src/sync_slot_map.rs\<close> under interleaving: each atomic load, store and swap of
  \<^verbatim>\<open>push\<close> and \<^verbatim>\<open>pop\<close> is one step. Producer \<open>i\<close> is the worker that pushes its own
  index; the consumer is whoever holds the lock of \<^verbatim>\<open>SyncSlotMapLock\<close>, so there is at most
  one. A worker pushes an index only while it is not queued, which \<^verbatim>\<open>push\<close> does not check. The atomics are
  sequentially consistent here. \<open>results\<close>, \<open>order\<close>, \<open>pushed\<close> and \<open>outs\<close> are history: what every call of
  \<^verbatim>\<open>pop\<close> has returned, the queued nodes from tail to head, the indices in the order of their swaps, and
  the indices returned.
\<close>

datatype prod_pc =
    P_Idle
  | P_Stored            \<comment> \<open>own slot reset, before the swap of the head\<close>
  | P_Swapped nat       \<comment> \<open>head swapped, the link from the previous head not stored yet\<close>

datatype cons_pc =
    C_Idle
  | C_Skip nat          \<comment> \<open>the stub was skipped, the slot of the new tail not loaded yet\<close>
  | C_Check nat         \<comment> \<open>the tail has no successor, the head not loaded yet\<close>
  | C_Push1 nat         \<comment> \<open>the tail is the head: about to push the stub\<close>
  | C_Push2 nat
  | C_Push3 nat nat
  | C_Last nat          \<comment> \<open>the stub is pushed, the slot of the tail not loaded again yet\<close>

record conc =
  ctail :: nat
  chead :: nat
  cslots :: "nat list"
  prod :: "nat \<Rightarrow> prod_pc"
  cons :: cons_pc
  results :: "nat ready_slot list"
  order :: "nat list"
  pushed :: "nat list"
  outs :: "nat list"

definition conc_init :: "nat \<Rightarrow> conc" where
  "conc_init n =
     \<lparr>ctail = tail (new_map n), chead = head (new_map n), cslots = slots (new_map n),
      prod = (\<lambda>_. P_Idle), cons = C_Idle, results = [], order = [n], pushed = [], outs = []\<rparr>"

text \<open>What \<^verbatim>\<open>pop\<close> does when it finds a successor \<open>nxt\<close> of its tail \<open>t\<close>.\<close>

definition take_tail :: "nat \<Rightarrow> nat \<Rightarrow> conc \<Rightarrow> conc" where
  "take_tail t nxt s =
     s\<lparr>ctail := nxt, cons := C_Idle, results := results s @ [Slot_Ready t], order := tl (order s), outs := outs s @ [t]\<rparr>"

inductive conc_step :: "nat \<Rightarrow> conc \<Rightarrow> conc \<Rightarrow> bool" for n :: nat where
  push_store: "i < n \<Longrightarrow> prod s i = P_Idle \<Longrightarrow> i \<notin> set (order s) \<Longrightarrow>
    conc_step n s (s\<lparr>cslots := (cslots s)[i := length (cslots s)], prod := (prod s)(i := P_Stored)\<rparr>)"
| push_swap: "prod s i = P_Stored \<Longrightarrow>
    conc_step n s (s\<lparr>chead := i, prod := (prod s)(i := P_Swapped (chead s)),
      order := order s @ [i], pushed := pushed s @ [i]\<rparr>)"
| push_link: "prod s i = P_Swapped prev \<Longrightarrow>
    conc_step n s (s\<lparr>cslots := (cslots s)[prev := i], prod := (prod s)(i := P_Idle)\<rparr>)"
| pop_none: "cons s = C_Idle \<Longrightarrow> ctail s = n \<Longrightarrow> cslots s ! n > n \<Longrightarrow>
    conc_step n s (s\<lparr>results := results s @ [Slot_None]\<rparr>)"
| pop_skip: "cons s = C_Idle \<Longrightarrow> ctail s = n \<Longrightarrow> cslots s ! n = nxt \<Longrightarrow> nxt \<le> n \<Longrightarrow>
    conc_step n s (s\<lparr>ctail := nxt, cons := C_Skip nxt, order := tl (order s)\<rparr>)"
| pop_first: "cons s = C_Idle \<Longrightarrow> ctail s = t \<Longrightarrow> t \<noteq> n \<Longrightarrow> cslots s ! t = nxt \<Longrightarrow> nxt \<le> n \<Longrightarrow>
    conc_step n s (take_tail t nxt s)"
| pop_end: "cons s = C_Idle \<Longrightarrow> ctail s = t \<Longrightarrow> t \<noteq> n \<Longrightarrow> cslots s ! t > n \<Longrightarrow>
    conc_step n s (s\<lparr>cons := C_Check t\<rparr>)"
| skip_first: "cons s = C_Skip t \<Longrightarrow> cslots s ! t = nxt \<Longrightarrow> nxt \<le> n \<Longrightarrow>
    conc_step n s (take_tail t nxt s)"
| skip_end: "cons s = C_Skip t \<Longrightarrow> cslots s ! t > n \<Longrightarrow> conc_step n s (s\<lparr>cons := C_Check t\<rparr>)"
| check_other: "cons s = C_Check t \<Longrightarrow> chead s \<noteq> t \<Longrightarrow>
    conc_step n s (s\<lparr>cons := C_Idle, results := results s @ [Slot_Inconsistent]\<rparr>)"
| check_same: "cons s = C_Check t \<Longrightarrow> chead s = t \<Longrightarrow> conc_step n s (s\<lparr>cons := C_Push1 t\<rparr>)"
| stub_store: "cons s = C_Push1 t \<Longrightarrow>
    conc_step n s (s\<lparr>cslots := (cslots s)[n := length (cslots s)], cons := C_Push2 t\<rparr>)"
| stub_swap: "cons s = C_Push2 t \<Longrightarrow>
    conc_step n s (s\<lparr>chead := n, cons := C_Push3 t (chead s), order := order s @ [n]\<rparr>)"
| stub_link: "cons s = C_Push3 t prev \<Longrightarrow>
    conc_step n s (s\<lparr>cslots := (cslots s)[prev := n], cons := C_Last t\<rparr>)"
| last_first: "cons s = C_Last t \<Longrightarrow> cslots s ! t = nxt \<Longrightarrow> nxt \<le> n \<Longrightarrow>
    conc_step n s (take_tail t nxt s)"
| last_end: "cons s = C_Last t \<Longrightarrow> cslots s ! t > n \<Longrightarrow>
    conc_step n s (s\<lparr>cons := C_Idle, results := results s @ [Slot_Inconsistent]\<rparr>)"

abbreviation conc_reaches :: "nat \<Rightarrow> conc \<Rightarrow> bool" where
  "conc_reaches n \<equiv> reaches (\<lambda>s. s = conc_init n) (conc_step n)"

subsection \<open>Neighbours in the queue\<close>

fun adj :: "nat list \<Rightarrow> nat \<Rightarrow> nat \<Rightarrow> bool" where
  "adj (x # y # zs) a b \<longleftrightarrow> (x = a \<and> y = b) \<or> adj (y # zs) a b"
| "adj _ a b \<longleftrightarrow> False"

text \<open>Who still has to store the link from \<open>a\<close> to \<open>b\<close>.\<close>

definition pending :: "nat \<Rightarrow> conc \<Rightarrow> nat \<Rightarrow> nat \<Rightarrow> bool" where
  "pending n s a b \<longleftrightarrow> (b < n \<and> prod s b = P_Swapped a) \<or> (b = n \<and> (\<exists>t. cons s = C_Push3 t a))"

definition queue_ok :: "nat \<Rightarrow> conc \<Rightarrow> bool" where
  "queue_ok n s \<longleftrightarrow> length (cslots s) = Suc n \<and> order s \<noteq> [] \<and> hd (order s) = ctail s
     \<and> last (order s) = chead s \<and> distinct (order s) \<and> set (order s) \<subseteq> {..n}"

definition links_ok :: "nat \<Rightarrow> conc \<Rightarrow> bool" where
  "links_ok n s \<longleftrightarrow> n < cslots s ! chead s \<and>
     (\<forall>a b. pending n s a b \<longrightarrow> adj (order s) a b \<and> n < cslots s ! a) \<and>
     (\<forall>a b. adj (order s) a b \<longrightarrow> \<not> pending n s a b \<longrightarrow> cslots s ! a = b)"

definition prods_ok :: "nat \<Rightarrow> conc \<Rightarrow> bool" where
  "prods_ok n s \<longleftrightarrow> (\<forall>i. prod s i \<noteq> P_Idle \<longrightarrow> i < n) \<and>
     (\<forall>i. prod s i = P_Stored \<longrightarrow> i \<notin> set (order s) \<and> n < cslots s ! i)"

definition cons_ok :: "nat \<Rightarrow> conc \<Rightarrow> bool" where
  "cons_ok n s \<longleftrightarrow> (case cons s of
       C_Idle \<Rightarrow> True
     | C_Skip t \<Rightarrow> ctail s = t \<and> n \<notin> set (order s)
     | C_Check t \<Rightarrow> ctail s = t \<and> t \<noteq> n
     | C_Push1 t \<Rightarrow> ctail s = t \<and> n \<notin> set (order s)
     | C_Push2 t \<Rightarrow> ctail s = t \<and> n \<notin> set (order s) \<and> n < cslots s ! n
     | C_Push3 t _ \<Rightarrow> ctail s = t \<and> t \<noteq> n
     | C_Last t \<Rightarrow> ctail s = t \<and> t \<noteq> n)"

definition history_ok :: "nat \<Rightarrow> conc \<Rightarrow> bool" where
  "history_ok n s \<longleftrightarrow> outs s @ filter (\<lambda>x. x \<noteq> n) (order s) = pushed s"

definition conc_inv :: "nat \<Rightarrow> conc \<Rightarrow> bool" where
  "conc_inv n s \<longleftrightarrow> queue_ok n s \<and> links_ok n s \<and> prods_ok n s \<and> cons_ok n s \<and> history_ok n s"

definition no_stub_push :: "conc \<Rightarrow> bool" where
  "no_stub_push s \<longleftrightarrow> (\<forall>t a. cons s \<noteq> C_Push3 t a)"

text \<open>The queue a thread would see that runs alone from here on.\<close>

definition conc_map :: "conc \<Rightarrow> slot_map" where
  "conc_map s = \<lparr>tail = ctail s, head = chead s, slots = cslots s\<rparr>"

definition idle :: "conc \<Rightarrow> bool" where
  "idle s \<longleftrightarrow> prod s = (\<lambda>_. P_Idle) \<and> cons s = C_Idle"

text \<open>A state of a run: worker 0 has pushed itself, worker 1 stands between its swap and its link.\<close>

definition torn_push :: conc where
  "torn_push =
     \<lparr>ctail = 2, chead = 1, cslots = [3, 3, 0],
     prod = (\<lambda>_. P_Idle)(1 := P_Swapped 0), cons = C_Idle, results = [], order = [2, 0, 1], pushed = [0, 1], outs = []\<rparr>"

lemma adj_mem: "adj xs a b \<Longrightarrow> a \<in> set xs \<and> b \<in> set xs"
  by (induction xs a b rule: adj.induct) auto

lemma adj_snoc: "adj (xs @ [z]) a b \<longleftrightarrow> adj xs a b \<or> (xs \<noteq> [] \<and> a = last xs \<and> b = z)"
proof (induction xs)
  case (Cons x xs)
  then show ?case by (cases xs) auto
qed simp

lemma adj_Cons: "adj (x # xs) a b \<longleftrightarrow> (xs \<noteq> [] \<and> x = a \<and> hd xs = b) \<or> adj xs a b"
  by (cases xs) auto

lemma adj_tl: "distinct xs \<Longrightarrow> adj (tl xs) a b \<longleftrightarrow> adj xs a b \<and> a \<noteq> hd xs"
  using adj_mem [of "tl xs" a b] by (cases xs) (auto simp: adj_Cons)

lemma adj_functional: "distinct xs \<Longrightarrow> adj xs a b \<Longrightarrow> adj xs a c \<Longrightarrow> b = c"
  by (induction xs) (auto simp: adj_Cons dest: adj_mem)

lemma adj_injective: "distinct xs \<Longrightarrow> adj xs a c \<Longrightarrow> adj xs b c \<Longrightarrow> a = b"
proof (induction xs)
  case (Cons x xs)
  have "\<not> adj xs y (hd xs)" for y using Cons.prems(1) by (cases xs) (auto simp: adj_Cons dest: adj_mem)
  with Cons show ?case by (auto simp: adj_Cons)
qed simp

lemma adj_not_last: "distinct xs \<Longrightarrow> adj xs a b \<Longrightarrow> a \<noteq> last xs"
  by (induction xs) (auto simp: adj_Cons dest: adj_mem)

lemma adj_from: "a \<in> set xs \<Longrightarrow> a \<noteq> last xs \<Longrightarrow> \<exists>b. adj xs a b"
proof (induction xs)
  case (Cons x xs)
  then show ?case by (cases "a = x"; cases "xs = []") (auto simp: adj_Cons [abs_def] split: if_splits)
qed simp

lemmas conc_parts = conc_inv_def queue_ok_def prods_ok_def history_ok_def

lemma conc_invD:
  assumes "conc_inv n s"
  shows "length (cslots s) = Suc n" "order s \<noteq> []" "hd (order s) = ctail s" "last (order s) = chead s"
    "distinct (order s)" "set (order s) \<subseteq> {..n}" "n < cslots s ! chead s"
    "pending n s a b \<Longrightarrow> n < cslots s ! a"
    "adj (order s) a b \<Longrightarrow> \<not> pending n s a b \<Longrightarrow> cslots s ! a = b"
    "pending n s a b \<Longrightarrow> adj (order s) a b"
    "prod s i \<noteq> P_Idle \<Longrightarrow> i < n" "prod s i = P_Stored \<Longrightarrow> i \<notin> set (order s)"
    "prod s i = P_Stored \<Longrightarrow> n < cslots s ! i"
    "cons_ok n s" "outs s @ filter (\<lambda>x. x \<noteq> n) (order s) = pushed s"
    "chead s \<in> set (order s)" "ctail s \<in> set (order s)"
proof -
  show ne: "order s \<noteq> []" and hd: "hd (order s) = ctail s" and last: "last (order s) = chead s"
    using assms by (simp_all add: conc_parts)
  show "chead s \<in> set (order s)" "ctail s \<in> set (order s)"
    using last_in_set [OF ne] hd_in_set [OF ne] hd last by simp_all
qed (use assms in \<open>simp_all add: conc_parts links_ok_def\<close>)

lemma conc_invI:
  assumes "queue_ok n s" "links_ok n s" "prods_ok n s" "cons_ok n s" "history_ok n s"
  shows "conc_inv n s"
  using assms by (simp add: conc_inv_def)

lemma links_okI:
  assumes "n < cslots s ! chead s"
    and "\<And>a b. pending n s a b \<Longrightarrow> n < cslots s ! a"
    and "\<And>a b. adj (order s) a b \<Longrightarrow> \<not> pending n s a b \<Longrightarrow> cslots s ! a = b"
    and "\<And>a b. pending n s a b \<Longrightarrow> adj (order s) a b"
  shows "links_ok n s"
  using assms by (simp add: links_ok_def)

lemma pending_no_stub: "no_stub_push s \<Longrightarrow> pending n s a b \<longleftrightarrow> b < n \<and> prod s b = P_Swapped a"
  by (auto simp: pending_def no_stub_push_def)

text \<open>Moving the tail to its successor keeps the queue.\<close>

lemma advance:
  assumes inv: "conc_inv n s" and nxt: "cslots s ! ctail s = nxt" "nxt \<le> n"
    and stub: "no_stub_push s" "no_stub_push s'"
    and s': "ctail s' = nxt" "chead s' = chead s" "cslots s' = cslots s" "prod s' = prod s" "order s' = tl (order s)"
  shows "queue_ok n s'" "links_ok n s'" "prods_ok n s'" "\<exists>rest. order s = ctail s # rest \<and> rest \<noteq> []"
proof -
  note D = conc_invD [OF inv]
  have pend: "pending n s' a b = pending n s a b" for a b
    using stub by (simp add: pending_no_stub s')
  have "ctail s \<noteq> chead s" using D(7) nxt by auto
  then obtain y where y: "adj (order s) (ctail s) y" using adj_from [OF D(17)] D(4) by auto
  moreover have "\<not> pending n s (ctail s) y" using D(8) [of "ctail s" y] nxt by auto
  ultimately have "nxt = y" using D(9) [OF y] nxt by simp
  obtain rest where r: "order s = ctail s # rest" using D(2,3) by (cases "order s") auto
  with \<open>ctail s \<noteq> chead s\<close> D(4) have ne: "rest \<noteq> []" by auto
  have "hd rest = nxt" using y \<open>nxt = y\<close> adj_functional [OF D(5) y, of "hd rest"] r ne by (simp add: adj_Cons)
  with r ne show "\<exists>rest. order s = ctail s # rest \<and> rest \<noteq> []" by blast
  show "queue_ok n s'" using D r ne \<open>hd rest = nxt\<close> by (auto simp: queue_ok_def s')
  show "links_ok n s'"
  proof (rule links_okI)
    show "adj (order s') a b" if "pending n s' a b" for a b
    proof -
      have p: "adj (order s) a b" "n < cslots s ! a" using that D(8,10) [of a b] by (simp_all add: pend)
      then have "a \<noteq> ctail s" using nxt by auto
      with p(1) show ?thesis using D(3,5) by (simp add: s' adj_tl)
    qed
    show "cslots s' ! a = b" if "adj (order s') a b" "\<not> pending n s' a b" for a b
      using that D(5) D(9) [of a b] by (simp add: s' pend adj_tl)
    show "n < cslots s' ! a" if "pending n s' a b" for a b
      using that D(8) [of a b] by (simp add: s' pend)
  qed (simp add: s' D(7))
  show "prods_ok n s'" using D r by (auto simp: prods_ok_def s')
qed

lemma push_store_inv:
  assumes inv: "conc_inv n s" and i: "i < n" "prod s i = P_Idle" "i \<notin> set (order s)"
  shows "conc_inv n (s\<lparr>cslots := (cslots s)[i := length (cslots s)], prod := (prod s)(i := P_Stored)\<rparr>)"
    (is "conc_inv n ?s")
proof (rule conc_invI)
  note D = conc_invD [OF inv]
  have pend: "pending n ?s a b = pending n s a b" for a b using i by (auto simp: pending_def)
  have sl: "cslots ?s ! a = cslots s ! a" if "a \<in> set (order s)" for a using that i(3) by (cases "a = i") auto
  show "queue_ok n ?s" using D by (simp add: queue_ok_def)
  show "links_ok n ?s"
  proof (rule links_okI)
    show "n < cslots ?s ! chead ?s" using D(7) sl [OF D(16)] by simp
    fix a b
    show "n < cslots ?s ! a" if "pending n ?s a b"
      using that D(8,10) [of a b] sl [of a] adj_mem [of "order s" a b] by (simp add: pend)
    show "cslots ?s ! a = b" if "adj (order ?s) a b" "\<not> pending n ?s a b"
      using that D(9) [of a b] sl [of a] adj_mem [of "order s" a b] by (simp add: pend)
    show "adj (order ?s) a b" if "pending n ?s a b" using that D(10) [of a b] by (simp add: pend)
  qed
  show "prods_ok n ?s" using D i by (auto simp: prods_ok_def nth_list_update)
  show "cons_ok n ?s" using D(14) i(1) by (auto simp: cons_ok_def split: cons_pc.splits)
  show "history_ok n ?s" using D by (simp add: history_ok_def)
qed

lemma push_swap_inv:
  assumes inv: "conc_inv n s" and i: "prod s i = P_Stored"
  shows "conc_inv n (s\<lparr>chead := i, prod := (prod s)(i := P_Swapped (chead s)),
      order := order s @ [i], pushed := pushed s @ [i]\<rparr>)" (is "conc_inv n ?s")
proof (rule conc_invI)
  note D = conc_invD [OF inv]
  have i': "i < n" "i \<notin> set (order s)" "n < cslots s ! i" using D(11-13) i by auto
  have pend: "pending n ?s a b \<longleftrightarrow> (if b = i then a = chead s else pending n s a b)" for a b
    using i'(1) i by (auto simp: pending_def)
  show "queue_ok n ?s" using D i' by (auto simp: queue_ok_def)
  show "links_ok n ?s"
  proof (rule links_okI)
    fix a b
    show "n < cslots ?s ! a" if "pending n ?s a b"
      using that D(7) D(8) [of a b] by (simp add: pend split: if_splits)
    show "cslots ?s ! a = b" if "adj (order ?s) a b" "\<not> pending n ?s a b"
    proof -
      have "adj (order s) a b" "b \<noteq> i"
        using that D(4) i'(2) adj_mem [of "order s" a b] by (auto simp: adj_snoc pend)
      with that D(9) [of a b] show ?thesis by (simp add: pend)
    qed
    show "adj (order ?s) a b" if "pending n ?s a b"
      using that D(2,4) D(10) [of a b] by (simp add: pend adj_snoc split: if_splits)
  qed (use i' in simp)
  show "prods_ok n ?s" using D i' by (auto simp: prods_ok_def)
  show "cons_ok n ?s" using D(14) i'(1) by (auto simp: cons_ok_def split: cons_pc.splits)
  show "history_ok n ?s" using D(15) i'(1) by (simp add: history_ok_def)
qed

lemma link_inv:
  assumes inv: "conc_inv n s" and p: "pending n s prev i"
    and pend': "\<And>a b. pending n s' a b \<longleftrightarrow> pending n s a b \<and> b \<noteq> i"
    and s': "ctail s' = ctail s" "chead s' = chead s" "cslots s' = (cslots s)[prev := i]" "order s' = order s"
  shows "queue_ok n s'" "links_ok n s'"
proof -
  note D = conc_invD [OF inv]
  note pa = D(10) [OF p]
  have mem: "prev \<in> set (order s)" "i \<in> set (order s)" using adj_mem [OF pa] by auto
  then have le: "prev < length (cslots s)" using D(1,6) by auto
  show "queue_ok n s'" using D by (simp add: queue_ok_def s')
  show "links_ok n s'"
  proof (rule links_okI)
    show "n < cslots s' ! chead s'" using D(4,5,7) adj_not_last [OF D(5) pa] by (simp add: s')
    fix a b
    show "adj (order s') a b" if "pending n s' a b" using that D(10) [of a b] by (simp add: pend' s')
    show "n < cslots s' ! a" if "pending n s' a b"
    proof -
      have "a \<noteq> prev" using that D(10) [of a b] adj_functional [OF D(5) pa, of b] by (auto simp: pend')
      then show ?thesis using that D(8) [of a b] by (simp add: pend' s')
    qed
    show "cslots s' ! a = b" if "adj (order s') a b" "\<not> pending n s' a b"
    proof (cases "b = i")
      case True
      then have "a = prev" using that(1) adj_injective [OF D(5) pa, of a] by (simp add: s')
      with True le show ?thesis by (simp add: s')
    next
      case False
      then have "a \<noteq> prev" using that(1) adj_functional [OF D(5) pa, of b] by (auto simp: s')
      with False that D(9) [of a b] show ?thesis by (simp add: pend' s')
    qed
  qed
qed

lemma push_link_inv:
  assumes inv: "conc_inv n s" and i: "prod s i = P_Swapped prev"
  shows "conc_inv n (s\<lparr>cslots := (cslots s)[prev := i], prod := (prod s)(i := P_Idle)\<rparr>)" (is "conc_inv n ?s")
proof (rule conc_invI)
  note D = conc_invD [OF inv]
  have "i < n" using D(11) [of i] i by simp
  then have p: "pending n s prev i" using i by (simp add: pending_def)
  have pend: "pending n ?s a b \<longleftrightarrow> pending n s a b \<and> b \<noteq> i" for a b
    using \<open>i < n\<close> by (auto simp: pending_def)
  have mem: "prev \<in> set (order s)" using adj_mem D(10) [OF p] by blast
  note L = link_inv [OF inv p pend]
  show "queue_ok n ?s" "links_ok n ?s" by (rule L; simp)+
  have neq: "prev \<noteq> j" if "prod s j = P_Stored" for j using D(12) [OF that] mem by auto
  show "prods_ok n ?s" using D(11-13) neq by (auto simp: prods_ok_def)
  have "(cslots s)[prev := i] ! n = cslots s ! n" if "n \<notin> set (order s)" using that mem by (cases "prev = n") auto
  then show "cons_ok n ?s" using D(14) by (auto simp: cons_ok_def split: cons_pc.splits)
  show "history_ok n ?s" using D(15) by (simp add: history_ok_def)
qed

lemma cons_frame:
  assumes inv: "conc_inv n s" and stub: "no_stub_push s" "no_stub_push s'" and ok: "cons_ok n s'"
    and s': "ctail s' = ctail s" "chead s' = chead s" "cslots s' = cslots s" "prod s' = prod s" "order s' = order s"
      "pushed s' = pushed s" "outs s' = outs s"
  shows "conc_inv n s'"
proof -
  have "pending n s' a b = pending n s a b" for a b using stub by (simp add: pending_no_stub s')
  with inv ok show ?thesis by (simp add: conc_parts links_ok_def s')
qed

lemma take_tail_inv:
  assumes inv: "conc_inv n s" and t: "ctail s = t" "t \<noteq> n" "cslots s ! t = nxt" "nxt \<le> n" and stub: "no_stub_push s"
  shows "conc_inv n (take_tail t nxt s)" (is "conc_inv n ?s")
proof -
  have "no_stub_push ?s" by (simp add: no_stub_push_def take_tail_def)
  note A = advance [OF inv, of nxt ?s, unfolded t(1), OF t(3,4) stub this]
  show ?thesis
  proof (rule conc_invI)
    show "queue_ok n ?s" "links_ok n ?s" "prods_ok n ?s" by (rule A; simp add: take_tail_def)+
    have "\<exists>rest. order s = t # rest \<and> rest \<noteq> []" by (rule A(4)) (simp_all add: take_tail_def)
    then show "history_ok n ?s" using conc_invD(15) [OF inv] t(2) by (auto simp: history_ok_def take_tail_def)
  qed (simp add: cons_ok_def take_tail_def)
qed

lemma pop_skip_inv:
  assumes inv: "conc_inv n s" and t: "cons s = C_Idle" "ctail s = n" "cslots s ! n = nxt" "nxt \<le> n"
  shows "conc_inv n (s\<lparr>ctail := nxt, cons := C_Skip nxt, order := tl (order s)\<rparr>)" (is "conc_inv n ?s")
proof -
  have "no_stub_push s" "no_stub_push ?s" by (simp_all add: no_stub_push_def t)
  note A = advance [OF inv, of nxt ?s, unfolded t(2), OF t(3,4) this]
  have r: "\<exists>rest. order s = n # rest \<and> rest \<noteq> []" by (rule A(4)) simp_all
  show ?thesis
  proof (rule conc_invI)
    show "queue_ok n ?s" "links_ok n ?s" "prods_ok n ?s" by (rule A; simp)+
    show "history_ok n ?s" using conc_invD(15) [OF inv] r by (auto simp: history_ok_def)
    show "cons_ok n ?s" using conc_invD(5) [OF inv] r by (auto simp: cons_ok_def)
  qed
qed

lemma stub_store_inv:
  assumes inv: "conc_inv n s" and t: "cons s = C_Push1 t"
  shows "conc_inv n (s\<lparr>cslots := (cslots s)[n := length (cslots s)], cons := C_Push2 t\<rparr>)" (is "conc_inv n ?s")
proof (rule conc_invI)
  note D = conc_invD [OF inv]
  have n: "n \<notin> set (order s)" "ctail s = t" using D(14) t by (simp_all add: cons_ok_def)
  have pend: "pending n ?s a b = pending n s a b" for a b using t by (simp add: pending_def)
  have sl: "cslots ?s ! a = cslots s ! a" if "a \<in> set (order s)" for a using that n(1) by (cases "a = n") auto
  show "queue_ok n ?s" using D by (simp add: queue_ok_def)
  show "links_ok n ?s"
  proof (rule links_okI)
    show "n < cslots ?s ! chead ?s" using D(7) sl [OF D(16)] by simp
    fix a b
    show "n < cslots ?s ! a" if "pending n ?s a b"
      using that D(8,10) [of a b] sl [of a] adj_mem [of "order s" a b] by (simp add: pend)
    show "cslots ?s ! a = b" if "adj (order ?s) a b" "\<not> pending n ?s a b"
      using that D(9) [of a b] sl [of a] adj_mem [of "order s" a b] by (simp add: pend)
    show "adj (order ?s) a b" if "pending n ?s a b" using that D(10) [of a b] by (simp add: pend)
  qed
  show "prods_ok n ?s" using D by (auto simp: prods_ok_def nth_list_update)
  show "cons_ok n ?s" using D(1) n by (simp add: cons_ok_def)
  show "history_ok n ?s" using D by (simp add: history_ok_def)
qed

lemma stub_swap_inv:
  assumes inv: "conc_inv n s" and t: "cons s = C_Push2 t"
  shows "conc_inv n (s\<lparr>chead := n, cons := C_Push3 t (chead s), order := order s @ [n]\<rparr>)" (is "conc_inv n ?s")
proof (rule conc_invI)
  note D = conc_invD [OF inv]
  have n: "n \<notin> set (order s)" "ctail s = t" "n < cslots s ! n" using D(14) t by (simp_all add: cons_ok_def)
  have pend: "pending n ?s a b \<longleftrightarrow> (if b = n then a = chead s else pending n s a b)" for a b
    using t D(11) [of b] by (auto simp: pending_def)
  show "queue_ok n ?s" using D n by (auto simp: queue_ok_def)
  show "links_ok n ?s"
  proof (rule links_okI)
    fix a b
    show "n < cslots ?s ! a" if "pending n ?s a b"
      using that D(7) D(8) [of a b] by (simp add: pend split: if_splits)
    show "cslots ?s ! a = b" if "adj (order ?s) a b" "\<not> pending n ?s a b"
    proof -
      have "adj (order s) a b" "b \<noteq> n"
        using that D(4) n(1) adj_mem [of "order s" a b] by (auto simp: adj_snoc pend)
      with that D(9) [of a b] show ?thesis by (simp add: pend)
    qed
    show "adj (order ?s) a b" if "pending n ?s a b"
      using that D(2,4) D(10) [of a b] by (simp add: pend adj_snoc split: if_splits)
  qed (use n in simp)
  show "prods_ok n ?s" using D(11-13) D(11) [of n] by (auto simp: prods_ok_def)
  show "cons_ok n ?s" using D(17) n by (auto simp: cons_ok_def)
  show "history_ok n ?s" using D(15) by (simp add: history_ok_def)
qed

lemma stub_link_inv:
  assumes inv: "conc_inv n s" and t: "cons s = C_Push3 t prev"
  shows "conc_inv n (s\<lparr>cslots := (cslots s)[prev := n], cons := C_Last t\<rparr>)" (is "conc_inv n ?s")
proof (rule conc_invI)
  note D = conc_invD [OF inv]
  have p: "pending n s prev n" using t by (simp add: pending_def)
  have pend: "pending n ?s a b \<longleftrightarrow> pending n s a b \<and> b \<noteq> n" for a b
    using t by (auto simp: pending_def)
  have mem: "prev \<in> set (order s)" using adj_mem D(10) [OF p] by blast
  note L = link_inv [OF inv p pend]
  show "queue_ok n ?s" "links_ok n ?s" by (rule L; simp)+
  have neq: "prev \<noteq> j" if "prod s j = P_Stored" for j using D(12) [OF that] mem by auto
  show "prods_ok n ?s" using D(11-13) neq by (auto simp: prods_ok_def)
  show "cons_ok n ?s" using D(14) t by (simp add: cons_ok_def)
  show "history_ok n ?s" using D(15) by (simp add: history_ok_def)
qed

lemma conc_init_inv: "conc_inv n (conc_init n)"
  by (simp add: conc_parts links_ok_def cons_ok_def pending_def conc_init_def new_map_def nth_append)

lemma single_queue:
  assumes "conc_inv n s" "chead s = ctail s"
  shows "order s = [ctail s]"
proof (cases "tl (order s) = []")
  case True
  then show ?thesis using conc_invD(2,3) [OF assms(1)] by (cases "order s") auto
next
  case False
  then have "last (order s) \<in> set (tl (order s))" using last_in_set [OF False] by (simp add: last_tl)
  then show ?thesis using conc_invD(2-5) [OF assms(1)] assms(2) by (cases "order s") auto
qed

lemmas consumer_simps = no_stub_push_def cons_ok_def

lemmas producer_step_inv = push_store_inv push_swap_inv push_link_inv

lemmas stub_step_inv = pop_skip_inv stub_store_inv stub_swap_inv stub_link_inv

lemma conc_step_inv:
  assumes inv: "conc_inv n s" and step: "conc_step n s s'"
  shows "conc_inv n s'"
proof -
  have tail: "cons_ok n s" using inv by (simp add: conc_inv_def)
  show ?thesis using step
  proof cases
    case pop_first
    then show ?thesis using take_tail_inv [OF inv] by (simp add: consumer_simps)
  next
    case (skip_first t nxt)
    have "ctail s \<noteq> n" using conc_invD(14,17) [OF inv] skip_first by (auto simp: cons_ok_def)
    with skip_first tail take_tail_inv [OF inv] show ?thesis by (simp add: consumer_simps)
  next
    case (skip_end t)
    have "ctail s \<noteq> n" using conc_invD(14,17) [OF inv] skip_end by (auto simp: cons_ok_def)
    with skip_end tail show ?thesis by (intro cons_frame [OF inv]) (simp_all add: consumer_simps)
  next
    case (check_same t)
    with tail single_queue [OF inv] show ?thesis by (intro cons_frame [OF inv]) (auto simp: consumer_simps)
  next
    case (last_first t nxt)
    with tail take_tail_inv [OF inv] show ?thesis by (simp add: consumer_simps)
  qed (simp_all add: inv producer_step_inv stub_step_inv cons_frame [OF inv] consumer_simps)
qed

interpretation mpsc: transition_system "\<lambda>s. s = conc_init n" "conc_step n" "conc_inv n" for n
  by unfold_locales (auto intro: conc_init_inv conc_step_inv)

lemma linked_adj:
  assumes "xs \<noteq> []" "\<forall>x \<in> set xs. x < length sl" "\<forall>a b. adj xs a b \<longrightarrow> sl ! a = b" "length sl \<le> sl ! last xs"
  shows "linked sl xs"
  using assms by (induction sl xs rule: linked.induct) (auto simp: adj_Cons)

lemma idle_queue:
  assumes inv: "conc_inv n s" and idle: "idle s"
  shows "invar (conc_map s)" "contents (conc_map s) = filter (\<lambda>x. x \<noteq> n) (order s)"
proof -
  note D = conc_invD [OF inv]
  have "\<not> pending n s a b" for a b using idle by (simp add: pending_def idle_def)
  then have "linked (cslots s) (order s)"
    using D(1,2,4,6,7) D(9) by (intro linked_adj) auto
  then have "nodes (conc_map s) = order s" and "invar (conc_map s)"
    using nodesI [of "conc_map s" "order s"] D by (simp_all add: conc_map_def)
  then show "invar (conc_map s)" "contents (conc_map s) = filter (\<lambda>x. x \<noteq> n) (order s)"
    using D(1) by (simp_all add: contents_def capacity_def conc_map_def)
qed

text \<open>
  C20: Under every interleaving of producers and the consumer, the indices popped so far are a
  prefix of the indices pushed, in the order of their swaps: nothing is lost, duplicated or
  reordered, and in an idle state the rest is what the slots hold.
\<close>

theorem popped_in_push_order:
  assumes "conc_reaches n s"
  shows "\<exists>rest. pushed s = outs s @ rest \<and> distinct rest \<and> set rest \<subseteq> {..<n} \<and>
    (idle s \<longrightarrow> invar (conc_map s) \<and> contents (conc_map s) = rest)"
proof -
  have inv: "conc_inv n s" by (rule mpsc.invar_reaches [OF assms])
  note D = conc_invD [OF inv]
  have "set (filter (\<lambda>x. x \<noteq> n) (order s)) \<subseteq> {..<n}" using D(6) by (fastforce simp: subset_iff)
  with D(5,15) idle_queue [OF inv] show ?thesis
    by (intro exI [of _ "filter (\<lambda>x. x \<noteq> n) (order s)"]) auto
qed

text \<open>
  C21: Every call of pop that returns None, under every interleaving, returns it only when
  everything pushed has been popped, or while some producer stands between the swap of the head and
  the store of its link to the stub.
\<close>

theorem none_means_drained:
  assumes "conc_reaches n s" "conc_step n s s'" "results s' = results s @ [Slot_None]"
  shows "outs s' = pushed s' \<or> (\<exists>i < n. prod s' i = P_Swapped n)"
proof -
  have inv: "conc_inv n s" by (rule mpsc.invar_reaches [OF assms(1)])
  note D = conc_invD [OF inv]
  from assms(2,3) have s': "s' = s\<lparr>results := results s @ [Slot_None]\<rparr>" and idle: "cons s = C_Idle"
    and t: "ctail s = n" and n: "cslots s ! n > n"
    by (cases rule: conc_step.cases; auto simp: take_tail_def)+
  show ?thesis
  proof (cases "chead s = n")
    case True
    then show ?thesis using single_queue [OF inv] t D(15) by (simp add: s')
  next
    case False
    then obtain y where y: "adj (order s) n y" using adj_from [OF D(17)] D(4) t by auto
    have "y \<le> n" using adj_mem [OF y] D(6) by auto
    then have "pending n s n y" using D(9) [OF y] n by auto
    then show ?thesis using idle by (auto simp: pending_def s')
  qed
qed

text \<open>
  pop returns Inconsistent only when an index that was pushed has not been popped yet.
\<close>

theorem inconsistent_means_not_drained:
  assumes "conc_reaches n s" "conc_step n s s'" "results s' = results s @ [Slot_Inconsistent]"
  shows "outs s' \<noteq> pushed s'"
proof -
  have inv: "conc_inv n s" by (rule mpsc.invar_reaches [OF assms(1)])
  note D = conc_invD [OF inv]
  from assms(2,3) have s': "s' = s\<lparr>cons := C_Idle, results := results s @ [Slot_Inconsistent]\<rparr>"
    and "\<exists>t. cons s = C_Check t \<or> cons s = C_Last t"
    by (cases rule: conc_step.cases; auto simp: take_tail_def)+
  then have "ctail s \<noteq> n" using D(14) by (auto simp: cons_ok_def)
  then have "ctail s \<in> set (filter (\<lambda>x. x \<noteq> n) (order s))" using D(17) by simp
  then have "filter (\<lambda>x. x \<noteq> n) (order s) \<noteq> []" by force
  then show ?thesis using D(15) by (auto simp: s')
qed

lemma push_is_steps:
  assumes inv: "conc_inv n s" and i: "i < n" "prod s i = P_Idle" "i \<notin> set (order s)"
  shows "\<exists>s'. steps (conc_step n) s s' \<and> push i (conc_map s) = Inr (conc_map s') \<and> pushed s' = pushed s @ [i]
    \<and> prod s' = prod s \<and> cons s' = cons s"
proof -
  note D = conc_invD [OF inv]
  let ?a = "s\<lparr>cslots := (cslots s)[i := length (cslots s)], prod := (prod s)(i := P_Stored)\<rparr>"
  let ?b = "?a\<lparr>chead := i, prod := (prod ?a)(i := P_Swapped (chead ?a)), order := order ?a @ [i], pushed := pushed ?a @ [i]\<rparr>"
  let ?c = "?b\<lparr>cslots := (cslots ?b)[chead s := i], prod := (prod ?b)(i := P_Idle)\<rparr>"
  have "conc_step n s ?a" using i by (rule conc_step.push_store)
  moreover have "conc_step n ?a ?b" by (rule conc_step.push_swap) simp
  moreover have "conc_step n ?b ?c" by (rule conc_step.push_link) simp
  ultimately have "steps (conc_step n) s ?c" by (meson steps.intros)
  moreover have "chead s < length (cslots s)" using D(1,6,16) by auto
  then have "push i (conc_map s) = Inr (conc_map ?c)"
    using i(1) D(1) by (simp add: push_def Let_def conc_map_def)
  moreover have "prod ?c = prod s" using i(2) by (auto simp: fun_eq_iff)
  ultimately show ?thesis by (intro exI [of _ ?c]) simp
qed

text \<open>Run without interference, the steps of the consumer are \<^verbatim>\<open>pop\<close>.\<close>

lemma stub_push_steps:
  assumes inv: "conc_inv n s" and t: "cons s = C_Push1 t"
  shows "\<exists>s'. steps (conc_step n) s s' \<and> push n (conc_map s) = Inr (conc_map s') \<and> cons s' = C_Last t \<and> results s' = results s"
proof -
  note D = conc_invD [OF inv]
  let ?a = "s\<lparr>cslots := (cslots s)[n := length (cslots s)], cons := C_Push2 t\<rparr>"
  let ?b = "?a\<lparr>chead := n, cons := C_Push3 t (chead ?a), order := order ?a @ [n]\<rparr>"
  let ?c = "?b\<lparr>cslots := (cslots ?b)[chead s := n], cons := C_Last t\<rparr>"
  have "conc_step n s ?a" using t by (rule conc_step.stub_store)
  moreover have "conc_step n ?a ?b" by (rule conc_step.stub_swap) simp
  moreover have "conc_step n ?b ?c" by (rule conc_step.stub_link) simp
  ultimately have "steps (conc_step n) s ?c" by (meson steps.intros)
  moreover have "chead s < length (cslots s)" using D(1,6,16) by auto
  then have "push n (conc_map s) = Inr (conc_map ?c)"
    using D(1) by (simp add: push_def Let_def conc_map_def)
  ultimately show ?thesis by (intro exI [of _ ?c]) simp
qed

lemma check_steps:
  assumes inv: "conc_inv n s" and t: "cons s = C_Check t" and nxt: "nxt > n"
  shows "\<exists>s' r. steps (conc_step n) s s' \<and> pop_from n t nxt (conc_map s) = Inr (r, conc_map s') \<and> results s' = results s @ [r]"
proof (cases "chead s = t")
  case False
  let ?s = "s\<lparr>cons := C_Idle, results := results s @ [Slot_Inconsistent]\<rparr>"
  have "conc_step n s ?s" using t False by (rule conc_step.check_other)
  then have "steps (conc_step n) s ?s" by (meson steps.intros)
  with False nxt show ?thesis
    by (intro exI [of _ ?s] exI [of _ Slot_Inconsistent]) (simp add: pop_from_def conc_map_def)
next
  case True
  let ?a = "s\<lparr>cons := C_Push1 t\<rparr>"
  have 1: "conc_step n s ?a" using t True by (rule conc_step.check_same)
  note inva = conc_step_inv [OF inv 1]
  obtain b where b: "steps (conc_step n) ?a b" "push n (conc_map s) = Inr (conc_map b)" "cons b = C_Last t" "results b = results s"
    using stub_push_steps [OF inva] by (auto simp: conc_map_def)
  have invb: "conc_inv n b" by (rule mpsc.invar_steps [OF b(1) inva])
  note D = conc_invD [OF invb]
  have tb: "t < length (cslots b)" using D(1,6,14,17) b(3) by (auto simp: cons_ok_def)
  have pf: "pop_from n t nxt (conc_map s) =
      (if cslots b ! t \<le> n then Inr (Slot_Ready t, (conc_map b)\<lparr>tail := cslots b ! t\<rparr>)
       else Inr (Slot_Inconsistent, conc_map b))"
    using True nxt b(2) tb by (simp add: pop_from_def conc_map_def)
  show ?thesis
  proof (cases "cslots b ! t \<le> n")
    case le: True
    let ?c = "take_tail t (cslots b ! t) b"
    have "conc_step n b ?c" using b(3) le by (intro conc_step.last_first) simp_all
    with 1 b(1) have "steps (conc_step n) s ?c" by (meson steps.intros steps_trans)
    with le pf b(4) show ?thesis
      by (intro exI [of _ ?c] exI [of _ "Slot_Ready t"]) (simp add: conc_map_def take_tail_def)
  next
    case gt: False
    let ?c = "b\<lparr>cons := C_Idle, results := results b @ [Slot_Inconsistent]\<rparr>"
    have "conc_step n b ?c" using b(3) gt conc_step.last_end [of b t n] by (simp add: not_le)
    with 1 b(1) have "steps (conc_step n) s ?c" by (meson steps.intros steps_trans)
    with gt pf b(4) show ?thesis
      by (intro exI [of _ ?c] exI [of _ Slot_Inconsistent]) (simp add: conc_map_def)
  qed
qed

lemma pop_from_steps:
  assumes inv: "conc_inv n s" and tail: "ctail s = t" "t \<noteq> n" and nxt: "cslots s ! t = nxt"
    and take: "nxt \<le> n \<Longrightarrow> conc_step n s (take_tail t nxt s)"
    and stop: "nxt > n \<Longrightarrow> conc_step n s (s\<lparr>cons := C_Check t\<rparr>)"
  shows "\<exists>s' r. steps (conc_step n) s s' \<and> pop_from n t nxt (conc_map s) = Inr (r, conc_map s') \<and> results s' = results s @ [r]"
proof (cases "nxt \<le> n")
  case True
  have "steps (conc_step n) s (take_tail t nxt s)" using take [OF True] by (meson steps.intros)
  with True tail(2) show ?thesis
    by (intro exI [of _ "take_tail t nxt s"] exI [of _ "Slot_Ready t"]) (simp add: pop_from_def conc_map_def take_tail_def)
next
  case False
  let ?a = "s\<lparr>cons := C_Check t\<rparr>"
  have a: "conc_step n s ?a" using stop False by simp
  have "conc_map ?a = conc_map s" by (simp add: conc_map_def)
  with check_steps [OF conc_step_inv [OF inv a], of t nxt] False a show ?thesis
    by (auto intro: steps.intros)
qed

lemma pop_is_steps:
  assumes inv: "conc_inv n s" and idle: "cons s = C_Idle"
  shows "\<exists>s' r. steps (conc_step n) s s' \<and> pop (conc_map s) = Inr (r, conc_map s') \<and> results s' = results s @ [r]"
proof -
  note D = conc_invD [OF inv]
  have len: "slots (conc_map s) \<noteq> []" "length (cslots s) - 1 = n" using D(1) by (auto simp: conc_map_def)
  have t: "ctail s < length (cslots s)" using D(1,6,17) by auto
  consider (first) "ctail s \<noteq> n" | (none) "ctail s = n" "cslots s ! n > n" | (skip) "ctail s = n" "cslots s ! n \<le> n"
    by linarith
  then show ?thesis
  proof cases
    case first
    have "pop (conc_map s) = pop_from n (ctail s) (cslots s ! ctail s) (conc_map s)"
      using len t first by (simp add: pop_def Let_def conc_map_def)
    then show ?thesis using pop_from_steps [OF inv refl first refl] first idle
      by (auto intro: conc_step.pop_first conc_step.pop_end)
  next
    case none
    let ?s = "s\<lparr>results := results s @ [Slot_None]\<rparr>"
    have "steps (conc_step n) s ?s" using conc_step.pop_none [OF idle none] by (meson steps.intros)
    then show ?thesis using len t none
      by (intro exI [of _ ?s] exI [of _ Slot_None]) (simp add: pop_def Let_def conc_map_def)
  next
    case skip
    let ?y = "cslots s ! n"
    let ?a = "s\<lparr>ctail := ?y, cons := C_Skip ?y, order := tl (order s)\<rparr>"
    have a: "conc_step n s ?a" using conc_step.pop_skip [OF idle skip(1) refl skip(2)] .
    note inva = conc_step_inv [OF inv a]
    have ne: "?y \<noteq> n" using conc_invD(14,17) [OF inva] by (auto simp: cons_ok_def)
    have "pop (conc_map s) = pop_from n ?y (cslots ?a ! ?y) (conc_map ?a)"
      using len t skip D(1) by (simp add: pop_def Let_def conc_map_def)
    moreover have "\<exists>s' r. steps (conc_step n) ?a s' \<and> pop_from n ?y (cslots ?a ! ?y) (conc_map ?a) = Inr (r, conc_map s')
        \<and> results s' = results ?a @ [r]"
      using conc_step.skip_end [of ?a ?y n] conc_step.skip_first [of ?a ?y _ n]
      by (intro pop_from_steps [OF inva]) (simp_all add: ne)
    ultimately show ?thesis using a by (auto intro: steps.intros)
  qed
qed

text \<open>
  C23: In every reachable state the sequential push and pop are runs of the atomic steps: the
  interleaved and the sequential model of the queue agree on every operation that is not
  interrupted.
\<close>

theorem operations_are_steps:
  assumes "conc_reaches n s"
  shows "(\<forall>i. i < n \<and> prod s i = P_Idle \<and> i \<notin> set (order s) \<longrightarrow>
      (\<exists>s'. steps (conc_step n) s s' \<and> push i (conc_map s) = Inr (conc_map s') \<and> pushed s' = pushed s @ [i])) \<and>
    (cons s = C_Idle \<longrightarrow>
      (\<exists>s' r. steps (conc_step n) s s' \<and> pop (conc_map s) = Inr (r, conc_map s') \<and> results s' = results s @ [r]))"
proof -
  have inv: "conc_inv n s" by (rule mpsc.invar_reaches [OF assms])
  show ?thesis using push_is_steps [OF inv] pop_is_steps [OF inv] by blast
qed

subsection \<open>A run\<close>

lemma torn_push_reached: "conc_reaches 2 torn_push"
proof -
  note r = reaches_step [where start = "\<lambda>s. s = conc_init 2" and step = "conc_step 2"]
  have "conc_reaches 2 (conc_init 2)" by (rule reaches_start) simp
  note 1 = r [OF this conc_step.push_store [where i = 0]]
  have "conc_reaches 2 \<lparr>ctail = 2, chead = 2, cslots = [3, 3, 3], prod = (\<lambda>_. P_Idle)(0 := P_Stored),
      cons = C_Idle, results = [], order = [2], pushed = [], outs = []\<rparr>"
    using 1 by (simp add: conc_init_def new_map_def numeral_eq_Suc)
  note 2 = r [OF this conc_step.push_swap [where i = 0]]
  note 3 = r [OF 2 conc_step.push_link [where i = 0]]
  note 4 = r [OF 3 conc_step.push_store [where i = 1]]
  note 5 = r [OF 4 conc_step.push_swap [where i = 1]]
  show ?thesis using 5 by (simp add: torn_push_def numeral_eq_Suc fun_upd_twist fun_upd_idem)
qed

theorem popped_in_push_order_witness:
  "prod torn_push 1 = P_Swapped 0 \<and> (\<exists>rest. pushed torn_push = outs torn_push @ rest \<and> distinct rest)"
  using popped_in_push_order [OF torn_push_reached] by (auto simp: torn_push_def)

theorem operations_are_steps_witness:
  "\<exists>s' r. steps (conc_step 2) torn_push s' \<and> pop (conc_map torn_push) = Inr (r, conc_map s') \<and> results s' = [r]"
proof -
  have "cons torn_push = C_Idle" "results torn_push = []" by (simp_all add: torn_push_def)
  with operations_are_steps [OF torn_push_reached] show ?thesis by auto
qed

theorem none_means_drained_witness:
  "\<exists>s s'. conc_reaches 1 s \<and> conc_step 1 s s' \<and> results s' = [Slot_None, Slot_None] \<and>
     (outs s' = pushed s' \<or> (\<exists>i < 1. prod s' i = P_Swapped 1))"
proof -
  let ?s = "(conc_init 1)\<lparr>results := [Slot_None]\<rparr>" and ?s' = "(conc_init 1)\<lparr>results := [Slot_None, Slot_None]\<rparr>"
  have i: "cons ?s = C_Idle" "ctail ?s = 1" "cslots ?s ! 1 > 1" by (simp_all add: conc_init_def new_map_def)
  have "conc_step 1 (conc_init 1) ?s" using conc_step.pop_none [of "conc_init 1" 1] i by (simp add: conc_init_def)
  then have r: "conc_reaches 1 ?s" by (auto intro: reaches_step reaches_start)
  have "conc_step 1 ?s ?s'" using conc_step.pop_none [OF i] by (simp add: conc_init_def)
  with none_means_drained [OF r this] r show ?thesis by (intro exI [of _ ?s] exI [of _ ?s']) simp
qed

theorem inconsistent_means_not_drained_witness:
  "\<exists>s s'. conc_reaches 2 s \<and> conc_step 2 s s' \<and> results s' = [Slot_Inconsistent] \<and> outs s' \<noteq> pushed s'"
proof -
  note r = reaches_step [where start = "\<lambda>s. s = conc_init 2" and step = "conc_step 2"]
  let ?s = "\<lparr>ctail = 0, chead = 1, cslots = [3, 3, 0], prod = (\<lambda>_. P_Idle)(1 := P_Swapped 0),
     cons = C_Check 0, results = [], order = [0, 1], pushed = [0, 1], outs = []\<rparr>"
  have "conc_reaches 2 (?s\<lparr>cons := C_Skip 0\<rparr>)"
    using r [OF torn_push_reached conc_step.pop_skip [where nxt = 0]] by (simp add: torn_push_def numeral_eq_Suc)
  from r [OF this conc_step.skip_end [where t = 0]] have s: "conc_reaches 2 ?s" by simp
  let ?s' = "?s\<lparr>cons := C_Idle, results := [Slot_Inconsistent]\<rparr>"
  have "conc_step 2 ?s ?s'" using conc_step.check_other [of ?s 0 2] by simp
  with inconsistent_means_not_drained [OF s this] s show ?thesis
    by (intro exI [of _ ?s] exI [of _ ?s']) simp
qed

end
