(* ===== verification/Task.thy ===== *)
theory Task
  imports Slot_Map
begin

text \<open>
  \<^verbatim>\<open>src/src/task.rs\<close> and \<^verbatim>\<open>src/src/join_handle.rs\<close>: tasks and the handles that await
  them. A task is its atomic state byte, the waker of its joiner and the future or its result. Here every
  operation is one function, as a thread sees it that runs alone, with the one exception that
  \<open>run\<close> takes what the rest of the program does to the world while the user's future is polled;
  \<^verbatim>\<open>Task_Conc\<close> interleaves the atomic accesses. Tasks are numbered, as the reference-counted pointers
  to them are only compared and followed. The user's future, \<^verbatim>\<open>AtomicWaker\<close> and the intrusive
  linked list are parameters. Poisoned locks are not modelled.
\<close>

subsection \<open>What the code uses of other crates\<close>

text \<open>\<^verbatim>\<open>futures_util::task::AtomicWaker\<close>: wakers are numbers, \<open>aw_take\<close> is the waker \<^verbatim>\<open>wake\<close> wakes.\<close>

record 'aw atomic_waker_ops =
  aw_new :: 'aw
  aw_register :: "nat \<Rightarrow> 'aw \<Rightarrow> 'aw"
  aw_take :: "'aw \<Rightarrow> 'aw \<times> nat option"

text \<open>\<^verbatim>\<open>intrusive_collections::LinkedList\<close> of tasks; \<open>ll_is_linked\<close> reads the link in the task.\<close>

record 'q linked_list_ops =
  ll_push_back :: "nat \<Rightarrow> 'q \<Rightarrow> 'q"
  ll_pop_front :: "'q \<Rightarrow> nat option \<times> 'q"
  ll_is_linked :: "nat \<Rightarrow> 'q \<Rightarrow> bool"

subsection \<open>The result cell\<close>

datatype join_error = Aborted | Panic string

datatype ('f, 'o) join_inner = Future 'f | Return "join_error + 'o"

text \<open>What \<^verbatim>\<open>catch_unwind\<close> around the poll of the user's future yields.\<close>

datatype 'o fut_poll = Fut_Pending | Fut_Ready 'o | Fut_Panic string

fun join_inner_poll :: "('f \<Rightarrow> 'f \<times> 'o fut_poll) \<Rightarrow> ('f, 'o) join_inner \<Rightarrow> ('f, 'o) join_inner \<times> unit poll" where
  "join_inner_poll fp (Future f) =
     (case fp f of
        (f', Fut_Pending) \<Rightarrow> (Future f', Poll_Pending)
      | (f', Fut_Ready x) \<Rightarrow> (Return (Inr x), Poll_Ready ())
      | (f', Fut_Panic p) \<Rightarrow> (Return (Inl (Panic p)), Poll_Ready ()))"
| "join_inner_poll fp (Return v) = (Return v, Poll_Pending)"

subsection \<open>Tasks and the runtime they are scheduled on\<close>

definition IDLE :: u8 where "IDLE = 0"
definition RUNNING :: u8 where "RUNNING = 1"
definition COMPLETED :: u8 where "COMPLETED = 2"
definition CANCELLED :: u8 where "CANCELLED = 3"
definition NOTIFIED :: u8 where "NOTIFIED = 4"

record ('f, 'o, 'aw) task =
  state :: u8
  waker :: 'aw
  fut :: "('f, 'o) join_inner"

datatype worker_waker = Parked

text \<open>\<open>notifies\<close> counts the calls of \<^verbatim>\<open>unparker.notify_one\<close>.\<close>

record worker =
  parker :: "worker_waker option"
  notifies :: nat

text \<open>\<^verbatim>\<open>MTRuntime\<close>; \<open>io_wakes\<close> counts the calls of \<^verbatim>\<open>io_handle.wake\<close>.\<close>

record 'q mt_runtime =
  global_queue :: 'q
  workers :: "worker list option"
  parked_workers :: slot_map
  io_wakes :: nat

record ('f, 'o, 'aw, 'q) world =
  rt :: "'q mt_runtime"
  tasks :: "nat \<Rightarrow> ('f, 'o, 'aw) task"
  woken :: "nat list"

definition new_task :: "'aw atomic_waker_ops \<Rightarrow> 'f \<Rightarrow> ('f, 'o, 'aw) task" where
  "new_task aw f = \<lparr>state = 0, waker = aw_new aw, fut = Future f\<rparr>"

definition set_state :: "nat \<Rightarrow> u8 \<Rightarrow> ('f, 'o, 'aw, 'q) world \<Rightarrow> ('f, 'o, 'aw, 'q) world" where
  "set_state t s w = w\<lparr>tasks := (tasks w)(t := (tasks w t)\<lparr>state := s\<rparr>)\<rparr>"

definition set_fut :: "nat \<Rightarrow> ('f, 'o) join_inner \<Rightarrow> ('f, 'o, 'aw, 'q) world \<Rightarrow> ('f, 'o, 'aw, 'q) world" where
  "set_fut t j w = w\<lparr>tasks := (tasks w)(t := (tasks w t)\<lparr>fut := j\<rparr>)\<rparr>"

text \<open>\<^verbatim>\<open>AtomicU8::try_update\<close>: \<open>Inr\<close> and \<open>Inl\<close> of the previous value for \<^verbatim>\<open>Ok\<close> and \<^verbatim>\<open>Err\<close>.\<close>

definition try_update :: "(u8 \<Rightarrow> u8 option) \<Rightarrow> u8 \<Rightarrow> (u8 + u8) \<times> u8" where
  "try_update f s = (case f s of Some s' \<Rightarrow> (Inr s, s') | None \<Rightarrow> (Inl s, s))"

text \<open>
  The loop of \<^verbatim>\<open>schedule_global\<close> that looks for a parked worker, as long as no other thread moves: \<open>None\<close> is a loop that
  only the step of another thread can end. \<^verbatim>\<open>Sched_Conc\<close> interleaves its rounds with the other threads.
\<close>

partial_function (option) unpark_loop :: "'q mt_runtime \<Rightarrow> (panic + 'q mt_runtime) option" where
  "unpark_loop r =
     (case pop (parked_workers r) of
        Inl e \<Rightarrow> Some (Inl e)
      | Inr (slot, m) \<Rightarrow>
          (case slot of
             Slot_Ready index \<Rightarrow>
               (case workers r of
                  None \<Rightarrow> Some (Inl (Expect_Failed ''runtime not initialised properly''))
                | Some ws \<Rightarrow>
                    (case index_get ws index of
                       Inl e \<Rightarrow> Some (Inl e)
                     | Inr wk \<Rightarrow>
                         (case parker wk of
                            Some Parked \<Rightarrow>
                              Some (Inr (r\<lparr>parked_workers := m,
                                workers := Some (ws[index := wk\<lparr>parker := None, notifies := notifies wk + 1\<rparr>])\<rparr>))
                          | None \<Rightarrow> unpark_loop (r\<lparr>parked_workers := m\<rparr>))))
           | _ \<Rightarrow> Some (Inr (r\<lparr>parked_workers := m, io_wakes := io_wakes r + 1\<rparr>))))"

text \<open>The part of \<^verbatim>\<open>schedule_global\<close> under the lock of the global queue.\<close>

definition push_global :: "'q linked_list_ops \<Rightarrow> nat \<Rightarrow> 'q mt_runtime \<Rightarrow> 'q mt_runtime" where
  "push_global ll t r =
     r\<lparr>global_queue := if ll_is_linked ll t (global_queue r) then global_queue r else ll_push_back ll t (global_queue r)\<rparr>"

text \<open>\<open>free\<close> is whether \<^verbatim>\<open>parked_workers.try_lock\<close> succeeds.\<close>

definition schedule_global ::
    "'q linked_list_ops \<Rightarrow> bool \<Rightarrow> nat \<Rightarrow> ('f, 'o, 'aw, 'q) world \<Rightarrow> (panic + ('f, 'o, 'aw, 'q) world) option" where
  "schedule_global ll free t w =
     (let r = push_global ll t (rt w) in
      if free then
        (case unpark_loop r of
           None \<Rightarrow> None
         | Some (Inl e) \<Rightarrow> Some (Inl e)
         | Some (Inr r1) \<Rightarrow> Some (Inr (w\<lparr>rt := r1\<rparr>)))
      else Some (Inr (w\<lparr>rt := r\<rparr>)))"

definition waker_wake :: "'aw atomic_waker_ops \<Rightarrow> nat \<Rightarrow> ('f, 'o, 'aw, 'q) world \<Rightarrow> ('f, 'o, 'aw, 'q) world" where
  "waker_wake aw t w =
     (let (a, wk) = aw_take aw (waker (tasks w t)) in
      w\<lparr>tasks := (tasks w)(t := (tasks w t)\<lparr>waker := a\<rparr>), woken := woken w @ opt_list wk\<rparr>)"

definition finish_cancellation ::
    "'aw atomic_waker_ops \<Rightarrow> nat \<Rightarrow> ('f, 'o, 'aw, 'q) world \<Rightarrow> ('f, 'o, 'aw, 'q) world" where
  "finish_cancellation aw t w =
     (let w1 = (case fut (tasks w t) of
                  Future _ \<Rightarrow> set_fut t (Return (Inl Aborted)) w
                | Return _ \<Rightarrow> w) in
      waker_wake aw t (set_state t COMPLETED w1))"

text \<open>\<^verbatim>\<open>take_output\<close> writes the result to its argument: \<open>None\<close> when it leaves it alone.\<close>

definition take_output ::
    "nat \<Rightarrow> ('f, 'o, 'aw, 'q) world \<Rightarrow> (join_error + 'o) option \<times> ('f, 'o, 'aw, 'q) world" where
  "take_output t w =
     (case fut (tasks w t) of
        Return val \<Rightarrow> (Some val, set_fut t (Return (Inl Aborted)) w)
      | Future _ \<Rightarrow> (None, w))"

definition register ::
    "'aw atomic_waker_ops \<Rightarrow> nat \<Rightarrow> nat \<Rightarrow> ('f, 'o, 'aw, 'q) world \<Rightarrow> ('f, 'o, 'aw, 'q) world" where
  "register aw wk t w =
     w\<lparr>tasks := (tasks w)(t := (tasks w t)\<lparr>waker := aw_register aw wk (waker (tasks w t))\<rparr>)\<rparr>"

definition cancel_update :: "u8 \<Rightarrow> u8 option" where
  "cancel_update s = (if s = COMPLETED \<or> s = CANCELLED then None else Some CANCELLED)"

definition cancel ::
    "'q linked_list_ops \<Rightarrow> bool \<Rightarrow> nat \<Rightarrow> ('f, 'o, 'aw, 'q) world \<Rightarrow> (panic + ('f, 'o, 'aw, 'q) world) option" where
  "cancel ll free t w =
     (case try_update cancel_update (state (tasks w t)) of
        (Inr _, s) \<Rightarrow> schedule_global ll free t (set_state t s w)
      | (Inl _, _) \<Rightarrow> Some (Inr w))"

definition run_start :: "u8 \<Rightarrow> u8 option" where
  "run_start s = (if s = IDLE then Some RUNNING else if s = RUNNING then Some NOTIFIED else None)"

definition run_end :: "u8 \<Rightarrow> u8 option" where
  "run_end s = (if s = RUNNING \<or> s = NOTIFIED then Some IDLE else None)"

text \<open>
  \<^verbatim>\<open>run\<close>. \<open>fp\<close> is the user's future; \<open>meanwhile\<close> is what it and the other threads do to the world
  between the two updates of the state.
\<close>

definition run ::
    "'aw atomic_waker_ops \<Rightarrow> 'q linked_list_ops \<Rightarrow> bool \<Rightarrow> ('f \<Rightarrow> 'f \<times> 'o fut_poll) \<Rightarrow>
     (('f, 'o, 'aw, 'q) world \<Rightarrow> ('f, 'o, 'aw, 'q) world) \<Rightarrow> nat \<Rightarrow> ('f, 'o, 'aw, 'q) world \<Rightarrow>
     (panic + ('f, 'o, 'aw, 'q) world) option" where
  "run aw ll free fp meanwhile t w =
     (case try_update run_start (state (tasks w t)) of
        (Inr prev, s) \<Rightarrow>
          let w1 = set_state t s w in
          if prev = IDLE then
            let (j, p) = join_inner_poll fp (fut (tasks w1 t));
                w2 = meanwhile (set_fut t j w1) in
            (case p of
               Poll_Ready _ \<Rightarrow> Some (Inr (waker_wake aw t (set_state t COMPLETED w2)))
             | Poll_Pending \<Rightarrow>
                 (case try_update run_end (state (tasks w2 t)) of
                    (Inr prev2, s2) \<Rightarrow>
                      let w3 = set_state t s2 w2 in
                      if prev2 = NOTIFIED then schedule_global ll free t w3 else Some (Inr w3)
                  | (Inl prev2, _) \<Rightarrow>
                      if prev2 = CANCELLED then Some (Inr (finish_cancellation aw t w2)) else Some (Inr w2)))
          else Some (Inr w1)
      | (Inl prev, _) \<Rightarrow>
          if prev = CANCELLED then Some (Inr (finish_cancellation aw t w)) else Some (Inr w))"

text \<open>\<^verbatim>\<open>JoinHandle::poll\<close> and \<^verbatim>\<open>JoinHandle::abort\<close>.\<close>

definition join_handle_poll ::
    "'aw atomic_waker_ops \<Rightarrow> nat \<Rightarrow> nat \<Rightarrow> ('f, 'o, 'aw, 'q) world \<Rightarrow>
     (join_error + 'o) poll \<times> ('f, 'o, 'aw, 'q) world" where
  "join_handle_poll aw wk t w =
     (case take_output t w of
        (Some v, w1) \<Rightarrow> (Poll_Ready v, w1)
      | (None, w1) \<Rightarrow>
          (case take_output t (register aw wk t w1) of
             (Some v, w2) \<Rightarrow> (Poll_Ready v, w2)
           | (None, w2) \<Rightarrow> (Poll_Pending, w2)))"

definition abort ::
    "'q linked_list_ops \<Rightarrow> bool \<Rightarrow> nat \<Rightarrow> ('f, 'o, 'aw, 'q) world \<Rightarrow> (panic + ('f, 'o, 'aw, 'q) world) option" where
  "abort ll free t w = cancel ll free t w"

subsection \<open>The documented behaviour of the parameters\<close>

text \<open>\<^verbatim>\<open>AtomicWaker\<close>: \<^verbatim>\<open>wake\<close> wakes the waker registered last, once; a new one has none.\<close>

definition atomic_waker_spec :: "'aw atomic_waker_ops \<Rightarrow> bool" where
  "atomic_waker_spec aw \<longleftrightarrow>
     snd (aw_take aw (aw_new aw)) = None \<and>
     (\<forall>w a. snd (aw_take aw (aw_register aw w a)) = Some w) \<and>
     (\<forall>a. snd (aw_take aw (fst (aw_take aw a))) = None)"

text \<open>
  The intrusive list holds the tasks \<open>items\<close> says, each at most once, in the order they were pushed; a
  task's link tells whether it is in it.
\<close>

definition linked_list_spec :: "'q linked_list_ops \<Rightarrow> ('q \<Rightarrow> nat list) \<Rightarrow> bool" where
  "linked_list_spec ll items \<longleftrightarrow>
     (\<forall>t q. t \<notin> set (items q) \<longrightarrow> items (ll_push_back ll t q) = items q @ [t]) \<and>
     (\<forall>t q. ll_is_linked ll t q \<longleftrightarrow> t \<in> set (items q)) \<and>
     (\<forall>q. fst (ll_pop_front ll q) = (case items q of [] \<Rightarrow> None | t # _ \<Rightarrow> Some t) \<and>
          items (snd (ll_pop_front ll q)) = tl (items q))"

text \<open>Both are satisfiable.\<close>

definition option_waker :: "nat option atomic_waker_ops" where
  "option_waker = \<lparr>aw_new = None, aw_register = (\<lambda>w _. Some w), aw_take = (\<lambda>a. (None, a))\<rparr>"

definition list_queue :: "nat list linked_list_ops" where
  "list_queue =
     \<lparr>ll_push_back = (\<lambda>t q. q @ [t]), ll_pop_front = (\<lambda>q. case q of [] \<Rightarrow> (None, []) | t # ts \<Rightarrow> (Some t, ts)),
      ll_is_linked = (\<lambda>t q. t \<in> set q)\<rparr>"

text \<open>A worker whose \<^verbatim>\<open>parker\<close> is set is waiting on its condition variable.\<close>

definition is_parked :: "worker list \<Rightarrow> nat \<Rightarrow> bool" where
  "is_parked ws i \<longleftrightarrow> parker (ws ! i) = Some Parked"

definition notify_worker :: "nat \<Rightarrow> worker list \<Rightarrow> worker list" where
  "notify_worker i ws = ws[i := (ws ! i)\<lparr>parker := None, notifies := notifies (ws ! i) + 1\<rparr>]"

text \<open>The runtime with its workers started and a well-formed queue of parked ones.\<close>

definition workers_ok :: "'q mt_runtime \<Rightarrow> worker list \<Rightarrow> bool" where
  "workers_ok r ws \<longleftrightarrow> workers r = Some ws \<and> invar (parked_workers r) \<and> capacity (parked_workers r) = length ws"

text \<open>What can happen to a task's state while its future is polled, with the future's lock held.\<close>

definition during_poll :: "nat \<Rightarrow> (('f, 'o, 'aw, 'q) world \<Rightarrow> ('f, 'o, 'aw, 'q) world) \<Rightarrow> bool" where
  "during_poll t g \<longleftrightarrow> (\<forall>w. fut (tasks (g w) t) = fut (tasks w t) \<and>
     (state (tasks w t) = RUNNING \<longrightarrow> state (tasks (g w) t) \<in> {RUNNING, NOTIFIED, CANCELLED}))"

text \<open>A small world: two workers, the first parked, and a future that is ready at its second poll.\<close>

definition sample_future :: "nat \<Rightarrow> nat \<times> nat fut_poll" where
  "sample_future f = (if f = 0 then (0, Fut_Ready 42) else (f - 1, Fut_Pending))"

definition sample_world :: "nat \<Rightarrow> (nat, nat, nat option, nat list) world" where
  "sample_world f =
     \<lparr>rt = \<lparr>global_queue = [], workers = Some [\<lparr>parker = Some Parked, notifies = 0\<rparr>, \<lparr>parker = None, notifies = 0\<rparr>],
        parked_workers = \<lparr>tail = 2, head = 0, slots = [3, 3, 0]\<rparr>, io_wakes = 0\<rparr>,
      tasks = (\<lambda>_. new_task option_waker f), woken = []\<rparr>"

lemmas state_consts = IDLE_def RUNNING_def COMPLETED_def CANCELLED_def NOTIFIED_def
lemmas task_updates = set_state_def set_fut_def register_def waker_wake_def

lemma state_consts_distinct [simp]:
  "IDLE \<noteq> RUNNING" "RUNNING \<noteq> IDLE" "IDLE \<noteq> COMPLETED" "COMPLETED \<noteq> IDLE" "IDLE \<noteq> CANCELLED" "CANCELLED \<noteq> IDLE"
  "IDLE \<noteq> NOTIFIED" "NOTIFIED \<noteq> IDLE" "RUNNING \<noteq> COMPLETED" "COMPLETED \<noteq> RUNNING" "RUNNING \<noteq> CANCELLED"
  "CANCELLED \<noteq> RUNNING" "RUNNING \<noteq> NOTIFIED" "NOTIFIED \<noteq> RUNNING" "COMPLETED \<noteq> CANCELLED" "CANCELLED \<noteq> COMPLETED"
  "COMPLETED \<noteq> NOTIFIED" "NOTIFIED \<noteq> COMPLETED" "CANCELLED \<noteq> NOTIFIED" "NOTIFIED \<noteq> CANCELLED"
  by (simp_all add: state_consts)

lemma option_waker_ok [simp]: "atomic_waker_spec option_waker"
  by (simp add: atomic_waker_spec_def option_waker_def)

lemma list_queue_ok [simp]: "linked_list_spec list_queue id"
  by (simp add: linked_list_spec_def list_queue_def split: list.split)

lemma set_state_simps [simp]:
  "state (tasks (set_state t s w) t) = s" "fut (tasks (set_state t s w) t) = fut (tasks w t)"
  "waker (tasks (set_state t s w) t) = waker (tasks w t)" "rt (set_state t s w) = rt w" "woken (set_state t s w) = woken w"
  by (simp_all add: set_state_def)

lemma set_fut_simps [simp]:
  "state (tasks (set_fut t j w) t) = state (tasks w t)" "fut (tasks (set_fut t j w) t) = j"
  "waker (tasks (set_fut t j w) t) = waker (tasks w t)" "rt (set_fut t j w) = rt w" "woken (set_fut t j w) = woken w"
  by (simp_all add: set_fut_def)

lemma waker_wake_simps [simp]:
  "state (tasks (waker_wake aw t w) t) = state (tasks w t)" "fut (tasks (waker_wake aw t w) t) = fut (tasks w t)"
  "rt (waker_wake aw t w) = rt w"
  "woken (waker_wake aw t w) = woken w @ opt_list (snd (aw_take aw (waker (tasks w t))))"
  by (simp_all add: waker_wake_def split: prod.split)

lemma register_simps [simp]:
  "state (tasks (register aw wk t w) t) = state (tasks w t)" "fut (tasks (register aw wk t w) t) = fut (tasks w t)"
  "waker (tasks (register aw wk t w) t) = aw_register aw wk (waker (tasks w t))" "rt (register aw wk t w) = rt w"
  by (simp_all add: register_def)

lemma finish_cancellation_simps [simp]:
  "state (tasks (finish_cancellation aw t w) t) = COMPLETED"
  "fut (tasks (finish_cancellation aw t w) t) = (case fut (tasks w t) of Future _ \<Rightarrow> Return (Inl Aborted) | j \<Rightarrow> j)"
  "rt (finish_cancellation aw t w) = rt w"
  "woken (finish_cancellation aw t w) = woken w @ opt_list (snd (aw_take aw (waker (tasks w t))))"
  by (simp_all add: finish_cancellation_def split: join_inner.split)

lemma try_update_simps [simp]:
  "f s = Some s' \<Longrightarrow> try_update f s = (Inr s, s')" "f s = None \<Longrightarrow> try_update f s = (Inl s, s)"
  by (simp_all add: try_update_def)

lemma update_tables [simp]:
  "run_start IDLE = Some RUNNING" "run_start RUNNING = Some NOTIFIED" "run_start COMPLETED = None"
  "run_start CANCELLED = None" "run_start NOTIFIED = None"
  "run_end RUNNING = Some IDLE" "run_end NOTIFIED = Some IDLE" "run_end COMPLETED = None" "run_end CANCELLED = None"
  "cancel_update COMPLETED = None" "cancel_update CANCELLED = None"
  "s \<noteq> COMPLETED \<Longrightarrow> s \<noteq> CANCELLED \<Longrightarrow> cancel_update s = Some CANCELLED"
  by (simp_all add: run_start_def run_end_def cancel_update_def)

subsection \<open>Waking a worker\<close>

lemma workers_okD:
  assumes "workers_ok r ws"
  shows "workers r = Some ws" "invar (parked_workers r)" "capacity (parked_workers r) = length ws"
    "i \<in> set (contents (parked_workers r)) \<Longrightarrow> i < length ws"
proof -
  show *: "workers r = Some ws" "invar (parked_workers r)" "capacity (parked_workers r) = length ws"
    using assms by (simp_all add: workers_ok_def)
  show "i < length ws" if "i \<in> set (contents (parked_workers r))"
    using that linked_bounds [OF invarD(1) [OF *(2)]] *(3) by (fastforce simp: contents_def capacity_def)
qed

lemma unpark_loop_ok:
  assumes "workers_ok r ws" "contents (parked_workers r) = is"
  shows "\<exists>m. invar m \<and> capacity m = length ws \<and>
    (case dropWhile (\<lambda>i. \<not> is_parked ws i) is of
       [] \<Rightarrow> contents m = [] \<and> unpark_loop r = Some (Inr (r\<lparr>parked_workers := m, io_wakes := io_wakes r + 1\<rparr>))
     | i # rest \<Rightarrow> contents m = rest \<and>
         unpark_loop r = Some (Inr (r\<lparr>parked_workers := m, workers := Some (notify_worker i ws)\<rparr>)))"
  using assms
proof (induction "is" arbitrary: r)
  case Nil
  note D = workers_okD [OF Nil(1)]
  from D(2) Nil(2) have "pop (parked_workers r) = Inr (Slot_None, parked_workers r)" by (rule sm.deq_none)
  then show ?case using D Nil(2) by (intro exI [of _ "parked_workers r"]) (simp add: unpark_loop.simps)
next
  case (Cons i "is")
  note D = workers_okD [OF Cons(2)]
  obtain m where m: "pop (parked_workers r) = Inr (Slot_Ready i, m)" "invar m" "contents m = is"
      "capacity m = length ws"
    using sm.deq_some [OF D(2) Cons(3)] D(3) by auto
  have i: "i < length ws" using D(4) [of i] Cons(3) by simp
  show ?case
  proof (cases "is_parked ws i")
    case True
    then have "unpark_loop r = Some (Inr (r\<lparr>parked_workers := m, workers := Some (notify_worker i ws)\<rparr>))"
      using i m(1) D(1) by (subst unpark_loop.simps) (simp add: is_parked_def notify_worker_def)
    with True m show ?thesis by (intro exI [of _ m]) simp
  next
    case False
    then have p: "parker (ws ! i) = None" by (metis is_parked_def not_Some_eq worker_waker.exhaust)
    have "unpark_loop r = unpark_loop (r\<lparr>parked_workers := m\<rparr>)"
      using i m(1) D(1) p by (subst unpark_loop.simps) simp
    moreover have "workers_ok (r\<lparr>parked_workers := m\<rparr>) ws" using D m by (simp add: workers_ok_def)
    ultimately show ?thesis using Cons.IH [of "r\<lparr>parked_workers := m\<rparr>"] m(3) False
      by (auto split: list.splits)
  qed
qed

lemma push_global_simps [simp]:
  "workers (push_global ll t r) = workers r" "parked_workers (push_global ll t r) = parked_workers r"
  "io_wakes (push_global ll t r) = io_wakes r"
  by (simp_all add: push_global_def)

lemma push_global_items:
  assumes "linked_list_spec ll items"
  shows "items (global_queue (push_global ll t r)) =
    items (global_queue r) @ (if t \<in> set (items (global_queue r)) then [] else [t])"
  using assms by (simp add: linked_list_spec_def push_global_def)

lemma workers_ok_push_global [simp]: "workers_ok (push_global ll t r) ws = workers_ok r ws"
  by (simp add: workers_ok_def)

lemma schedule_global_unpark:
  "unpark_loop (push_global ll t (rt w)) = Some (Inr r) \<Longrightarrow> schedule_global ll True t w = Some (Inr (w\<lparr>rt := r\<rparr>))"
  by (simp add: schedule_global_def Let_def)

lemma schedule_global_ok:
  assumes "linked_list_spec ll items" "free \<Longrightarrow> \<exists>ws. workers_ok (rt w) ws"
  shows "\<exists>r. schedule_global ll free t w = Some (Inr (w\<lparr>rt := r\<rparr>)) \<and>
    items (global_queue r) = items (global_queue (rt w)) @ (if t \<in> set (items (global_queue (rt w))) then [] else [t])"
proof (cases free)
  case True
  then obtain ws where "workers_ok (push_global ll t (rt w)) ws" using assms(2) by auto
  from unpark_loop_ok [OF this refl] obtain r1 where
    "unpark_loop (push_global ll t (rt w)) = Some (Inr r1)" "global_queue r1 = global_queue (push_global ll t (rt w))"
    by (fastforce split: list.splits)
  then show ?thesis using True push_global_items [OF assms(1)] schedule_global_unpark
    by (intro exI [of _ r1]) simp
next
  case False
  then show ?thesis using push_global_items [OF assms(1)]
    by (intro exI [of _ "push_global ll t (rt w)"]) (simp add: schedule_global_def Let_def)
qed

subsection \<open>The life of a task\<close>

lemma take_output_simps:
  "fut (tasks w t) = Return v \<Longrightarrow> take_output t w = (Some v, set_fut t (Return (Inl Aborted)) w)"
  "fut (tasks w t) = Future f \<Longrightarrow> take_output t w = (None, w)"
  by (simp_all add: take_output_def)

lemma join_poll_return:
  "fut (tasks w t) = Return v \<Longrightarrow> join_handle_poll aw wk t w = (Poll_Ready v, set_fut t (Return (Inl Aborted)) w)"
  by (simp add: join_handle_poll_def take_output_simps)

lemma join_poll_future:
  "fut (tasks w t) = Future f \<Longrightarrow> join_handle_poll aw wk t w = (Poll_Pending, register aw wk t w)"
  by (simp add: join_handle_poll_def take_output_simps)

lemma set_fut_twice [simp]: "set_fut t j (set_fut t i w) = set_fut t j w"
  by (simp add: set_fut_def)

lemma run_cancelled:
  "state (tasks w t) = CANCELLED \<Longrightarrow> run aw ll free fp g t w = Some (Inr (finish_cancellation aw t w))"
  by (simp add: run_def)

lemma run_inert:
  "state (tasks w t) \<in> {COMPLETED, NOTIFIED} \<Longrightarrow> run aw ll free fp g t w = Some (Inr w)"
  by (auto simp: run_def)

lemma run_notifies:
  "state (tasks w t) = RUNNING \<Longrightarrow> run aw ll free fp g t w = Some (Inr (set_state t NOTIFIED w))"
  by (simp add: run_def Let_def)

lemma run_ready:
  assumes "state (tasks w t) = IDLE" "join_inner_poll fp (fut (tasks w t)) = (j, Poll_Ready ())"
  shows "run aw ll free fp g t w =
    Some (Inr (waker_wake aw t (set_state t COMPLETED (g (set_fut t j (set_state t RUNNING w))))))"
  using assms by (simp add: run_def Let_def)

lemma run_pending:
  assumes "state (tasks w t) = IDLE" "join_inner_poll fp (fut (tasks w t)) = (j, Poll_Pending)"
    and "w2 = g (set_fut t j (set_state t RUNNING w))"
  shows "state (tasks w2 t) = RUNNING \<Longrightarrow> run aw ll free fp g t w = Some (Inr (set_state t IDLE w2))"
    "state (tasks w2 t) = NOTIFIED \<Longrightarrow> run aw ll free fp g t w = schedule_global ll free t (set_state t IDLE w2)"
    "state (tasks w2 t) = CANCELLED \<Longrightarrow> run aw ll free fp g t w = Some (Inr (finish_cancellation aw t w2))"
    "state (tasks w2 t) = COMPLETED \<Longrightarrow> run aw ll free fp g t w = Some (Inr w2)"
  using assms by (simp_all add: run_def Let_def)

subsection \<open>Properties\<close>

text \<open>
  schedule_global returns for every well-formed queue of parked workers: it queues the task unless
  it is linked, skips the entries of workers that are not parked, notifies the first parked one
  exactly once, and wakes the I/O driver when there is none.
\<close>

theorem schedule_global_wakes_first_parked:
  assumes "linked_list_spec ll items" "workers_ok (rt w) ws"
  shows "\<exists>r. schedule_global ll True t w = Some (Inr (w\<lparr>rt := r\<rparr>)) \<and>
    items (global_queue r) = items (global_queue (rt w)) @ (if t \<in> set (items (global_queue (rt w))) then [] else [t]) \<and>
    (case dropWhile (\<lambda>i. \<not> is_parked ws i) (contents (parked_workers (rt w))) of
       [] \<Rightarrow> io_wakes r = io_wakes (rt w) + 1 \<and> workers_ok r ws \<and> contents (parked_workers r) = []
     | i # rest \<Rightarrow> io_wakes r = io_wakes (rt w) \<and> workers_ok r (notify_worker i ws) \<and> contents (parked_workers r) = rest)"
proof -
  let ?r = "push_global ll t (rt w)"
  let ?parked = "dropWhile (\<lambda>i. \<not> is_parked ws i) (contents (parked_workers (rt w)))"
  have ws: "workers_ok ?r ws" using assms(2) by simp
  obtain m where m: "invar m" "capacity m = length ws"
    "case ?parked of
       [] \<Rightarrow> contents m = [] \<and> unpark_loop ?r = Some (Inr (?r\<lparr>parked_workers := m, io_wakes := io_wakes ?r + 1\<rparr>))
     | i # rest \<Rightarrow> contents m = rest \<and>
         unpark_loop ?r = Some (Inr (?r\<lparr>parked_workers := m, workers := Some (notify_worker i ws)\<rparr>))"
    using unpark_loop_ok [OF ws refl] by auto
  show ?thesis
  proof (cases ?parked)
    case Nil
    let ?r' = "?r\<lparr>parked_workers := m, io_wakes := io_wakes ?r + 1\<rparr>"
    have "schedule_global ll True t w = Some (Inr (w\<lparr>rt := ?r'\<rparr>))"
      by (rule schedule_global_unpark) (use m(3) in \<open>simp only: Nil list.case\<close>)
    moreover have "workers_ok ?r' ws" "contents (parked_workers ?r') = []"
      using m assms(2) unfolding Nil by (simp_all add: workers_ok_def)
    ultimately show ?thesis unfolding Nil using push_global_items [OF assms(1)] by (intro exI [of _ ?r']) simp
  next
    case (Cons i rest)
    let ?r' = "?r\<lparr>parked_workers := m, workers := Some (notify_worker i ws)\<rparr>"
    have "schedule_global ll True t w = Some (Inr (w\<lparr>rt := ?r'\<rparr>))"
      by (rule schedule_global_unpark) (use m(3) in \<open>simp only: Cons list.case\<close>)
    moreover have "workers_ok ?r' (notify_worker i ws)" "contents (parked_workers ?r') = rest"
      using m assms(2) unfolding Cons by (simp_all add: workers_ok_def notify_worker_def)
    ultimately show ?thesis unfolding Cons using push_global_items [OF assms(1)] by (intro exI [of _ ?r']) simp
  qed
qed

text \<open>
  A worker that runs an idle task whose future is ready, or panics, returns with the task COMPLETED,
  and the next poll of the join handle yields exactly that value or panic; a poll after that yields
  Aborted.
\<close>

theorem run_publishes_result:
  assumes "state (tasks w t) = IDLE" "fut (tasks w t) = Future f" "during_poll t g"
    and "fp f = (f', Fut_Ready x) \<and> v = Inr x \<or> fp f = (f', Fut_Panic p) \<and> v = Inl (Panic p)"
  shows "\<exists>w1 w2. run aw ll free fp g t w = Some (Inr w1) \<and> state (tasks w1 t) = COMPLETED \<and>
    join_handle_poll aw wk t w1 = (Poll_Ready v, w2) \<and>
    fst (join_handle_poll aw wk t w2) = Poll_Ready (Inl Aborted)"
proof -
  have "join_inner_poll fp (fut (tasks w t)) = (Return v, Poll_Ready ())" using assms(2,4) by auto
  note R = run_ready [where aw = aw and ll = ll and free = free and g = g, OF assms(1) this]
  let ?w = "waker_wake aw t (set_state t COMPLETED (g (set_fut t (Return v) (set_state t RUNNING w))))"
  have "fut (tasks ?w t) = Return v" using assms(3) by (simp add: during_poll_def)
  then show ?thesis using R by (simp add: join_poll_return)
qed

text \<open>
  A run whose future stays pending leaves the task IDLE; when a notification came in during the poll
  the task is in the global queue again, and when a cancellation came in it is COMPLETED with the
  result Aborted.
\<close>

theorem run_pending_requeues_or_aborts:
  assumes "linked_list_spec ll items" "state (tasks w t) = IDLE" "fut (tasks w t) = Future f"
    and "fp f = (f', Fut_Pending)" "during_poll t g" "w2 = g (set_fut t (Future f') (set_state t RUNNING w))"
    and "free \<longrightarrow> (\<exists>ws. workers_ok (rt w2) ws)"
  shows "\<exists>w'. run aw ll free fp g t w = Some (Inr w') \<and>
    (state (tasks w2 t) = RUNNING \<longrightarrow> state (tasks w' t) = IDLE \<and> fut (tasks w' t) = Future f' \<and> rt w' = rt w2) \<and>
    (state (tasks w2 t) = NOTIFIED \<longrightarrow> state (tasks w' t) = IDLE \<and> fut (tasks w' t) = Future f' \<and>
       t \<in> set (items (global_queue (rt w')))) \<and>
    (state (tasks w2 t) = CANCELLED \<longrightarrow> state (tasks w' t) = COMPLETED \<and> fut (tasks w' t) = Return (Inl Aborted))"
proof -
  have p: "join_inner_poll fp (fut (tasks w t)) = (Future f', Poll_Pending)" using assms(3,4) by simp
  note R = run_pending [where aw = aw and ll = ll and free = free and g = g and w = w, OF assms(2) p assms(6)]
  have f: "fut (tasks w2 t) = Future f'" using assms(5,6) by (simp add: during_poll_def)
  have "state (tasks w2 t) \<in> {RUNNING, NOTIFIED, CANCELLED}"
    using assms(5,6) by (simp add: during_poll_def)
  then consider "state (tasks w2 t) = RUNNING" | "state (tasks w2 t) = NOTIFIED" | "state (tasks w2 t) = CANCELLED"
    by blast
  then show ?thesis
  proof cases
    case 2
    obtain r where "schedule_global ll free t (set_state t IDLE w2) = Some (Inr ((set_state t IDLE w2)\<lparr>rt := r\<rparr>))"
      "t \<in> set (items (global_queue r))"
      using schedule_global_ok [OF assms(1), of free "set_state t IDLE w2" t] assms(7) by (auto split: if_splits)
    then show ?thesis using R(2) [OF 2] 2 f by (intro exI [of _ "(set_state t IDLE w2)\<lparr>rt := r\<rparr>"]) simp
  qed (use R f in simp_all)
qed

text \<open>
  Aborting a task that has not completed puts it in the global queue; the worker that then runs it
  wakes the waker the joiner registered, and the joiner's next poll yields Aborted.
\<close>

theorem abort_wakes_joiner:
  assumes "linked_list_spec ll items" "atomic_waker_spec aw" "free \<longrightarrow> (\<exists>ws. workers_ok (rt w) ws)"
    and "state (tasks w t) \<notin> {COMPLETED, CANCELLED}" "fut (tasks w t) = Future f"
  shows "\<exists>w1 w2. abort ll free t (snd (join_handle_poll aw wk t w)) = Some (Inr w1) \<and>
    t \<in> set (items (global_queue (rt w1))) \<and> run aw ll free fp g t w1 = Some (Inr w2) \<and>
    woken w2 = woken w @ [wk] \<and> fst (join_handle_poll aw wk' t w2) = Poll_Ready (Inl Aborted)"
proof -
  let ?w0 = "register aw wk t w"
  let ?w1 = "set_state t CANCELLED ?w0"
  have "abort ll free t ?w0 = schedule_global ll free t ?w1"
    using assms(4) by (simp add: abort_def cancel_def)
  moreover obtain r where r: "schedule_global ll free t ?w1 = Some (Inr (?w1\<lparr>rt := r\<rparr>))"
      "t \<in> set (items (global_queue r))"
    using schedule_global_ok [OF assms(1), of free ?w1 t] assms(3) by (auto split: if_splits)
  moreover have "run aw ll free fp g t (?w1\<lparr>rt := r\<rparr>) = Some (Inr (finish_cancellation aw t (?w1\<lparr>rt := r\<rparr>)))"
    by (rule run_cancelled) simp
  moreover have "woken (finish_cancellation aw t (?w1\<lparr>rt := r\<rparr>)) = woken w @ [wk]"
    using assms(2) by (simp add: atomic_waker_spec_def) (simp add: register_def)
  moreover have "fst (join_handle_poll aw wk' t (finish_cancellation aw t (?w1\<lparr>rt := r\<rparr>))) = Poll_Ready (Inl Aborted)"
    using assms(5) by (simp add: join_poll_return)
  ultimately show ?thesis by (simp add: join_poll_future [OF assms(5)])
qed

text \<open>
  A completed task keeps its result: abort and run change nothing, finishing a cancellation keeps
  the stored value, and the joiner still gets it.
\<close>

theorem completed_task_keeps_result:
  assumes "state (tasks w t) = COMPLETED" "fut (tasks w t) = Return v"
  shows "abort ll free t w = Some (Inr w) \<and> run aw ll free fp g t w = Some (Inr w) \<and>
    fut (tasks (finish_cancellation aw t w) t) = Return v \<and> fst (join_handle_poll aw wk t w) = Poll_Ready v"
  using assms by (simp add: abort_def cancel_def run_inert join_poll_return)

subsection \<open>Witnesses\<close>

lemma sample_workers_ok:
  "workers_ok (rt (sample_world f)) [\<lparr>parker = Some Parked, notifies = 0\<rparr>, \<lparr>parker = None, notifies = 0\<rparr>]"
  by (simp add: workers_ok_def sample_world_def invar_def nodes_def capacity_def numeral_eq_Suc)

lemma sample_task [simp]:
  "state (tasks (sample_world f) t) = IDLE" "fut (tasks (sample_world f) t) = Future f"
  by (simp_all add: sample_world_def new_task_def IDLE_def)

theorem schedule_global_wakes_first_parked_witness:
  "\<exists>r. schedule_global list_queue True 5 (sample_world 0) = Some (Inr ((sample_world 0)\<lparr>rt := r\<rparr>)) \<and>
     global_queue r = [5] \<and> io_wakes r = 0"
proof -
  have "contents (parked_workers (rt (sample_world 0))) = [0]"
    by (simp add: sample_world_def contents_def nodes_def capacity_def numeral_eq_Suc)
  moreover have "global_queue (rt (sample_world 0)) = []" "io_wakes (rt (sample_world 0)) = 0"
    by (simp_all add: sample_world_def)
  ultimately show ?thesis
    using schedule_global_wakes_first_parked [OF list_queue_ok sample_workers_ok [of 0], of 5]
    by (simp add: is_parked_def) blast
qed

theorem run_publishes_result_witness:
  "\<exists>w1 w2. run option_waker list_queue True sample_future (\<lambda>w. w) 0 (sample_world 0) = Some (Inr w1) \<and>
     state (tasks w1 0) = COMPLETED \<and> join_handle_poll option_waker 9 0 w1 = (Poll_Ready (Inr 42), w2)"
proof -
  have "during_poll 0 (\<lambda>w :: (nat, nat, nat option, nat list) world. w)" by (simp add: during_poll_def)
  from run_publishes_result [of "sample_world 0" 0 0, OF _ _ this, of sample_future 0 42 "Inr 42" "[]" option_waker list_queue True 9]
  show ?thesis by (auto simp: sample_future_def)
qed

theorem run_pending_requeues_or_aborts_witness:
  "\<exists>w'. run option_waker list_queue True sample_future (set_state 0 NOTIFIED) 0 (sample_world 3) = Some (Inr w') \<and>
     state (tasks w' 0) = IDLE \<and> 0 \<in> set (global_queue (rt w'))"
proof -
  have "during_poll 0 (set_state 0 NOTIFIED :: (nat, nat, nat option, nat list) world \<Rightarrow> _)"
    by (simp add: during_poll_def)
  from run_pending_requeues_or_aborts [OF list_queue_ok, of "sample_world 3" 0 3, OF _ _ _ this refl,
      of sample_future 2 True option_waker] sample_workers_ok [of 3]
  show ?thesis by (auto simp: sample_future_def)
qed

theorem abort_wakes_joiner_witness:
  "\<exists>w1 w2. abort list_queue True 0 (snd (join_handle_poll option_waker 9 0 (sample_world 3))) = Some (Inr w1) \<and>
     run option_waker list_queue True sample_future (\<lambda>w. w) 0 w1 = Some (Inr w2) \<and> 9 \<in> set (woken w2)"
proof -
  have "\<exists>ws. workers_ok (rt (sample_world 3)) ws" using sample_workers_ok [of 3] by blast
  with abort_wakes_joiner [OF list_queue_ok option_waker_ok, of True "sample_world 3" 0 3 9 sample_future "\<lambda>w. w" 9]
  show ?thesis by fastforce
qed

theorem completed_task_keeps_result_witness:
  "abort list_queue True 0 (set_state 0 COMPLETED (set_fut 0 (Return (Inr 1)) (sample_world 3))) =
     Some (Inr (set_state 0 COMPLETED (set_fut 0 (Return (Inr 1)) (sample_world 3))))"
  using completed_task_keeps_result [of "set_state 0 COMPLETED (set_fut 0 (Return (Inr 1)) (sample_world 3))" 0 "Inr 1" list_queue True]
  by simp

end
