(* ===== verification/Task_Conc.thy ===== *)
theory Task_Conc
  imports Task
begin

text \<open>
  One task of \<^verbatim>\<open>src/src/task.rs\<close> and its join handle under interleaving. Each atomic access
  of the state byte, each acquisition and release of the future's lock, each access of the cell under it, each
  queue operation and each operation on the join waker is one step; any number of threads run,
  wake and cancel the task. A call made from within a poll is the step of another thread, since only its order
  matters. \<open>linked\<close> is the link of the task in the global queue and \<open>locals\<close> the number of its entries
  in local queues. The atomics are sequentially consistent here. \<open>notified\<close>, \<open>cancel_called\<close>, \<open>final\<close> and \<open>delivered\<close> are
  history: a wake came in since the last poll began, \<^verbatim>\<open>cancel\<close> was called, whatever it did, the first result stored, and
  what the handle returned.
\<close>

datatype tpc =
    T_Idle
  | T_Run             \<comment> \<open>taken from a queue, before the first update of the state\<close>
  | T_Lock            \<comment> \<open>IDLE became RUNNING, before the lock\<close>
  | T_Poll            \<comment> \<open>holds the lock, polling\<close>
  | T_Store           \<comment> \<open>the poll was ready, before the store of COMPLETED\<close>
  | T_Drop            \<comment> \<open>before the release of the lock\<close>
  | T_Wake            \<comment> \<open>before the wake of the joiner\<close>
  | T_Unlock          \<comment> \<open>the poll was pending, before the release of the lock\<close>
  | T_Update          \<comment> \<open>before the second update of the state\<close>
  | T_Schedule        \<comment> \<open>before the push on the global queue\<close>
  | F_Lock            \<comment> \<open>finish_cancellation, before the lock\<close>
  | F_Set
  | F_Store
  | F_Drop

datatype jpc =
    J_Idle
  | J_Register nat    \<comment> \<open>no output at the first look, before the registration\<close>
  | J_Recheck         \<comment> \<open>registered, before the second look\<close>
  | J_Pending         \<comment> \<open>the poll returned Pending\<close>

record ('f, 'o, 'aw) tconc =
  st :: u8
  cell :: "('f, 'o) join_inner"
  jw :: 'aw
  holder :: "nat option"
  pc :: "nat \<Rightarrow> tpc"
  linked :: bool
  locals :: nat
  jpc :: jpc
  jwaker :: nat
  jwoken :: bool
  notified :: bool
  cancel_called :: bool
  final :: "(join_error + 'o) option"
  delivered :: "(join_error + 'o) list"

definition at_pc :: "nat \<Rightarrow> tpc \<Rightarrow> ('f, 'o, 'aw) tconc \<Rightarrow> ('f, 'o, 'aw) tconc" where
  "at_pc t p s = s\<lparr>pc := (pc s)(t := p)\<rparr>"

fun abort_cell :: "('f, 'o) join_inner \<Rightarrow> ('f, 'o) join_inner" where
  "abort_cell (Future _) = Return (Inl Aborted)"
| "abort_cell (Return v) = Return v"

text \<open>The first result stored.\<close>

fun first_result :: "('f, 'o) join_inner \<Rightarrow> (join_error + 'o) option \<Rightarrow> (join_error + 'o) option" where
  "first_result (Return v) None = Some v"
| "first_result _ r = r"

definition tconc_init :: "'aw atomic_waker_ops \<Rightarrow> 'f \<Rightarrow> ('f, 'o, 'aw) tconc" where
  "tconc_init aw f =
     \<lparr>st = state (new_task aw f :: ('f, 'o, 'aw) task), cell = fut (new_task aw f :: ('f, 'o, 'aw) task),
      jw = waker (new_task aw f :: ('f, 'o, 'aw) task), holder = None,
      pc = (\<lambda>_. T_Idle), linked = False, locals = 0, jpc = J_Idle, jwaker = 0, jwoken = False,
      notified = False, cancel_called = False, final = None, delivered = []\<rparr>"

inductive tstep :: "'aw atomic_waker_ops \<Rightarrow> ('f \<Rightarrow> 'f \<times> 'o fut_poll) \<Rightarrow> ('f, 'o, 'aw) tconc \<Rightarrow> ('f, 'o, 'aw) tconc \<Rightarrow> bool"
  for aw :: "'aw atomic_waker_ops" and fp :: "'f \<Rightarrow> 'f \<times> 'o fut_poll" where
  wake_local: "tstep aw fp s (s\<lparr>locals := Suc (locals s), notified := True\<rparr>)"
| wake_global: "tstep aw fp s (s\<lparr>linked := True, notified := True\<rparr>)"
| fetch: "linked s \<Longrightarrow> tstep aw fp s (s\<lparr>linked := False, locals := Suc (locals s)\<rparr>)"
| take_task: "pc s t = T_Idle \<Longrightarrow> locals s = Suc k \<Longrightarrow> tstep aw fp s (at_pc t T_Run (s\<lparr>locals := k\<rparr>))"
| cancel_ok: "pc s t = T_Idle \<Longrightarrow> cancel_update (st s) = Some x \<Longrightarrow> tstep aw fp s (at_pc t T_Schedule (s\<lparr>st := x, cancel_called := True\<rparr>))"
| cancel_err: "pc s t = T_Idle \<Longrightarrow> cancel_update (st s) = None \<Longrightarrow> tstep aw fp s (s\<lparr>cancel_called := True\<rparr>)"
| schedule: "pc s t = T_Schedule \<Longrightarrow> tstep aw fp s (at_pc t T_Idle (s\<lparr>linked := True\<rparr>))"
| run_ok_idle: "pc s t = T_Run \<Longrightarrow> run_start (st s) = Some x \<Longrightarrow> st s = IDLE \<Longrightarrow>
    tstep aw fp s (at_pc t T_Lock (s\<lparr>st := x\<rparr>))"
| run_ok_other: "pc s t = T_Run \<Longrightarrow> run_start (st s) = Some x \<Longrightarrow> st s \<noteq> IDLE \<Longrightarrow>
    tstep aw fp s (at_pc t T_Idle (s\<lparr>st := x\<rparr>))"
| run_err_cancelled: "pc s t = T_Run \<Longrightarrow> run_start (st s) = None \<Longrightarrow> st s = CANCELLED \<Longrightarrow>
    tstep aw fp s (at_pc t F_Lock s)"
| run_err_other: "pc s t = T_Run \<Longrightarrow> run_start (st s) = None \<Longrightarrow> st s \<noteq> CANCELLED \<Longrightarrow>
    tstep aw fp s (at_pc t T_Idle s)"
| lock: "pc s t = T_Lock \<Longrightarrow> holder s = None \<Longrightarrow>
    tstep aw fp s (at_pc t T_Poll (s\<lparr>holder := Some t, notified := False\<rparr>))"
| poll_ready: "pc s t = T_Poll \<Longrightarrow> join_inner_poll fp (cell s) = (j, Poll_Ready ()) \<Longrightarrow>
    tstep aw fp s (at_pc t T_Store (s\<lparr>cell := j, final := first_result j (final s)\<rparr>))"
| poll_pending: "pc s t = T_Poll \<Longrightarrow> join_inner_poll fp (cell s) = (j, Poll_Pending) \<Longrightarrow>
    tstep aw fp s (at_pc t T_Unlock (s\<lparr>cell := j\<rparr>))"
| store: "pc s t = T_Store \<Longrightarrow> tstep aw fp s (at_pc t T_Drop (s\<lparr>st := COMPLETED\<rparr>))"
| drop_ready: "pc s t = T_Drop \<Longrightarrow> tstep aw fp s (at_pc t T_Wake (s\<lparr>holder := None\<rparr>))"
| wake_joiner: "pc s t = T_Wake \<Longrightarrow> aw_take aw (jw s) = (a, w) \<Longrightarrow>
    tstep aw fp s (at_pc t T_Idle (s\<lparr>jw := a, jwoken := (jwoken s \<or> w = Some (jwaker s))\<rparr>))"
| drop_pending: "pc s t = T_Unlock \<Longrightarrow> tstep aw fp s (at_pc t T_Update (s\<lparr>holder := None\<rparr>))"
| update_ok_notified: "pc s t = T_Update \<Longrightarrow> run_end (st s) = Some x \<Longrightarrow> st s = NOTIFIED \<Longrightarrow>
    tstep aw fp s (at_pc t T_Schedule (s\<lparr>st := x\<rparr>))"
| update_ok_other: "pc s t = T_Update \<Longrightarrow> run_end (st s) = Some x \<Longrightarrow> st s \<noteq> NOTIFIED \<Longrightarrow>
    tstep aw fp s (at_pc t T_Idle (s\<lparr>st := x\<rparr>))"
| update_err_cancelled: "pc s t = T_Update \<Longrightarrow> run_end (st s) = None \<Longrightarrow> st s = CANCELLED \<Longrightarrow>
    tstep aw fp s (at_pc t F_Lock s)"
| update_err_other: "pc s t = T_Update \<Longrightarrow> run_end (st s) = None \<Longrightarrow> st s \<noteq> CANCELLED \<Longrightarrow>
    tstep aw fp s (at_pc t T_Idle s)"
| fin_lock: "pc s t = F_Lock \<Longrightarrow> holder s = None \<Longrightarrow> tstep aw fp s (at_pc t F_Set (s\<lparr>holder := Some t\<rparr>))"
| fin_set: "pc s t = F_Set \<Longrightarrow>
    tstep aw fp s (at_pc t F_Store (s\<lparr>cell := abort_cell (cell s), final := first_result (abort_cell (cell s)) (final s)\<rparr>))"
| fin_store: "pc s t = F_Store \<Longrightarrow> tstep aw fp s (at_pc t F_Drop (s\<lparr>st := COMPLETED\<rparr>))"
| fin_drop: "pc s t = F_Drop \<Longrightarrow> tstep aw fp s (at_pc t T_Wake (s\<lparr>holder := None\<rparr>))"
| join_take: "jpc s = J_Idle \<or> jpc s = J_Pending \<or> jpc s = J_Recheck \<Longrightarrow> holder s = None \<Longrightarrow> cell s = Return v \<Longrightarrow>
    tstep aw fp s (s\<lparr>cell := Return (Inl Aborted), delivered := delivered s @ [v], jpc := J_Idle\<rparr>)"
| join_first: "jpc s = J_Idle \<or> jpc s = J_Pending \<Longrightarrow> holder s = None \<Longrightarrow> cell s = Future f \<Longrightarrow>
    tstep aw fp s (s\<lparr>jpc := J_Register w\<rparr>)"
| join_register: "jpc s = J_Register w \<Longrightarrow>
    tstep aw fp s (s\<lparr>jw := aw_register aw w (jw s), jwaker := w, jwoken := False, jpc := J_Recheck\<rparr>)"
| join_second: "jpc s = J_Recheck \<Longrightarrow> holder s = None \<Longrightarrow> cell s = Future f \<Longrightarrow>
    tstep aw fp s (s\<lparr>jpc := J_Pending\<rparr>)"

abbreviation task_reaches ::
    "'aw atomic_waker_ops \<Rightarrow> ('f \<Rightarrow> 'f \<times> 'o fut_poll) \<Rightarrow> ('f, 'o, 'aw) tconc \<Rightarrow> bool" where
  "task_reaches aw fp \<equiv> reaches (\<lambda>s. \<exists>f. s = tconc_init aw f) (tstep aw fp)"

subsection \<open>The invariant\<close>

text \<open>The threads that own the poll, hold the lock, or will still wake the joiner.\<close>

fun owner_pc :: "tpc \<Rightarrow> bool" where
  "owner_pc T_Lock = True" | "owner_pc T_Poll = True" | "owner_pc T_Store = True"
| "owner_pc T_Unlock = True" | "owner_pc T_Update = True" | "owner_pc _ = False"

fun lock_pc :: "tpc \<Rightarrow> bool" where
  "lock_pc T_Poll = True" | "lock_pc T_Store = True" | "lock_pc T_Drop = True" | "lock_pc T_Unlock = True"
| "lock_pc F_Set = True" | "lock_pc F_Store = True" | "lock_pc F_Drop = True" | "lock_pc _ = False"

fun waking_pc :: "tpc \<Rightarrow> bool" where
  "waking_pc T_Store = True" | "waking_pc T_Drop = True" | "waking_pc T_Wake = True"
| "waking_pc F_Store = True" | "waking_pc F_Drop = True" | "waking_pc _ = False"

text \<open>The threads that have stored a result but not the state, that will finish a cancellation, that will poll again.\<close>

fun storing_pc :: "tpc \<Rightarrow> bool" where
  "storing_pc T_Store = True" | "storing_pc F_Store = True" | "storing_pc _ = False"

fun cancelling_pc :: "tpc \<Rightarrow> bool" where
  "cancelling_pc T_Run = True" | "cancelling_pc T_Schedule = True" | "cancelling_pc F_Lock = True"
| "cancelling_pc F_Set = True" | "cancelling_pc F_Store = True" | "cancelling_pc p = owner_pc p"

fun notifying_pc :: "tpc \<Rightarrow> bool" where
  "notifying_pc T_Run = True" | "notifying_pc T_Schedule = True" | "notifying_pc T_Lock = True"
| "notifying_pc _ = False"

definition some_pc :: "(tpc \<Rightarrow> bool) \<Rightarrow> (nat \<Rightarrow> tpc) \<Rightarrow> bool" where
  "some_pc P f \<longleftrightarrow> (\<exists>t. P (f t))"

definition queued :: "('f, 'o, 'aw) tconc \<Rightarrow> bool" where
  "queued s \<longleftrightarrow> linked s \<or> 0 < locals s"

definition is_return :: "('f, 'o) join_inner \<Rightarrow> bool" where
  "is_return j \<longleftrightarrow> (case j of Return _ \<Rightarrow> True | Future _ \<Rightarrow> False)"

definition state_ok :: "u8 \<Rightarrow> bool" where
  "state_ok x \<longleftrightarrow> x \<in> {IDLE, RUNNING, COMPLETED, CANCELLED, NOTIFIED}"

definition lock_ok :: "nat option \<Rightarrow> (nat \<Rightarrow> tpc) \<Rightarrow> bool" where
  "lock_ok h f \<longleftrightarrow> (\<forall>t. h = Some t \<longleftrightarrow> lock_pc (f t))"

definition owner_ok :: "u8 \<Rightarrow> (nat \<Rightarrow> tpc) \<Rightarrow> bool" where
  "owner_ok x f \<longleftrightarrow> (\<forall>t u. owner_pc (f t) \<longrightarrow> owner_pc (f u) \<longrightarrow> t = u) \<and>
     (x = IDLE \<longrightarrow> \<not> some_pc owner_pc f) \<and> (x = RUNNING \<or> x = NOTIFIED \<longrightarrow> some_pc owner_pc f)"

definition cell_ok :: "('f, 'o, 'aw) tconc \<Rightarrow> bool" where
  "cell_ok s \<longleftrightarrow> (is_return (cell s) \<longleftrightarrow> st s = COMPLETED \<or> some_pc storing_pc (pc s))"

definition cancel_safe :: "('f, 'o, 'aw) tconc \<Rightarrow> bool" where
  "cancel_safe s \<longleftrightarrow> (st s = CANCELLED \<longrightarrow> queued s \<or> some_pc cancelling_pc (pc s))"

definition cancel_kept :: "('f, 'o, 'aw) tconc \<Rightarrow> bool" where
  "cancel_kept s \<longleftrightarrow> (cancel_called s \<longrightarrow> st s = CANCELLED \<or> st s = COMPLETED)"

definition notify_safe :: "('f, 'o, 'aw) tconc \<Rightarrow> bool" where
  "notify_safe s \<longleftrightarrow> (notified s \<longrightarrow> queued s \<or> st s = COMPLETED \<or> st s = CANCELLED \<or> st s = NOTIFIED \<or>
     some_pc notifying_pc (pc s))"

definition join_safe :: "'aw atomic_waker_ops \<Rightarrow> ('f, 'o, 'aw) tconc \<Rightarrow> bool" where
  "join_safe aw s \<longleftrightarrow>
     (jpc s = J_Recheck \<or> jpc s = J_Pending \<longrightarrow> jwoken s \<or> snd (aw_take aw (jw s)) = Some (jwaker s)) \<and>
     (jpc s = J_Pending \<longrightarrow> is_return (cell s) \<longrightarrow> jwoken s \<or> some_pc waking_pc (pc s))"

definition result_ok :: "('f, 'o, 'aw) tconc \<Rightarrow> bool" where
  "result_ok s \<longleftrightarrow> (case cell s of
       Future _ \<Rightarrow> final s = None \<and> delivered s = []
     | Return v \<Rightarrow> (\<exists>r. final s = Some r \<and>
         (delivered s = [] \<and> v = r \<or> (\<exists>n. delivered s = r # replicate n (Inl Aborted)) \<and> v = Inl Aborted)))"

definition task_inv :: "'aw atomic_waker_ops \<Rightarrow> ('f, 'o, 'aw) tconc \<Rightarrow> bool" where
  "task_inv aw s \<longleftrightarrow> state_ok (st s) \<and> lock_ok (holder s) (pc s) \<and> owner_ok (st s) (pc s) \<and> cell_ok s \<and>
     cancel_safe s \<and> notify_safe s \<and> join_safe aw s \<and> result_ok s \<and> cancel_kept s"

text \<open>How far a thread is from being done with the task.\<close>

fun pc_rank :: "tpc \<Rightarrow> nat" where
  "pc_rank T_Idle = 0" | "pc_rank T_Run = 10" | "pc_rank T_Lock = 9" | "pc_rank T_Poll = 8" | "pc_rank T_Store = 7"
| "pc_rank T_Drop = 2" | "pc_rank T_Wake = 1" | "pc_rank T_Unlock = 7" | "pc_rank T_Update = 6" | "pc_rank T_Schedule = 1"
| "pc_rank F_Lock = 5" | "pc_rank F_Set = 4" | "pc_rank F_Store = 3" | "pc_rank F_Drop = 2"

text \<open>States of a run: the joiner waits, the poll of the future is ready, everything is done, the result is delivered.\<close>

definition sample_pending :: "(nat, nat, nat option) tconc" where
  "sample_pending =
     \<lparr>st = IDLE, cell = Future 0, jw = Some 9, holder = None, pc = (\<lambda>_. T_Idle), linked = False, locals = 0,
      jpc = J_Pending, jwaker = 9, jwoken = False, notified = False, cancel_called = False, final = None, delivered = []\<rparr>"

definition sample_stored :: "(nat, nat, nat option) tconc" where
  "sample_stored = sample_pending\<lparr>st := RUNNING, cell := Return (Inr 42), holder := Some 1,
     pc := (\<lambda>_. T_Idle)(1 := T_Store), final := Some (Inr 42)\<rparr>"

definition sample_finished :: "(nat, nat, nat option) tconc" where
  "sample_finished = sample_pending\<lparr>st := COMPLETED, cell := Return (Inr 42), jw := None, jwoken := True, final := Some (Inr 42)\<rparr>"

definition sample_cancelled :: "(nat, nat, nat option) tconc" where
  "sample_cancelled = sample_pending\<lparr>st := COMPLETED, cell := Return (Inl Aborted), jw := None, jwoken := True,
     cancel_called := True, final := Some (Inl Aborted)\<rparr>"

definition sample_delivered :: "(nat, nat, nat option) tconc" where
  "sample_delivered = sample_finished\<lparr>cell := Return (Inl Aborted), delivered := [Inr 42], jpc := J_Idle\<rparr>"

lemmas updates = run_start_def run_end_def cancel_update_def

lemma some_pc_upd:
  "P p \<Longrightarrow> some_pc P (f(t := p))"
  "P p = P (f t) \<Longrightarrow> some_pc P (f(t := p)) = some_pc P f"
  by (auto simp: some_pc_def)

lemma some_storing: "f t = T_Store \<Longrightarrow> some_pc storing_pc f" "f t = F_Store \<Longrightarrow> some_pc storing_pc f"
  by (auto simp: some_pc_def intro: exI [of _ t])

lemma lock_ok_upd:
  "lock_ok h f \<Longrightarrow> lock_pc p = lock_pc (f t) \<Longrightarrow> lock_ok h (f(t := p))"
  "lock_ok None f \<Longrightarrow> lock_pc p \<Longrightarrow> lock_ok (Some t) (f(t := p))"
  "lock_ok h f \<Longrightarrow> lock_pc (f t) \<Longrightarrow> \<not> lock_pc p \<Longrightarrow> lock_ok None (f(t := p))"
  unfolding lock_ok_def by (simp_all, metis option.inject)

lemma owner_ok_upd:
  "owner_ok x f \<Longrightarrow> owner_pc p = owner_pc (f t) \<Longrightarrow> owner_ok x (f(t := p))"
  "owner_ok IDLE f \<Longrightarrow> owner_pc p \<Longrightarrow> owner_ok RUNNING (f(t := p))"
  "owner_ok x f \<Longrightarrow> owner_pc (f t) \<Longrightarrow> \<not> owner_pc p \<Longrightarrow> y \<noteq> RUNNING \<Longrightarrow> y \<noteq> NOTIFIED \<Longrightarrow> owner_ok y (f(t := p))"
  "owner_ok RUNNING f \<Longrightarrow> owner_ok NOTIFIED f"
  "owner_ok x f \<Longrightarrow> owner_ok CANCELLED f"
  "owner_ok x f \<Longrightarrow> owner_ok COMPLETED f"
  unfolding owner_ok_def some_pc_def by (auto simp: state_consts)

lemma at_pc_simps [simp]:
  "st (at_pc t p s) = st s" "cell (at_pc t p s) = cell s" "jw (at_pc t p s) = jw s" "holder (at_pc t p s) = holder s"
  "pc (at_pc t p s) = (pc s)(t := p)" "linked (at_pc t p s) = linked s" "locals (at_pc t p s) = locals s"
  "jpc (at_pc t p s) = jpc s" "jwaker (at_pc t p s) = jwaker s" "jwoken (at_pc t p s) = jwoken s"
  "notified (at_pc t p s) = notified s" "cancel_called (at_pc t p s) = cancel_called s" "final (at_pc t p s) = final s" "delivered (at_pc t p s) = delivered s"
  by (simp_all add: at_pc_def)

lemma is_return_simps [simp]: "is_return (Return v)" "\<not> is_return (Future f)" "is_return (abort_cell j)"
  by (simp_all add: is_return_def split: join_inner.split) (cases j; simp)

lemma poll_ready_cell:
  assumes "join_inner_poll fp c = (j, Poll_Ready ())"
  shows "\<exists>f v. c = Future f \<and> j = Return v"
  using assms by (cases c) (auto split: prod.splits fut_poll.splits)

lemma poll_pending_cell:
  assumes "join_inner_poll fp c = (j, Poll_Pending)"
  shows "is_return j = is_return c \<and> (is_return c \<longrightarrow> j = c)"
  using assms by (cases c) (auto split: prod.splits fut_poll.splits)

lemma state_ok_step: "tstep aw fp s s' \<Longrightarrow> state_ok (st s) \<Longrightarrow> state_ok (st s')"
  by (erule tstep.cases; hypsubst; auto simp: state_ok_def updates split: if_splits)

lemma lock_ok_step: "tstep aw fp s s' \<Longrightarrow> lock_ok (holder s) (pc s) \<Longrightarrow> lock_ok (holder s') (pc s')"
  by (erule tstep.cases; hypsubst; simp add: lock_ok_upd)

lemma cancel_safe_step: "tstep aw fp s s' \<Longrightarrow> cancel_safe s \<Longrightarrow> cancel_safe s'"
  by (erule tstep.cases; hypsubst; simp add: cancel_safe_def queued_def some_pc_upd updates split: if_splits)

lemma cancel_kept_step: "tstep aw fp s s' \<Longrightarrow> cancel_kept s \<Longrightarrow> cancel_kept s'"
  by (erule tstep.cases; hypsubst; auto simp: cancel_kept_def updates state_consts split: if_splits)

lemma notify_safe_step: "tstep aw fp s s' \<Longrightarrow> state_ok (st s) \<Longrightarrow> notify_safe s \<Longrightarrow> notify_safe s'"
  by (erule tstep.cases; hypsubst; auto simp: notify_safe_def queued_def some_pc_upd updates state_ok_def split: if_splits)

lemma owner_ok_step: "tstep aw fp s s' \<Longrightarrow> owner_ok (st s) (pc s) \<Longrightarrow> owner_ok (st s') (pc s')"
  by (erule tstep.cases; hypsubst; simp add: owner_ok_upd updates split: if_splits)

lemma cell_ok_step: "tstep aw fp s s' \<Longrightarrow> cell_ok s \<Longrightarrow> cell_ok s'"
  by (erule tstep.cases; hypsubst; auto simp: cell_ok_def some_pc_upd updates dest: poll_ready_cell poll_pending_cell some_storing split: if_splits)

lemma join_safe_step:
  assumes "atomic_waker_spec aw"
  shows "tstep aw fp s s' \<Longrightarrow> join_safe aw s \<Longrightarrow> join_safe aw s'"
proof (erule tstep.cases; hypsubst)
  fix t a w
  assume "join_safe aw s" "pc s t = T_Wake" "aw_take aw (jw s) = (a, w)"
  then show "join_safe aw (at_pc t T_Idle (s\<lparr>jw := a, jwoken := jwoken s \<or> w = Some (jwaker s)\<rparr>))"
    by (auto simp: join_safe_def)
next
  fix w
  assume "jpc s = J_Register w"
  then show "join_safe aw (s\<lparr>jw := aw_register aw w (jw s), jwaker := w, jwoken := False, jpc := J_Recheck\<rparr>)"
    using assms by (simp add: join_safe_def atomic_waker_spec_def)
qed (auto simp: join_safe_def some_pc_upd dest: poll_pending_cell split: if_splits)

lemma replicate_snoc: "\<exists>m. replicate n x @ [x] = replicate m x"
  by (metis replicate_Suc replicate_append_same)

lemma result_ok_step: "tstep aw fp s s' \<Longrightarrow> result_ok s \<Longrightarrow> result_ok s'"
proof (erule tstep.cases; hypsubst)
  fix t j
  assume "result_ok s" "join_inner_poll fp (cell s) = (j, Poll_Ready ())"
  then show "result_ok (at_pc t T_Store (s\<lparr>cell := j, final := first_result j (final s)\<rparr>))"
    by (auto simp: result_ok_def dest!: poll_ready_cell)
next
  fix t j
  assume "result_ok s" "join_inner_poll fp (cell s) = (j, Poll_Pending)"
  then show "result_ok (at_pc t T_Unlock (s\<lparr>cell := j\<rparr>))"
    by (cases "cell s"; cases j) (auto simp: result_ok_def split: prod.splits fut_poll.splits)
next
  fix t
  assume "result_ok s"
  then show "result_ok (at_pc t F_Store (s\<lparr>cell := abort_cell (cell s), final := first_result (abort_cell (cell s)) (final s)\<rparr>))"
    by (cases "cell s") (auto simp: result_ok_def)
next
  fix v
  assume "result_ok s" "cell s = Return v"
  then show "result_ok (s\<lparr>cell := Return (Inl Aborted), delivered := delivered s @ [v], jpc := J_Idle\<rparr>)"
    by (auto simp: result_ok_def replicate_snoc intro: exI [of _ 0])
qed (simp_all add: result_ok_def cong: join_inner.case_cong)

lemma first_result_Some [simp]: "first_result j (Some r) = Some r"
  by (cases j) simp_all

lemma task_inv_init: "atomic_waker_spec aw \<Longrightarrow> task_inv aw (tconc_init aw f)"
  by (simp add: task_inv_def tconc_init_def new_task_def state_ok_def lock_ok_def owner_ok_def cell_ok_def cancel_safe_def
      notify_safe_def join_safe_def result_ok_def cancel_kept_def some_pc_def state_consts is_return_def)

lemma task_inv_step:
  assumes "atomic_waker_spec aw" "task_inv aw s" "tstep aw fp s s'"
  shows "task_inv aw s'"
  using assms(2) state_ok_step [OF assms(3)] lock_ok_step [OF assms(3)] owner_ok_step [OF assms(3)] cell_ok_step [OF assms(3)]
    cancel_safe_step [OF assms(3)] notify_safe_step [OF assms(3)] join_safe_step [OF assms(1,3)] result_ok_step [OF assms(3)]
    cancel_kept_step [OF assms(3)]
  by (simp add: task_inv_def)

interpretation tc: transition_system "\<lambda>s. \<exists>f. s = tconc_init aw f" "tstep aw fp" "\<lambda>s. atomic_waker_spec aw \<longrightarrow> task_inv aw s"
  for aw fp
  by unfold_locales (auto intro: task_inv_init task_inv_step)

lemma task_invD:
  assumes "atomic_waker_spec aw" "task_reaches aw fp s"
  shows "state_ok (st s)" "lock_ok (holder s) (pc s)" "owner_ok (st s) (pc s)" "cell_ok s" "cancel_safe s" "notify_safe s"
    "join_safe aw s" "result_ok s" "cancel_kept s"
  using tc.invar_reaches [OF assms(2)] assms(1) by (simp_all add: task_inv_def)

lemma some_pc_idle: "\<forall>t. f t = T_Idle \<Longrightarrow> some_pc P f = P T_Idle"
  by (simp add: some_pc_def)

subsection \<open>Progress\<close>

lemma poll_cases: "\<exists>j. join_inner_poll fp c = (j, Poll_Ready ()) \<or> join_inner_poll fp c = (j, Poll_Pending)"
proof (cases "join_inner_poll fp c")
  case (Pair j p)
  then show ?thesis by (cases p) auto
qed

text \<open>Both arms of the two \<^verbatim>\<open>fetch_update\<close> calls, and of the poll, lead on.\<close>

lemma run_moves:
  assumes "pc s t = T_Run"
  shows "\<exists>s' p. tstep aw fp s s' \<and> pc s' = (pc s)(t := p) \<and> pc_rank p < pc_rank (pc s t)"
proof (cases "run_start (st s)")
  case None
  show ?thesis
    using tstep.run_err_cancelled [OF assms None, of aw fp] tstep.run_err_other [OF assms None, of aw fp] assms
    by (cases "st s = CANCELLED") (fastforce intro!: exI)+
next
  case (Some y)
  show ?thesis
    using tstep.run_ok_idle [OF assms Some, of aw fp] tstep.run_ok_other [OF assms Some, of aw fp] assms
    by (cases "st s = IDLE") (fastforce intro!: exI)+
qed

lemma update_moves:
  assumes "pc s t = T_Update"
  shows "\<exists>s' p. tstep aw fp s s' \<and> pc s' = (pc s)(t := p) \<and> pc_rank p < pc_rank (pc s t)"
proof (cases "run_end (st s)")
  case None
  show ?thesis
    using tstep.update_err_cancelled [OF assms None, of aw fp] tstep.update_err_other [OF assms None, of aw fp] assms
    by (cases "st s = CANCELLED") (fastforce intro!: exI)+
next
  case (Some y)
  show ?thesis
    using tstep.update_ok_notified [OF assms Some, of aw fp] tstep.update_ok_other [OF assms Some, of aw fp] assms
    by (cases "st s = NOTIFIED") (fastforce intro!: exI)+
qed

lemma poll_moves:
  assumes "pc s t = T_Poll"
  shows "\<exists>s' p. tstep aw fp s s' \<and> pc s' = (pc s)(t := p) \<and> pc_rank p < pc_rank (pc s t)"
proof -
  obtain j where "join_inner_poll fp (cell s) = (j, Poll_Ready ()) \<or> join_inner_poll fp (cell s) = (j, Poll_Pending)"
    using poll_cases by blast
  then show ?thesis
    using assms tstep.poll_ready [OF assms, of fp j aw] tstep.poll_pending [OF assms, of fp j aw]
    by (elim disjE) (fastforce intro!: exI)+
qed

text \<open>A thread that does not wait for the lock can always take its next step.\<close>

lemma unblocked_step:
  assumes "pc s t \<noteq> T_Idle" "holder s = None \<or> pc s t \<noteq> T_Lock \<and> pc s t \<noteq> F_Lock"
  shows "\<exists>s' p. tstep aw fp s s' \<and> pc s' = (pc s)(t := p) \<and> pc_rank p < pc_rank (pc s t)"
proof (cases "pc s t")
  case T_Idle
  with assms(1) show ?thesis by simp
next
  case T_Lock
  then show ?thesis using assms(2) tstep.lock [of s t aw fp] by (fastforce intro!: exI)
next
  case F_Lock
  then show ?thesis using assms(2) tstep.fin_lock [of s t aw fp] by (fastforce intro!: exI)
next
  case T_Wake
  obtain a w where "aw_take aw (jw s) = (a, w)" by fastforce
  from tstep.wake_joiner [OF T_Wake this, of fp] T_Wake show ?thesis by (fastforce intro!: exI)
qed (erule run_moves update_moves poll_moves |
    use tstep.store [of s t aw fp] tstep.drop_ready [of s t aw fp] tstep.drop_pending [of s t aw fp] tstep.schedule [of s t aw fp]
      tstep.fin_set [of s t aw fp] tstep.fin_store [of s t aw fp] tstep.fin_drop [of s t aw fp] in \<open>fastforce intro!: exI\<close>)+

subsection \<open>Properties\<close>

text \<open>
  C1: Under every interleaving no wake-up and no cancellation is lost: when all threads have
  finished their operation, no worker is about to poll and the task is in no queue, the task is IDLE
  with no notification outstanding, no call of cancel ever made and no result, or COMPLETED with its
  result stored.
\<close>

theorem no_lost_wakeup_or_cancellation:
  assumes "atomic_waker_spec aw" "task_reaches aw fp s" "\<forall>t. pc s t = T_Idle" "\<not> queued s"
  shows "st s = IDLE \<and> \<not> notified s \<and> \<not> cancel_called s \<and> \<not> is_return (cell s) \<or> st s = COMPLETED \<and> is_return (cell s)"
proof -
  note I = task_invD [OF assms(1,2)]
  note idle = some_pc_idle [OF assms(3)]
  have "st s \<noteq> CANCELLED" using I(5) assms(4) idle by (simp add: cancel_safe_def)
  moreover have "st s \<noteq> RUNNING" "st s \<noteq> NOTIFIED" using I(3) idle by (auto simp: owner_ok_def)
  moreover have "st s = COMPLETED \<or> \<not> notified s" using I(6) assms(4) idle calculation by (auto simp: notify_safe_def)
  moreover have "is_return (cell s) \<longleftrightarrow> st s = COMPLETED" using I(4) idle by (simp add: cell_ok_def)
  moreover have "cancel_called s \<longrightarrow> st s = COMPLETED" using I(9) calculation(1) by (auto simp: cancel_kept_def)
  ultimately show ?thesis using I(1) by (auto simp: state_ok_def)
qed

text \<open>
  C4: At most one thread runs the task between the state change to RUNNING and its end, and at most
  one holds the lock of the future, however often the task is queued.
\<close>

theorem one_poll_at_a_time:
  assumes "atomic_waker_spec aw" "task_reaches aw fp s"
  shows "(owner_pc (pc s t) \<longrightarrow> owner_pc (pc s u) \<longrightarrow> t = u) \<and> (lock_pc (pc s t) \<longrightarrow> lock_pc (pc s u) \<longrightarrow> t = u)"
proof -
  note I = task_invD [OF assms]
  have "lock_pc (pc s t) \<Longrightarrow> holder s = Some t" "lock_pc (pc s u) \<Longrightarrow> holder s = Some u"
    using I(2) by (simp_all add: lock_ok_def)
  moreover have "owner_pc (pc s t) \<longrightarrow> owner_pc (pc s u) \<longrightarrow> t = u" using I(3) by (simp add: owner_ok_def)
  ultimately show ?thesis by auto
qed

text \<open>
  C2: A joiner whose poll returned Pending has been woken, or its waker is still the registered one;
  and once the result is stored, a thread that is about to wake it exists as long as it has not been
  woken.
\<close>

theorem pending_joiner_is_woken:
  assumes "atomic_waker_spec aw" "task_reaches aw fp s" "jpc s = J_Pending"
  shows "jwoken s \<or> snd (aw_take aw (jw s)) = Some (jwaker s) \<and> (is_return (cell s) \<longrightarrow> some_pc waking_pc (pc s))"
  using task_invD(7) [OF assms(1,2)] assms(3) by (auto simp: join_safe_def)

text \<open>
  C3: The join handle delivers the first result that was stored, and delivers it once: later polls
  yield Aborted, and no later step replaces the stored result.
\<close>

theorem result_delivered_once:
  assumes "atomic_waker_spec aw" "task_reaches aw fp s" "delivered s \<noteq> []"
  shows "\<exists>r n. final s = Some r \<and> delivered s = r # replicate n (Inl Aborted) \<and>
    (\<forall>s'. tstep aw fp s s' \<longrightarrow> final s' = Some r)"
proof -
  note I = task_invD [OF assms(1,2)]
  obtain v where c: "cell s = Return v" using I(8) assms(3) by (cases "cell s") (auto simp: result_ok_def)
  with I(8) assms(3) obtain r n where r: "final s = Some r" "delivered s = r # replicate n (Inl Aborted)"
    by (auto simp: result_ok_def)
  have "final s' = Some r" if "tstep aw fp s s'" for s'
    using that r(1) by (cases rule: tstep.cases) auto
  with r show ?thesis by blast
qed

text \<open>
  C5: While some thread is inside an operation on the task, some thread can take a step that brings
  it closer to the end of its operation: the locks and the compare-exchange loops never deadlock.
\<close>

theorem threads_finish:
  assumes "atomic_waker_spec aw" "task_reaches aw fp s" "pc s t \<noteq> T_Idle"
  shows "\<exists>u s' p. tstep aw fp s s' \<and> pc s' = (pc s)(u := p) \<and> pc_rank p < pc_rank (pc s u)"
proof (cases "holder s")
  case None
  then show ?thesis using unblocked_step [OF assms(3)] by blast
next
  case (Some u)
  then have "lock_pc (pc s u)" using task_invD(2) [OF assms(1,2)] by (auto simp: lock_ok_def)
  then have "pc s u \<noteq> T_Idle" "pc s u \<noteq> T_Lock" "pc s u \<noteq> F_Lock" by auto
  then show ?thesis using unblocked_step [of s u aw fp] by blast
qed

subsection \<open>Witnesses\<close>

lemma sample_pending_reached: "task_reaches option_waker sample_future sample_pending"
proof -
  note r = reaches_step [where start = "\<lambda>s. \<exists>f. s = tconc_init option_waker f" and step = "tstep option_waker sample_future"]
  have 0: "task_reaches option_waker sample_future (tconc_init option_waker 0)" by (rule reaches_start) blast
  note 1 = r [OF 0 tstep.join_first [where f = 0 and w = 9]]
  note 2 = r [OF 1 tstep.join_register [where w = 9]]
  note 3 = r [OF 2 tstep.join_second [where f = 0]]
  show ?thesis using 3 by (simp add: sample_pending_def tconc_init_def new_task_def option_waker_def IDLE_def)
qed

lemma sample_stored_reached: "task_reaches option_waker sample_future sample_stored"
proof -
  note r = reaches_step [where start = "\<lambda>s. \<exists>f. s = tconc_init option_waker f" and step = "tstep option_waker sample_future"]
  note 1 = r [OF sample_pending_reached tstep.wake_local]
  note 2 = r [OF 1 tstep.take_task [where t = 1 and k = 0]]
  note 3 = r [OF 2 tstep.run_ok_idle [where t = 1 and x = RUNNING]]
  note 4 = r [OF 3 tstep.lock [where t = 1]]
  note 5 = r [OF 4 tstep.poll_ready [where t = 1 and j = "Return (Inr 42)"]]
  show ?thesis
    using 5 by (simp add: sample_stored_def sample_pending_def at_pc_def sample_future_def)
qed

lemma sample_finished_reached: "task_reaches option_waker sample_future sample_finished"
proof -
  note r = reaches_step [where start = "\<lambda>s. \<exists>f. s = tconc_init option_waker f" and step = "tstep option_waker sample_future"]
  note 1 = r [OF sample_stored_reached tstep.store [where t = 1]]
  note 2 = r [OF 1 tstep.drop_ready [where t = 1]]
  note 3 = r [OF 2 tstep.wake_joiner [where t = 1 and a = None and w = "Some 9"]]
  show ?thesis
    using 3 by (simp add: sample_finished_def sample_stored_def sample_pending_def at_pc_def option_waker_def fun_upd_idem)
qed

lemma sample_delivered_reached: "task_reaches option_waker sample_future sample_delivered"
proof -
  note r = reaches_step [where start = "\<lambda>s. \<exists>f. s = tconc_init option_waker f" and step = "tstep option_waker sample_future"]
  note 1 = r [OF sample_finished_reached tstep.join_take [where v = "Inr 42"]]
  show ?thesis using 1 by (simp add: sample_delivered_def sample_finished_def sample_pending_def)
qed

lemma sample_cancelled_reached: "task_reaches option_waker sample_future sample_cancelled"
proof -
  note r = reaches_step [where start = "\<lambda>s. \<exists>f. s = tconc_init option_waker f" and step = "tstep option_waker sample_future"]
  note 1 = r [OF sample_pending_reached tstep.cancel_ok [where t = 1 and x = CANCELLED]]
  note 2 = r [OF 1 tstep.schedule [where t = 1]]
  note 3 = r [OF 2 tstep.fetch]
  note 4 = r [OF 3 tstep.take_task [where t = 1 and k = 0]]
  note 5 = r [OF 4 tstep.run_err_cancelled [where t = 1]]
  note 6 = r [OF 5 tstep.fin_lock [where t = 1]]
  note 7 = r [OF 6 tstep.fin_set [where t = 1]]
  note 8 = r [OF 7 tstep.fin_store [where t = 1]]
  note 9 = r [OF 8 tstep.fin_drop [where t = 1]]
  note 10 = r [OF 9 tstep.wake_joiner [where t = 1 and a = None and w = "Some 9"]]
  show ?thesis
    using 10 by (simp add: sample_cancelled_def sample_pending_def at_pc_def option_waker_def fun_upd_idem)
qed

theorem no_lost_wakeup_or_cancellation_witness:
  "cancel_called sample_cancelled \<and> st sample_cancelled = COMPLETED \<and> is_return (cell sample_cancelled)"
proof -
  have c: "cancel_called sample_cancelled" by (simp add: sample_cancelled_def)
  have "\<forall>t. pc sample_cancelled t = T_Idle" "\<not> queued sample_cancelled"
    by (simp_all add: sample_cancelled_def sample_pending_def queued_def)
  with no_lost_wakeup_or_cancellation [OF option_waker_ok sample_cancelled_reached] c show ?thesis by blast
qed

theorem one_poll_at_a_time_witness:
  "owner_pc (pc sample_stored 1) \<and> \<not> owner_pc (pc sample_stored 2)"
proof -
  have "owner_pc (pc sample_stored 1)" by (simp add: sample_stored_def)
  with one_poll_at_a_time [OF option_waker_ok sample_stored_reached, of 1 2] show ?thesis by auto
qed

theorem pending_joiner_is_woken_witness:
  "is_return (cell sample_stored) \<and> (jwoken sample_stored \<or> some_pc waking_pc (pc sample_stored))"
proof -
  have "jpc sample_stored = J_Pending" "is_return (cell sample_stored)"
    by (simp_all add: sample_stored_def sample_pending_def)
  with pending_joiner_is_woken [OF option_waker_ok sample_stored_reached] show ?thesis by blast
qed

theorem result_delivered_once_witness:
  "\<exists>r n. final sample_delivered = Some r \<and> delivered sample_delivered = r # replicate n (Inl Aborted)"
proof -
  have "delivered sample_delivered \<noteq> []" by (simp add: sample_delivered_def)
  with result_delivered_once [OF option_waker_ok sample_delivered_reached] show ?thesis by blast
qed

theorem threads_finish_witness:
  "\<exists>u s' p. tstep option_waker sample_future sample_stored s' \<and> pc s' = (pc sample_stored)(u := p) \<and>
     pc_rank p < pc_rank (pc sample_stored u)"
proof -
  have "pc sample_stored 1 \<noteq> T_Idle" by (simp add: sample_stored_def)
  with threads_finish [OF option_waker_ok sample_stored_reached] show ?thesis by blast
qed

end
