(* ===== verification/Runtime.thy ===== *)
theory Runtime
  imports Task
begin

text \<open>
  \<^verbatim>\<open>src/src/lib.rs\<close>: the multithreaded runtime. An executor handle is the thread-local state of a
  worker, or of a thread inside \<^verbatim>\<open>block_on\<close>; scheduling gets the value of \<^verbatim>\<open>HANDLE\<close> as an option of one, \<^verbatim>\<open>block_on\<close> sets and resets it. Runtimes are
  compared by a number, as the code compares the pointers. One iteration of \<^verbatim>\<open>run_forever\<close> is a
  function that yields what the worker does next; \<^verbatim>\<open>task.run\<close> and the I/O driver are modelled in their own
  theories. The start of the threads is in \<^verbatim>\<open>Startup\<close>, and \<^verbatim>\<open>thread::park\<close> there and in \<^verbatim>\<open>Block_On\<close>.
\<close>

text \<open>
  \<^verbatim>\<open>VecDeque\<close>: the elements and the capacity, which grows when an element is pushed on a full deque. \<^verbatim>\<open>with_capacity\<close>
  documents a capacity of at least its argument; for the pointers held here it is that number.
\<close>

record 'a vec_deque =
  elems :: "'a list"
  vcap :: nat

definition with_capacity :: "nat \<Rightarrow> 'a vec_deque" where
  "with_capacity n = \<lparr>elems = [], vcap = n\<rparr>"

definition push_back :: "'a \<Rightarrow> 'a vec_deque \<Rightarrow> 'a vec_deque" where
  "push_back x d =
     \<lparr>elems = elems d @ [x],
      vcap = if length (elems d) < vcap d then vcap d else max 4 (2 * vcap d)\<rparr>"

definition pop_front :: "'a vec_deque \<Rightarrow> 'a option \<times> 'a vec_deque" where
  "pop_front d = (case elems d of [] \<Rightarrow> (None, d) | x # xs \<Rightarrow> (Some x, d\<lparr>elems := xs\<rparr>))"

record executor_handle =
  worker_index :: usize
  shared :: nat
  local_queue :: "nat vec_deque"

subsection \<open>Construction\<close>

definition new_worker :: worker where
  "new_worker = \<lparr>parker = None, notifies = 0\<rparr>"

text \<open>\<^verbatim>\<open>MTRuntime::new\<close> before and after \<^verbatim>\<open>init_workers\<close>, and the handles of the worker threads.\<close>

definition new_runtime :: "'q \<Rightarrow> nat \<Rightarrow> 'q mt_runtime" where
  "new_runtime q0 n =
     \<lparr>global_queue = q0, workers = None, parked_workers = new_map n, io_wakes = 0\<rparr>"

definition init_workers :: "nat \<Rightarrow> nat \<Rightarrow> 'q mt_runtime \<Rightarrow> panic + ('q mt_runtime \<times> executor_handle list)" where
  "init_workers me n r =
     (case workers r of
        Some _ \<Rightarrow> Inl Unwrap_Err
      | None \<Rightarrow>
          Inr (r\<lparr>workers := Some (map (\<lambda>i. new_worker) [0..<n])\<rparr>,
               map (\<lambda>i. \<lparr>worker_index = of_nat i, shared = me, local_queue = with_capacity 32\<rparr>) [0..<n]))"

subsection \<open>Queues\<close>

text \<open>The operations that may call \<^verbatim>\<open>schedule_global\<close> return the executor and the world.\<close>

definition schedule_local ::
    "'q linked_list_ops \<Rightarrow> bool \<Rightarrow> nat \<Rightarrow> executor_handle \<Rightarrow> ('f, 'o, 'aw, 'q) world \<Rightarrow>
     (panic + (executor_handle \<times> ('f, 'o, 'aw, 'q) world)) option" where
  "schedule_local ll free t e w =
     (if length (elems (local_queue e)) < vcap (local_queue e)
      then Some (Inr (e\<lparr>local_queue := push_back t (local_queue e)\<rparr>, w))
      else
        (case schedule_global ll free t w of
           None \<Rightarrow> None
         | Some (Inl p) \<Rightarrow> Some (Inl p)
         | Some (Inr w1) \<Rightarrow> Some (Inr (e, w1))))"

definition get_local_task :: "executor_handle \<Rightarrow> nat option \<times> executor_handle" where
  "get_local_task e = (let (t, q) = pop_front (local_queue e) in (t, e\<lparr>local_queue := q\<rparr>))"

text \<open>The loop of \<^verbatim>\<open>get_many_global_tasks\<close>, \<open>n\<close> rounds of it.\<close>

fun fetch_global :: "'q linked_list_ops \<Rightarrow> nat \<Rightarrow> 'q \<Rightarrow> nat vec_deque \<Rightarrow> 'q \<times> nat vec_deque" where
  "fetch_global ll 0 g q = (g, q)"
| "fetch_global ll (Suc n) g q =
     (case ll_pop_front ll g of
        (Some t, g1) \<Rightarrow> fetch_global ll n g1 (push_back t q)
      | (None, g1) \<Rightarrow> fetch_global ll n g1 q)"

definition get_many_global_tasks ::
    "'q linked_list_ops \<Rightarrow> executor_handle \<Rightarrow> 'q mt_runtime \<Rightarrow> nat option \<times> executor_handle \<times> 'q mt_runtime" where
  "get_many_global_tasks ll e r =
     (let (g, q) = fetch_global ll 4 (global_queue r) (local_queue e);
          (t, q1) = pop_front q in
      (t, e\<lparr>local_queue := q1\<rparr>, r\<lparr>global_queue := g\<rparr>))"

text \<open>The choice of the next task in \<^verbatim>\<open>run_forever\<close>, with the counter of the iteration.\<close>

definition next_task ::
    "'q linked_list_ops \<Rightarrow> usize \<Rightarrow> executor_handle \<Rightarrow> 'q mt_runtime \<Rightarrow> nat option \<times> executor_handle \<times> 'q mt_runtime" where
  "next_task ll counter e r =
     (let (t, e1) =
        (if counter mod 31 \<noteq> 0 \<or> length (elems (local_queue e)) > 16 then get_local_task e else (None, e)) in
      case t of
        Some x \<Rightarrow> (Some x, e1, r)
      | None \<Rightarrow> get_many_global_tasks ll e1 r)"

subsection \<open>Parking\<close>

text \<open>What the worker does up to its wait on the condition variable, and when the wait returns.\<close>

definition park :: "usize \<Rightarrow> 'q mt_runtime \<Rightarrow> panic + 'q mt_runtime" where
  "park index r =
     (case workers r of
        None \<Rightarrow> Inl Unwrap_None
      | Some ws \<Rightarrow>
          bindE (index_get ws (unat index)) (\<lambda>wk.
          bindE (if parker wk = None then push (unat index) (parked_workers r) else Inr (parked_workers r)) (\<lambda>m.
            Inr (r\<lparr>parked_workers := m, workers := Some (ws[unat index := wk\<lparr>parker := Some Parked\<rparr>])\<rparr>))))"

definition wait_returns :: "usize \<Rightarrow> 'q mt_runtime \<Rightarrow> 'q mt_runtime" where
  "wait_returns index r =
     (case workers r of
        None \<Rightarrow> r
      | Some ws \<Rightarrow> r\<lparr>workers := Some (ws[unat index := (ws ! unat index)\<lparr>parker := None\<rparr>])\<rparr>)"

datatype action = Run_Task nat | Poll_Io | Wait

text \<open>One iteration of \<^verbatim>\<open>run_forever\<close>; \<open>io_free\<close> is whether \<^verbatim>\<open>io_driver.try_lock\<close> succeeds.\<close>

definition iteration ::
    "'q linked_list_ops \<Rightarrow> bool \<Rightarrow> usize \<Rightarrow> executor_handle \<Rightarrow> 'q mt_runtime \<Rightarrow>
     panic + (usize \<times> action \<times> executor_handle \<times> 'q mt_runtime)" where
  "iteration ll io_free counter e r =
     (let counter1 = counter + 1; (t, e1, r1) = next_task ll counter1 e r in
      case t of
        Some x \<Rightarrow> Inr (counter1, Run_Task x, e1, r1)
      | None \<Rightarrow>
          if io_free then Inr (counter1, Poll_Io, e1, r1)
          else bindE (park (worker_index e1) r1) (\<lambda>r2. Inr (counter1, Wait, e1, r2)))"

subsection \<open>Entering and spawning\<close>

text \<open>
  What a thread that blocks on a future acts on: its thread-local \<^verbatim>\<open>HANDLE\<close>, and whatever else its future can change.
\<close>

record 's thread_local =
  HANDLE :: "executor_handle option"
  outside :: 's

text \<open>
  The loop of \<^verbatim>\<open>block_on\<close>: \<^verbatim>\<open>thread::park\<close> returns at the next poll. A poll may do anything to the state, \<^verbatim>\<open>HANDLE\<close>
  included; \<open>Inl\<close> is the message of a panic.
\<close>

partial_function (option) poll_loop ::
    "('f \<Rightarrow> 's thread_local \<Rightarrow> ('f \<times> 'o fut_poll) \<times> 's thread_local) \<Rightarrow> 'f \<Rightarrow> 's thread_local \<Rightarrow> ((string + 'o) \<times> 's thread_local) option" where
  "poll_loop fp f st =
     (case fp f st of
        ((f1, Fut_Ready v), st1) \<Rightarrow> Some (Inr v, st1)
      | ((f1, Fut_Panic p), st1) \<Rightarrow> Some (Inl p, st1)
      | ((f1, Fut_Pending), st1) \<Rightarrow> poll_loop fp f1 st1)"

definition usize_max :: usize where "usize_max = - 1"

definition block_on_message :: string where
  "block_on_message = ''block on called within the context of another runtime. this is most likely a bug''"

definition fake_exec :: "nat \<Rightarrow> executor_handle" where
  "fake_exec me = \<lparr>worker_index = usize_max, shared = me, local_queue = with_capacity 0\<rparr>"

text \<open>The first access to \<^verbatim>\<open>HANDLE\<close>, and the drop of \<^verbatim>\<open>ResetHandle\<close>.\<close>

definition enter_runtime :: "nat \<Rightarrow> 's thread_local \<Rightarrow> string + 's thread_local" where
  "enter_runtime me st =
     (if HANDLE st = None then Inr (st\<lparr>HANDLE := Some (fake_exec me)\<rparr>) else Inl block_on_message)"

definition reset_handle :: "'s thread_local \<Rightarrow> 's thread_local" where
  "reset_handle st = st\<lparr>HANDLE := None\<rparr>"

text \<open>
  \<^verbatim>\<open>block_on\<close>, with its outcome and the state afterwards: the guard is created after \<^verbatim>\<open>HANDLE\<close> is set, so that it is
  dropped when the loop is left with a value and when a poll panics, but not when the assertion fails.
\<close>

definition block_on ::
    "nat \<Rightarrow> ('f \<Rightarrow> 's thread_local \<Rightarrow> ('f \<times> 'o fut_poll) \<times> 's thread_local) \<Rightarrow> 'f \<Rightarrow> 's thread_local \<Rightarrow>
     ((string + 'o) \<times> 's thread_local) option" where
  "block_on me fp f st =
     (case enter_runtime me st of
        Inl p \<Rightarrow> Some (Inl p, st)
      | Inr st1 \<Rightarrow>
          (case poll_loop fp f st1 of
             None \<Rightarrow> None
           | Some (res, st2) \<Rightarrow> Some (res, reset_handle st2)))"

text \<open>The future and the state after \<open>k\<close> polls, when all of them were pending.\<close>

fun pending_polls ::
    "('f \<Rightarrow> 's thread_local \<Rightarrow> ('f \<times> 'o fut_poll) \<times> 's thread_local) \<Rightarrow> nat \<Rightarrow> 'f \<times> 's thread_local \<Rightarrow> ('f \<times> 's thread_local) option" where
  "pending_polls fp 0 c = Some c"
| "pending_polls fp (Suc k) (f, st) =
     (case fp f st of
        ((f1, Fut_Pending), st1) \<Rightarrow> pending_polls fp k (f1, st1)
      | _ \<Rightarrow> None)"

text \<open>
  Scheduling a task through \<open>HANDLE\<close>, as \<^verbatim>\<open>wake_by_ref\<close> and \<^verbatim>\<open>MTRuntime::spawn\<close> do: on the executor of
  the thread when it belongs to this runtime, else globally.
\<close>

definition schedule_from ::
    "'q linked_list_ops \<Rightarrow> bool \<Rightarrow> nat \<Rightarrow> nat \<Rightarrow> executor_handle option \<Rightarrow> ('f, 'o, 'aw, 'q) world \<Rightarrow>
     (panic + (executor_handle option \<times> ('f, 'o, 'aw, 'q) world)) option" where
  "schedule_from ll free me t handle w =
     (case handle of
        Some e \<Rightarrow>
          if shared e = me then
            (case schedule_local ll free t e w of
               None \<Rightarrow> None
             | Some (Inl p) \<Rightarrow> Some (Inl p)
             | Some (Inr (e1, w1)) \<Rightarrow> Some (Inr (Some e1, w1)))
          else
            (case schedule_global ll free t w of
               None \<Rightarrow> None
             | Some (Inl p) \<Rightarrow> Some (Inl p)
             | Some (Inr w1) \<Rightarrow> Some (Inr (handle, w1)))
      | None \<Rightarrow>
          (case schedule_global ll free t w of
             None \<Rightarrow> None
           | Some (Inl p) \<Rightarrow> Some (Inl p)
           | Some (Inr w1) \<Rightarrow> Some (Inr (handle, w1))))"

definition wake_by_ref ::
    "'q linked_list_ops \<Rightarrow> bool \<Rightarrow> nat \<Rightarrow> nat \<Rightarrow> executor_handle option \<Rightarrow> ('f, 'o, 'aw, 'q) world \<Rightarrow>
     (panic + (executor_handle option \<times> ('f, 'o, 'aw, 'q) world)) option" where
  "wake_by_ref ll free me t handle w = schedule_from ll free me t handle w"

text \<open>The wakers a worker has collected, woken one after the other, as \<^verbatim>\<open>ScheduledIo::wake\<close> does with the wakers of tasks.\<close>

fun wake_each ::
    "'q linked_list_ops \<Rightarrow> bool \<Rightarrow> nat \<Rightarrow> nat list \<Rightarrow> executor_handle option \<Rightarrow> ('f, 'o, 'aw, 'q) world \<Rightarrow>
     (panic + (executor_handle option \<times> ('f, 'o, 'aw, 'q) world)) option" where
  "wake_each ll free me [] handle w = Some (Inr (handle, w))"
| "wake_each ll free me (t # ts) handle w =
     (case wake_by_ref ll free me t handle w of
        None \<Rightarrow> None
      | Some (Inl p) \<Rightarrow> Some (Inl p)
      | Some (Inr (handle1, w1)) \<Rightarrow> wake_each ll free me ts handle1 w1)"

text \<open>
  \<^verbatim>\<open>Task::allocate\<close> and \<^verbatim>\<open>JoinHandle::new\<close>: \<open>t\<close> is the newly allocated task. The queue and the join handle
  get one reference each to the same task.
\<close>

definition allocate ::
    "'aw atomic_waker_ops \<Rightarrow> nat \<Rightarrow> 'f \<Rightarrow> ('f, 'o, 'aw, 'q) world \<Rightarrow> nat \<times> ('f, 'o, 'aw, 'q) world" where
  "allocate aw t f w = (t, w\<lparr>tasks := (tasks w)(t := new_task aw f)\<rparr>)"

record join_handle =
  join_task :: nat

definition join_handle_new ::
    "'aw atomic_waker_ops \<Rightarrow> nat \<Rightarrow> 'f \<Rightarrow> ('f, 'o, 'aw, 'q) world \<Rightarrow> (nat \<times> join_handle) \<times> ('f, 'o, 'aw, 'q) world" where
  "join_handle_new aw t f w = (let (task, w1) = allocate aw t f w; task2 = task in ((task2, \<lparr>join_task = task\<rparr>), w1))"

definition runtime_spawn ::
    "'aw atomic_waker_ops \<Rightarrow> 'q linked_list_ops \<Rightarrow> bool \<Rightarrow> nat \<Rightarrow> nat \<Rightarrow> 'f \<Rightarrow> executor_handle option \<Rightarrow>
     ('f, 'o, 'aw, 'q) world \<Rightarrow> (panic + (join_handle \<times> executor_handle option \<times> ('f, 'o, 'aw, 'q) world)) option" where
  "runtime_spawn aw ll free me t f handle w =
     (let ((task, join), w1) = join_handle_new aw t f w in
      case schedule_from ll free me task handle w1 of
        None \<Rightarrow> None
      | Some (Inl p) \<Rightarrow> Some (Inl p)
      | Some (Inr (handle1, w2)) \<Rightarrow> Some (Inr (join, handle1, w2)))"

definition executor_spawn ::
    "'aw atomic_waker_ops \<Rightarrow> 'q linked_list_ops \<Rightarrow> bool \<Rightarrow> nat \<Rightarrow> 'f \<Rightarrow> executor_handle \<Rightarrow>
     ('f, 'o, 'aw, 'q) world \<Rightarrow> (panic + (join_handle \<times> executor_handle \<times> ('f, 'o, 'aw, 'q) world)) option" where
  "executor_spawn aw ll free t f e w =
     (let ((task, join), w1) = join_handle_new aw t f w in
      case schedule_local ll free task e w1 of
        None \<Rightarrow> None
      | Some (Inl p) \<Rightarrow> Some (Inl p)
      | Some (Inr (e1, w2)) \<Rightarrow> Some (Inr (join, e1, w2)))"

definition spawn ::
    "'aw atomic_waker_ops \<Rightarrow> 'q linked_list_ops \<Rightarrow> bool \<Rightarrow> nat \<Rightarrow> 'f \<Rightarrow> executor_handle option \<Rightarrow>
     ('f, 'o, 'aw, 'q) world \<Rightarrow> (panic + (join_handle \<times> executor_handle option \<times> ('f, 'o, 'aw, 'q) world)) option" where
  "spawn aw ll free t f handle w =
     (case handle of
        None \<Rightarrow> Some (Inl (Expect_Failed ''spawn called outside of the context of a runtime''))
      | Some e \<Rightarrow>
          (case executor_spawn aw ll free t f e w of
             None \<Rightarrow> None
           | Some (Inl p) \<Rightarrow> Some (Inl p)
           | Some (Inr (join, e1, w1)) \<Rightarrow> Some (Inr (join, Some e1, w1))))"

subsection \<open>Runs of one worker\<close>

text \<open>
  The counter, the executor and the world over the life of a worker: its own iterations, what tasks schedule
  on it, and what the other threads do to the world.
\<close>

type_synonym ('f, 'o, 'aw, 'q) worker_state = "usize \<times> executor_handle \<times> ('f, 'o, 'aw, 'q) world"

inductive worker_step ::
    "'q linked_list_ops \<Rightarrow> ('f, 'o, 'aw, 'q) worker_state \<Rightarrow> ('f, 'o, 'aw, 'q) worker_state \<Rightarrow> bool"
  for ll :: "'q linked_list_ops" where
  worker_iteration: "iteration ll io_free c e (rt w) = Inr (c1, a, e1, r1) \<Longrightarrow>
    worker_step ll (c, e, w) (c1, e1, w\<lparr>rt := r1\<rparr>)"
| worker_schedule: "schedule_local ll free t e w = Some (Inr (e1, w1)) \<Longrightarrow> worker_step ll (c, e, w) (c, e1, w1)"
| worker_others: "worker_step ll (c, e, w) (c, e, w1)"

definition worker_start :: "('f, 'o, 'aw, 'q) worker_state \<Rightarrow> bool" where
  "worker_start x \<longleftrightarrow> fst x = 0 \<and> local_queue (fst (snd x)) = with_capacity 32"

definition queue_bounded :: "('f, 'o, 'aw, 'q) worker_state \<Rightarrow> bool" where
  "queue_bounded x \<longleftrightarrow> vcap (local_queue (fst (snd x))) = 32 \<and> length (elems (local_queue (fst (snd x)))) \<le> 32"

abbreviation sample_executor :: "nat list \<Rightarrow> executor_handle" where
  "sample_executor ts \<equiv> \<lparr>worker_index = 1, shared = 0, local_queue = \<lparr>elems = ts, vcap = 32\<rparr>\<rparr>"

text \<open>The tasks waiting on an executor and globally, in the order they are taken.\<close>

definition waiting :: "('q \<Rightarrow> nat list) \<Rightarrow> executor_handle \<Rightarrow> 'q mt_runtime \<Rightarrow> nat list" where
  "waiting items e r = elems (local_queue e) @ items (global_queue r)"

subsection \<open>Queues\<close>

lemma push_back_simps [simp]:
  "elems (push_back x d) = elems d @ [x]" "length (elems d) < vcap d \<Longrightarrow> vcap (push_back x d) = vcap d"
  by (simp_all add: push_back_def)

lemma with_capacity_simps [simp]: "elems (with_capacity n) = []" "vcap (with_capacity n) = n"
  by (simp_all add: with_capacity_def)

lemma pop_front_simps:
  "pop_front d = (case elems d of [] \<Rightarrow> None | x # _ \<Rightarrow> Some x, d\<lparr>elems := tl (elems d)\<rparr>)"
  by (cases d) (simp add: pop_front_def split: list.split)

lemma fetch_global_items:
  assumes "linked_list_spec ll items" "fetch_global ll n g q = (g1, q1)"
  shows "items g1 = drop n (items g) \<and> elems q1 = elems q @ take n (items g)"
  using assms(2)
proof (induction n arbitrary: g q)
  case (Suc n)
  obtain t g2 where p: "ll_pop_front ll g = (t, g2)" by fastforce
  have t: "t = (case items g of [] \<Rightarrow> None | t # _ \<Rightarrow> Some t)" "items g2 = tl (items g)"
    using assms(1) p unfolding linked_list_spec_def by (metis fst_conv, metis snd_conv)
  show ?case
  proof (cases "items g")
    case Nil
    with Suc p t show ?thesis by auto
  next
    case (Cons x xs)
    with Suc.prems p t have "fetch_global ll n g2 (push_back x q) = (g1, q1)" by simp
    from Suc.IH [OF this] Cons t show ?thesis by simp
  qed
qed simp

lemma fetch_global_bound:
  assumes "fetch_global ll n g q = (g1, q1)" "length (elems q) + n \<le> vcap q"
  shows "vcap q1 = vcap q \<and> length (elems q1) \<le> length (elems q) + n"
  using assms
proof (induction n arbitrary: g q)
  case (Suc n)
  obtain t g2 where p: "ll_pop_front ll g = (t, g2)" by fastforce
  show ?case
  proof (cases t)
    case None
    with Suc p show ?thesis by fastforce
  next
    case (Some x)
    with Suc.prems p have "fetch_global ll n g2 (push_back x q) = (g1, q1)" by simp
    from Suc.IH [OF this] Suc.prems(2) show ?thesis by simp
  qed
qed simp

lemma get_many_global_tasks_items:
  assumes "linked_list_spec ll items" "get_many_global_tasks ll e r = (t, e1, r1)"
  shows "opt_list t @ elems (local_queue e1) = elems (local_queue e) @ take 4 (items (global_queue r)) \<and>
    items (global_queue r1) = drop 4 (items (global_queue r)) \<and> (t = None \<longleftrightarrow> waiting items e r = [])"
proof -
  obtain g q where f: "fetch_global ll 4 (global_queue r) (local_queue e) = (g, q)" by fastforce
  note F = fetch_global_items [OF assms(1) f]
  from assms(2) f have t: "t = (case elems q of [] \<Rightarrow> None | x # _ \<Rightarrow> Some x)" "elems (local_queue e1) = tl (elems q)"
      "global_queue r1 = g"
    by (auto simp: get_many_global_tasks_def pop_front_simps)
  have "opt_list t @ elems (local_queue e1) = elems q" using t by (cases "elems q") simp_all
  moreover have "t = None \<longleftrightarrow> elems q = []" using t by (cases "elems q") simp_all
  ultimately show ?thesis using F t by (simp add: waiting_def)
qed

lemma get_many_bound:
  assumes "get_many_global_tasks ll e r = (t, e1, r1)" "length (elems (local_queue e)) + 4 \<le> vcap (local_queue e)"
  shows "vcap (local_queue e1) = vcap (local_queue e) \<and> length (elems (local_queue e1)) \<le> length (elems (local_queue e)) + 4"
proof -
  obtain g q where f: "fetch_global ll 4 (global_queue r) (local_queue e) = (g, q)" by fastforce
  from assms(1) f have "local_queue e1 = q\<lparr>elems := tl (elems q)\<rparr>"
    by (auto simp: get_many_global_tasks_def pop_front_simps)
  with fetch_global_bound [OF f assms(2)] show ?thesis by auto
qed

lemma get_local_task_simps:
  "get_local_task e = (case elems (local_queue e) of [] \<Rightarrow> None | x # _ \<Rightarrow> Some x,
     e\<lparr>local_queue := (local_queue e)\<lparr>elems := tl (elems (local_queue e))\<rparr>\<rparr>)"
  by (simp add: get_local_task_def pop_front_simps)

text \<open>The two ways of \<^verbatim>\<open>next_task\<close>: the front of the local queue, or a fetch from the global one.\<close>

lemma next_task_cases:
  assumes "next_task ll c e r = (t, e1, r1)"
  obtains (local_task) x xs where "elems (local_queue e) = x # xs" "t = Some x" "r1 = r"
      "e1 = e\<lparr>local_queue := (local_queue e)\<lparr>elems := xs\<rparr>\<rparr>" "c mod 31 \<noteq> 0 \<or> length (elems (local_queue e)) > 16"
  | (global_tasks) "get_many_global_tasks ll e r = (t, e1, r1)" "length (elems (local_queue e)) \<le> 16"
proof (cases "c mod 31 \<noteq> 0 \<or> length (elems (local_queue e)) > 16")
  case True
  show thesis
  proof (cases "elems (local_queue e)")
    case Nil
    then have "get_local_task e = (None, e)" by (simp add: get_local_task_simps)
    with assms True Nil show thesis by (intro global_tasks) (simp_all add: next_task_def split: if_splits)
  next
    case (Cons x xs)
    with assms True show thesis by (intro local_task) (auto simp: next_task_def get_local_task_simps split: if_splits)
  qed
next
  case False
  with assms show thesis by (intro global_tasks) (simp_all add: next_task_def)
qed

lemma next_task_fetches:
  "c mod 31 = 0 \<Longrightarrow> length (elems (local_queue e)) \<le> 16 \<Longrightarrow> next_task ll c e r = get_many_global_tasks ll e r"
  by (simp add: next_task_def)

lemma next_task_bound:
  assumes "next_task ll c e r = (t, e1, r1)" "vcap (local_queue e) = 32" "length (elems (local_queue e)) \<le> 32"
  shows "vcap (local_queue e1) = 32 \<and> length (elems (local_queue e1)) \<le> 32"
  using assms(1)
proof (cases rule: next_task_cases)
  case (local_task x xs)
  with assms show ?thesis by simp
next
  case global_tasks
  with get_many_bound [OF global_tasks(1)] assms show ?thesis by simp
qed

lemma iteration_next:
  assumes "iteration ll io_free c e r = Inr (c1, a, e1, r1)"
  shows "\<exists>t r2. next_task ll (c + 1) e r = (t, e1, r2) \<and> c1 = c + 1 \<and> (a = Run_Task x \<longrightarrow> t = Some x)"
  using assms by (auto simp: iteration_def Let_def bindE_def split: prod.splits option.splits if_splits sum.splits)

lemma schedule_local_cases:
  assumes "schedule_local ll free t e w = Some (Inr (e1, w1))"
  shows "length (elems (local_queue e)) < vcap (local_queue e) \<and> e1 = e\<lparr>local_queue := push_back t (local_queue e)\<rparr> \<and> w1 = w
    \<or> \<not> length (elems (local_queue e)) < vcap (local_queue e) \<and> e1 = e \<and> schedule_global ll free t w = Some (Inr w1)"
  using assms by (auto simp: schedule_local_def split: if_splits option.splits sum.splits)

lemma queue_bounded_step:
  assumes "queue_bounded x" "worker_step ll x y"
  shows "queue_bounded y"
  using assms(2,1)
proof cases
  case (worker_iteration io_free c e w c1 a e1 r1)
  with iteration_next [OF worker_iteration(3), of 0] assms(1) show ?thesis
    by (auto simp: queue_bounded_def dest: next_task_bound)
next
  case (worker_schedule free t e w e1 w1 c)
  with schedule_local_cases [OF worker_schedule(3)] assms(1) show ?thesis by (auto simp: queue_bounded_def)
next
  case worker_others
  with assms(1) show ?thesis by (simp add: queue_bounded_def)
qed

lemma queue_bounded_start: "worker_start x \<Longrightarrow> queue_bounded x"
  by (simp add: worker_start_def queue_bounded_def)

interpretation wk: transition_system worker_start "worker_step ll" queue_bounded for ll
  by unfold_locales (fact queue_bounded_start, fact queue_bounded_step)

subsection \<open>Parking\<close>

lemma park_ok:
  assumes "workers_ok r ws" "unat i < length ws" "parker (ws ! unat i) = None" "unat i \<notin> set (contents (parked_workers r))"
  shows "\<exists>r1. park i r = Inr r1 \<and> contents (parked_workers r1) = contents (parked_workers r) @ [unat i] \<and>
    workers_ok r1 (ws[unat i := (ws ! unat i)\<lparr>parker := Some Parked\<rparr>]) \<and> global_queue r1 = global_queue r"
proof -
  note D = workers_okD [OF assms(1)]
  obtain m where "push (unat i) (parked_workers r) = Inr m" "invar m"
      "contents m = contents (parked_workers r) @ [unat i]" "capacity m = length ws"
    using push_items [OF D(2), of "unat i"] assms(2,4) D(3) by auto
  then show ?thesis using D(1) assms(2,3) by (simp add: park_def workers_ok_def)
qed

lemma new_runtime_ok:
  "\<exists>r es. init_workers me n (new_runtime q0 n) = Inr (r, es) \<and> workers_ok r (map (\<lambda>i. new_worker) [0..<n]) \<and>
     length es = n \<and> (\<forall>i < n. worker_index (es ! i) = of_nat i \<and> shared (es ! i) = me \<and> worker_start (0, es ! i, w))"
  by (simp add: init_workers_def new_runtime_def workers_ok_def new_map_ok worker_start_def)

subsection \<open>Properties\<close>

lemma next_task_waiting:
  assumes "linked_list_spec ll items" "next_task ll c e r = (t, e1, r1)"
  shows "opt_list t @ waiting items e1 r1 = waiting items e r \<and> (t = None \<longleftrightarrow> waiting items e r = [])"
  using assms(2)
proof (cases rule: next_task_cases)
  case global_tasks
  from get_many_global_tasks_items [OF assms(1) global_tasks(1)] show ?thesis
    by (simp add: waiting_def flip: append_assoc) (simp add: append_assoc)
qed (simp add: waiting_def)

text \<open>
  The choice of the next task takes the first of the local queue followed by the global queue, keeps
  the rest in order, moves at most four global tasks, and finds nothing only when both queues are
  empty.
\<close>

theorem next_task_takes_in_order:
  assumes "linked_list_spec ll items" "next_task ll c e r = (t, e1, r1)"
  shows "opt_list t @ waiting items e1 r1 = waiting items e r \<and> (t = None \<longleftrightarrow> waiting items e r = []) \<and>
    length (items (global_queue r)) - length (items (global_queue r1)) \<le> 4"
proof -
  have "length (items (global_queue r)) - length (items (global_queue r1)) \<le> 4"
    using assms(2)
  proof (cases rule: next_task_cases)
    case global_tasks
    from get_many_global_tasks_items [OF assms(1) global_tasks(1)] show ?thesis by simp
  qed simp
  with next_task_waiting [OF assms] show ?thesis by blast
qed

text \<open>
  C25: In every state a worker can reach, its local queue has the capacity it was allocated with,
  32, and at most as many tasks: neither spawning nor fetching four global tasks at a time
  reallocates it.
\<close>

theorem local_queue_never_grows:
  assumes "reaches worker_start (worker_step ll) (c, e, w)"
  shows "vcap (local_queue e) = 32 \<and> length (elems (local_queue e)) \<le> 32"
  using wk.invar_reaches [OF assms] by (simp add: queue_bounded_def)

text \<open>
  A task is added to the local queue if it has room, and goes to the global queue otherwise.
\<close>

theorem schedule_local_keeps_task:
  assumes "linked_list_spec ll items" "free \<longrightarrow> (\<exists>ws. workers_ok (rt w) ws)"
  shows "\<exists>e1 w1. schedule_local ll free t e w = Some (Inr (e1, w1)) \<and> tasks w1 = tasks w \<and>
    (if length (elems (local_queue e)) < vcap (local_queue e)
     then elems (local_queue e1) = elems (local_queue e) @ [t] \<and> vcap (local_queue e1) = vcap (local_queue e) \<and> w1 = w
     else e1 = e \<and> items (global_queue (rt w1)) =
       items (global_queue (rt w)) @ (if t \<in> set (items (global_queue (rt w))) then [] else [t]))"
proof (cases "length (elems (local_queue e)) < vcap (local_queue e)")
  case True
  then show ?thesis by (simp add: schedule_local_def)
next
  case False
  obtain r where "schedule_global ll free t w = Some (Inr (w\<lparr>rt := r\<rparr>))"
    "items (global_queue r) = items (global_queue (rt w)) @ (if t \<in> set (items (global_queue (rt w))) then [] else [t])"
    using schedule_global_ok [OF assms(1), of free w t] assms(2) by blast
  with False show ?thesis by (simp add: schedule_local_def)
qed

lemma poll_loop_simps:
  "fp f st = ((f1, Fut_Ready v), st1) \<Longrightarrow> poll_loop fp f st = Some (Inr v, st1)"
  "fp f st = ((f1, Fut_Panic p), st1) \<Longrightarrow> poll_loop fp f st = Some (Inl p, st1)"
  "fp f st = ((f1, Fut_Pending), st1) \<Longrightarrow> poll_loop fp f st = poll_loop fp f1 st1"
  by (subst poll_loop.simps, simp)+

lemma poll_loop_pending:
  "pending_polls fp k (f, st) = Some (f1, st1) \<Longrightarrow> poll_loop fp f st = poll_loop fp f1 st1"
proof (induction k arbitrary: f st)
  case (Suc k)
  obtain f' r st' where p: "fp f st = ((f', r), st')" by (metis prod.collapse)
  with Suc.prems have "r = Fut_Pending" "pending_polls fp k (f', st') = Some (f1, st1)" by (cases r; simp)+
  with Suc.IH poll_loop_simps(3) [of fp f st f' st'] p show ?case by simp
qed simp

text \<open>
  C27: A call of block_on on a thread that is inside a runtime panics with the documented message,
  leaves the handle of the thread as it is and does not poll the future. On a thread outside it sets
  the handle while it polls; whatever the future does to the handle, it is empty again when block_on
  returns the value of a future that becomes ready, and when it panics with the panic of the future.
\<close>

theorem block_on_restores_handle:
  shows "(HANDLE st \<noteq> None \<longrightarrow> block_on me fp f st = Some (Inl block_on_message, st)) \<and>
    (HANDLE st = None \<longrightarrow>
      (\<forall>res st1. block_on me fp f st = Some (res, st1) \<longrightarrow> HANDLE st1 = None) \<and>
      (\<forall>k f1 st1 f2 st2. pending_polls fp k (f, st\<lparr>HANDLE := Some (fake_exec me)\<rparr>) = Some (f1, st1) \<longrightarrow>
        (\<forall>v. fp f1 st1 = ((f2, Fut_Ready v), st2) \<longrightarrow> block_on me fp f st = Some (Inr v, st2\<lparr>HANDLE := None\<rparr>)) \<and>
        (\<forall>p. fp f1 st1 = ((f2, Fut_Panic p), st2) \<longrightarrow> block_on me fp f st = Some (Inl p, st2\<lparr>HANDLE := None\<rparr>))))"
  by (auto simp: block_on_def enter_runtime_def reset_handle_def poll_loop_simps dest: poll_loop_pending split: option.splits)

text \<open>A wake on a worker of the task's runtime adds the task to what that worker will take next, and nothing else.\<close>

lemma schedule_global_keeps_workers:
  assumes "linked_list_spec ll items" "workers_ok (rt w) ws"
  shows "\<exists>r ws'. schedule_global ll free t w = Some (Inr (w\<lparr>rt := r\<rparr>)) \<and> workers_ok r ws' \<and>
    set (items (global_queue r)) = insert t (set (items (global_queue (rt w))))"
proof (cases free)
  case True
  obtain r where "schedule_global ll True t w = Some (Inr (w\<lparr>rt := r\<rparr>))" "\<exists>ws'. workers_ok r ws'"
    "items (global_queue r) = items (global_queue (rt w)) @ (if t \<in> set (items (global_queue (rt w))) then [] else [t])"
    using schedule_global_wakes_first_parked [OF assms, of t] by (fastforce split: list.splits)
  then show ?thesis using True by (intro exI [of _ r]) auto
next
  case False
  then show ?thesis using push_global_items [OF assms(1), of t "rt w"] assms(2)
    by (intro exI [of _ "push_global ll t (rt w)"] exI [of _ ws]) (auto simp: schedule_global_def Let_def)
qed

lemma wake_by_ref_queues:
  assumes "linked_list_spec ll items" "workers_ok (rt w) ws"
  shows "\<exists>e1 w1 ws'. wake_by_ref ll free (shared e) t (Some e) w = Some (Inr (Some e1, w1)) \<and> shared e1 = shared e \<and> workers_ok (rt w1) ws' \<and>
    set (waiting items e1 (rt w1)) = insert t (set (waiting items e (rt w)))"
proof (cases "length (elems (local_queue e)) < vcap (local_queue e)")
  case True
  then show ?thesis using assms(2) by (auto simp: wake_by_ref_def schedule_from_def schedule_local_def waiting_def)
next
  case False
  then show ?thesis using schedule_global_keeps_workers [OF assms, of free t]
    by (auto simp: wake_by_ref_def schedule_from_def schedule_local_def waiting_def)
qed

lemma wake_each_queues:
  assumes "linked_list_spec ll items" "workers_ok (rt w) ws"
  shows "\<exists>e1 w1. wake_each ll free (shared e) ts (Some e) w = Some (Inr (Some e1, w1)) \<and>
    set (waiting items e1 (rt w1)) = set ts \<union> set (waiting items e (rt w))"
  using assms(2)
proof (induction ts arbitrary: e w ws)
  case (Cons t ts)
  obtain e1 w1 ws' where 1: "wake_by_ref ll free (shared e) t (Some e) w = Some (Inr (Some e1, w1))" "shared e1 = shared e" "workers_ok (rt w1) ws'"
    "set (waiting items e1 (rt w1)) = insert t (set (waiting items e (rt w)))"
    using wake_by_ref_queues [OF assms(1) Cons.prems] by blast
  from Cons.IH [OF 1(3), of e1] 1 show ?case by auto
qed simp

text \<open>The first task in the queues is what the next iteration runs.\<close>

lemma iteration_runs_first:
  assumes "linked_list_spec ll items" "waiting items e r = [t]"
  shows "\<exists>e1 r1. iteration ll io_free c e r = Inr (c + 1, Run_Task t, e1, r1) \<and> workers r1 = workers r \<and> waiting items e1 r1 = []"
proof -
  obtain x e1 r1 where n: "next_task ll (c + 1) e r = (x, e1, r1)" by (metis prod_cases3)
  from next_task_waiting [OF assms(1) n] assms(2) have "opt_list x @ waiting items e1 r1 = [t]" "x \<noteq> None" by auto
  then have "x = Some t" "waiting items e1 r1 = []" by (auto simp: opt_list_def split: option.splits)
  moreover have "workers r1 = workers r" using n by (auto simp: next_task_def get_local_task_def get_many_global_tasks_def Let_def split: prod.splits option.splits if_splits)
  ultimately show ?thesis using n by (simp add: iteration_def Let_def)
qed

text \<open>
  C22: From spawning to joining: a task spawned on a runtime from outside, or from inside by the
  free function, when nothing else is queued, is what the next iteration of the worker runs; when
  its future is ready or panics, the run returns and the join handle yields exactly that value or
  panic.
\<close>

theorem spawned_task_is_joined:
  assumes "linked_list_spec ll items" "free \<longrightarrow> (\<exists>ws. workers_ok (rt w) ws)" "waiting items e (rt w) = []" "during_poll t g"
    and "fp f = (f', Fut_Ready x) \<and> v = Inr x \<or> fp f = (f', Fut_Panic p) \<and> v = Inl (Panic p)"
  shows "(\<exists>join w1 e1 r1 w2 w3. runtime_spawn aw ll free me t f None w = Some (Inr (join, None, w1)) \<and>
      iteration ll io_free c e (rt w1) = Inr (c + 1, Run_Task t, e1, r1) \<and>
      run aw ll free fp g t (w1\<lparr>rt := r1\<rparr>) = Some (Inr w2) \<and> join_handle_poll aw wk (join_task join) w2 = (Poll_Ready v, w3)) \<and>
    (\<exists>join w1 e0 e1 r1 w2 w3. spawn aw ll free t f (Some e) w = Some (Inr (join, Some e0, w1)) \<and>
      iteration ll io_free c e0 (rt w1) = Inr (c + 1, Run_Task t, e1, r1) \<and>
      run aw ll free fp g t (w1\<lparr>rt := r1\<rparr>) = Some (Inr w2) \<and> join_handle_poll aw wk (join_task join) w2 = (Poll_Ready v, w3))"
proof -
  let ?w = "w\<lparr>tasks := (tasks w)(t := new_task aw f)\<rparr>"
  have run: "\<exists>e1 r1 w2 w3. iteration ll io_free c e0 (rt w1) = Inr (c + 1, Run_Task t, e1, r1) \<and>
      run aw ll free fp g t (w1\<lparr>rt := r1\<rparr>) = Some (Inr w2) \<and> join_handle_poll aw wk t w2 = (Poll_Ready v, w3)"
    if "tasks w1 = tasks ?w" "waiting items e0 (rt w1) = [t]" for w1 e0
  proof -
    from iteration_runs_first [OF assms(1) that(2)] obtain e1 r1 where
      i: "iteration ll io_free c e0 (rt w1) = Inr (c + 1, Run_Task t, e1, r1)" by blast
    have s: "state (tasks (w1\<lparr>rt := r1\<rparr>) t) = IDLE" and "fut (tasks (w1\<lparr>rt := r1\<rparr>) t) = Future f"
      using that(1) by (simp_all add: new_task_def IDLE_def)
    then have "join_inner_poll fp (fut (tasks (w1\<lparr>rt := r1\<rparr>) t)) = (Return v, Poll_Ready ())" using assms(5) by auto
    note R = run_ready [where aw = aw and ll = ll and free = free and g = g, OF s this]
    let ?w2 = "waker_wake aw t (set_state t COMPLETED (g (set_fut t (Return v) (set_state t RUNNING (w1\<lparr>rt := r1\<rparr>)))))"
    have "fut (tasks ?w2 t) = Return v" using assms(4) by (simp add: during_poll_def)
    then show ?thesis using i R by (simp add: join_poll_return)
  qed
  have free: "free \<Longrightarrow> \<exists>ws. workers_ok (rt ?w) ws" using assms(2) by simp
  obtain r where r: "schedule_global ll free t ?w = Some (Inr (?w\<lparr>rt := r\<rparr>))" "items (global_queue r) = [t]"
    using schedule_global_ok [OF assms(1), of free ?w t] free assms(3) by (auto simp: waiting_def)
  then have "waiting items e (rt (?w\<lparr>rt := r\<rparr>)) = [t]" using assms(3) by (simp add: waiting_def)
  from run [OF _ this] r(1) have "\<exists>join w1 e1 r1 w2 w3. runtime_spawn aw ll free me t f None w = Some (Inr (join, None, w1)) \<and>
      iteration ll io_free c e (rt w1) = Inr (c + 1, Run_Task t, e1, r1) \<and>
      run aw ll free fp g t (w1\<lparr>rt := r1\<rparr>) = Some (Inr w2) \<and> join_handle_poll aw wk (join_task join) w2 = (Poll_Ready v, w3)"
    by (auto simp: runtime_spawn_def join_handle_new_def allocate_def schedule_from_def)
  moreover obtain e0 w1 where l: "schedule_local ll free t e ?w = Some (Inr (e0, w1))" "tasks w1 = tasks ?w" "waiting items e0 (rt w1) = [t]"
    using schedule_local_keeps_task [OF assms(1), of free ?w t e] free assms(3) by (fastforce simp: waiting_def split: if_splits)
  from run [OF l(2,3)] l(1) have "\<exists>join w1 e0 e1 r1 w2 w3. spawn aw ll free t f (Some e) w = Some (Inr (join, Some e0, w1)) \<and>
      iteration ll io_free c e0 (rt w1) = Inr (c + 1, Run_Task t, e1, r1) \<and>
      run aw ll free fp g t (w1\<lparr>rt := r1\<rparr>) = Some (Inr w2) \<and> join_handle_poll aw wk (join_task join) w2 = (Poll_Ready v, w3)"
    by (auto simp: spawn_def executor_spawn_def join_handle_new_def allocate_def)
  ultimately show ?thesis ..
qed

text \<open>
  A worker that parks is notified by the next task that is scheduled on the global queue, and its
  index has left the queue of parked workers then.
\<close>

theorem park_then_schedule_wakes_worker:
  assumes "workers_ok (rt w) ws" "unat i < length ws" "parker (ws ! unat i) = None"
    and "contents (parked_workers (rt w)) = []"
  shows "\<exists>r1 r2. park i (rt w) = Inr r1 \<and> schedule_global ll True t (w\<lparr>rt := r1\<rparr>) = Some (Inr (w\<lparr>rt := r2\<rparr>)) \<and>
    workers_ok r2 (notify_worker (unat i) ws) \<and> contents (parked_workers r2) = []"
proof -
  let ?ws = "ws[unat i := (ws ! unat i)\<lparr>parker := Some Parked\<rparr>]"
  obtain r1 where r1: "park i (rt w) = Inr r1" "contents (parked_workers r1) = [unat i]" "workers_ok r1 ?ws"
    using park_ok [OF assms(1-3)] assms(4) by auto
  have "workers_ok (push_global ll t r1) ?ws" "contents (parked_workers (push_global ll t r1)) = [unat i]" using r1 by simp_all
  note U = unpark_loop_ok [OF this]
  have "is_parked ?ws (unat i)" using assms(2) by (simp add: is_parked_def)
  with U obtain m where m: "invar m" "capacity m = length ws" "contents m = []"
    "unpark_loop (push_global ll t r1) =
       Some (Inr ((push_global ll t r1)\<lparr>parked_workers := m, workers := Some (notify_worker (unat i) ?ws)\<rparr>))"
    by auto
  have n: "notify_worker (unat i) ?ws = notify_worker (unat i) ws"
    using assms(2,3) by (simp add: notify_worker_def)
  let ?r2 = "(push_global ll t r1)\<lparr>parked_workers := m, workers := Some (notify_worker (unat i) ws)\<rparr>"
  have "schedule_global ll True t (w\<lparr>rt := r1\<rparr>) = Some (Inr (w\<lparr>rt := ?r2\<rparr>))"
    using schedule_global_unpark [of ll t "w\<lparr>rt := r1\<rparr>" ?r2] m(4) n by simp
  moreover have "workers_ok ?r2 (notify_worker (unat i) ws)" using m(1,2) by (simp add: workers_ok_def notify_worker_def)
  ultimately show ?thesis using r1(1) m(3) by (intro exI [of _ r1] exI [of _ ?r2]) simp
qed

lemma round_up: "m < 31 \<Longrightarrow> 31 * q + m = n \<Longrightarrow> n + Suc (30 - m) = 31 * (q + 1)" for m q n :: nat
  by arith

text \<open>
  C26: Among any 31 consecutive rounds, wrap-around of the counter included, there is one in which a
  worker with at most 16 local tasks goes to the global queue.
\<close>

theorem global_queue_checked_every_31:
  "\<exists>k < 31. \<forall>(ll :: 'q linked_list_ops) e r. length (elems (local_queue e)) \<le> 16 \<longrightarrow>
     next_task ll (c + of_nat (Suc k)) e r = get_many_global_tasks ll e r"
proof -
  have "\<exists>k < 31. (c + of_nat (Suc k)) mod 31 = 0"
  proof (cases "unat c + 31 < 2 ^ 64")
    case True
    define k where "k = 30 - unat c mod 31"
    have "unat c mod 31 < 31" by simp
    then have "unat c + Suc k = 31 * (unat c div 31 + 1)"
      using round_up [of "unat c mod 31" "unat c div 31" "unat c"] by (simp add: k_def)
    then have k: "k < 31" "(unat c + Suc k) mod 31 = 0" by (simp_all add: k_def del: unat_eq_zero)
    have "unat (c + of_nat (Suc k)) = unat c + Suc k"
      using True k(1) by (simp add: unat_word_ariths unat_of_nat)
    then have "unat ((c + of_nat (Suc k)) mod 31) = 0" using k(2) by (simp add: unat_mod)
    then have "(c + of_nat (Suc k)) mod 31 = 0" by (simp only: unat_0_iff)
    with k(1) show ?thesis by (intro exI [of _ k] conjI)
  next
    case False
    define k where "k = 2 ^ 64 - unat c - 1"
    have "unat c < 2 ^ 64" using unsigned_less [of c] by simp
    then have k: "k < 31" "unat c + Suc k = 2 ^ 64" using False by (simp_all add: k_def)
    have "c + of_nat (Suc k) = of_nat (unat c + Suc k)" by (simp only: of_nat_add of_nat_unat ucast_id)
    also have "\<dots> = 0" unfolding k(2) by simp
    finally have "c + of_nat (Suc k) = 0" .
    then show ?thesis using k(1) by (intro exI [of _ k]) simp
  qed
  then obtain k where "k < 31" "(c + of_nat (Suc k)) mod 31 = 0" by (elim exE conjE)
  then show ?thesis by (intro exI [of _ k] conjI allI impI next_task_fetches)
qed

subsection \<open>Witnesses\<close>

text \<open>A future that is pending once, and replaces the handle of its thread.\<close>

definition unruly_future :: "nat \<Rightarrow> nat thread_local \<Rightarrow> (nat \<times> nat fut_poll) \<times> nat thread_local" where
  "unruly_future f st =
     ((f + 1, if f = 0 then Fut_Pending else Fut_Ready 42), st\<lparr>HANDLE := Some (fake_exec 5), outside := outside st + 1\<rparr>)"

theorem next_task_takes_in_order_witness:
  "\<exists>t e1 r1. next_task list_queue 31 (sample_executor [5]) ((rt (sample_world 0))\<lparr>global_queue := [6, 7]\<rparr>) = (t, e1, r1) \<and>
     opt_list t @ waiting id e1 r1 = [5, 6, 7]"
proof -
  obtain t e1 r1 where n: "next_task list_queue 31 (sample_executor [5]) ((rt (sample_world 0))\<lparr>global_queue := [6, 7]\<rparr>) = (t, e1, r1)"
    by (metis prod_cases3)
  with next_task_takes_in_order [OF list_queue_ok n] show ?thesis by (simp add: waiting_def)
qed

theorem local_queue_never_grows_witness:
  "reaches worker_start (worker_step list_queue) (0, sample_executor [5, 6], sample_world 0) \<and> length (elems (local_queue (sample_executor [5, 6]))) \<le> 32"
proof -
  let ?r = "reaches worker_start (worker_step list_queue)"
  have step: "worker_step list_queue (0, sample_executor ts, sample_world 0) (0, sample_executor (ts @ [t]), sample_world 0)" if "length ts < 32" for ts t
    using that by (intro worker_schedule [where t = t and free = True]) (simp add: schedule_local_def push_back_def)
  have "?r (0, sample_executor [], sample_world 0)"
    by (rule reaches_start) (simp add: worker_start_def with_capacity_def)
  from reaches_step [OF this step [of "[]" 5]] have "?r (0, sample_executor [5], sample_world 0)" by simp
  from reaches_step [OF this step [of "[5]" 6]] have r: "?r (0, sample_executor [5, 6], sample_world 0)" by simp
  from local_queue_never_grows [OF r] r show ?thesis by blast
qed

theorem schedule_local_keeps_task_witness:
  "\<exists>e1 w1. schedule_local list_queue True 3 (sample_executor [5]) (sample_world 0) = Some (Inr (e1, w1)) \<and>
     elems (local_queue e1) = [5, 3]"
proof -
  have "\<exists>ws. workers_ok (rt (sample_world 0)) ws" using sample_workers_ok [of 0] by blast
  with schedule_local_keeps_task [OF list_queue_ok, of True "sample_world 0" 3 "sample_executor [5]"] show ?thesis by fastforce
qed

theorem spawned_task_is_joined_witness:
  "\<exists>join w1 e1 r1 w2 w3. runtime_spawn option_waker list_queue True 0 4 0 None (sample_world 0) = Some (Inr (join, None, w1)) \<and>
     iteration list_queue False 0 (sample_executor []) (rt w1) = Inr (1, Run_Task 4, e1, r1) \<and>
     run option_waker list_queue True sample_future (\<lambda>w. w) 4 (w1\<lparr>rt := r1\<rparr>) = Some (Inr w2) \<and>
     join_handle_poll option_waker 9 (join_task join) w2 = (Poll_Ready (Inr 42), w3)"
proof -
  have "True \<longrightarrow> (\<exists>ws. workers_ok (rt (sample_world 0)) ws)" using sample_workers_ok [of 0] by blast
  moreover have "waiting id (sample_executor []) (rt (sample_world 0)) = []" by (simp add: waiting_def sample_world_def)
  moreover have "during_poll 4 (\<lambda>w :: (nat, nat, nat option, nat list) world. w)" by (simp add: during_poll_def)
  moreover have "sample_future 0 = (0, Fut_Ready 42) \<and> Inr 42 = (Inr 42 :: join_error + nat) \<or> sample_future 0 = (0, Fut_Panic []) \<and> Inr 42 = (Inl (Panic []) :: join_error + nat)"
    by (simp add: sample_future_def)
  ultimately show ?thesis
    using spawned_task_is_joined [OF list_queue_ok, of True "sample_world 0" "sample_executor []" 4 "\<lambda>w. w" sample_future 0 0 42 "Inr 42" "[]" option_waker 0 False 0 9]
    by simp
qed

theorem block_on_restores_handle_witness:
  "block_on 0 unruly_future 0 \<lparr>HANDLE = None, outside = 7\<rparr> = Some (Inr 42, \<lparr>HANDLE = None, outside = 9\<rparr>) \<and>
   block_on 0 unruly_future 0 \<lparr>HANDLE = Some (fake_exec 1), outside = 7\<rparr> = Some (Inl block_on_message, \<lparr>HANDLE = Some (fake_exec 1), outside = 7\<rparr>)"
proof
  let ?st = "\<lparr>HANDLE = None, outside = 7\<rparr> :: nat thread_local" and ?out = "\<lparr>HANDLE = Some (fake_exec 1), outside = 7\<rparr> :: nat thread_local"
  have "pending_polls unruly_future 1 (0, ?st\<lparr>HANDLE := Some (fake_exec 0)\<rparr>) = Some (1, \<lparr>HANDLE = Some (fake_exec 5), outside = 8\<rparr>)"
    "unruly_future 1 \<lparr>HANDLE = Some (fake_exec 5), outside = 8\<rparr> = ((2, Fut_Ready 42), \<lparr>HANDLE = Some (fake_exec 5), outside = 9\<rparr>)"
    by (simp_all add: unruly_future_def)
  with block_on_restores_handle [of ?st 0 unruly_future 0]
  show "block_on 0 unruly_future 0 ?st = Some (Inr 42, \<lparr>HANDLE = None, outside = 9\<rparr>)" by fastforce
  show "block_on 0 unruly_future 0 ?out = Some (Inl block_on_message, ?out)"
    using block_on_restores_handle [of ?out 0 unruly_future 0] by simp
qed

theorem park_then_schedule_wakes_worker_witness:
  "\<exists>r1 r2. park 1 (rt (sample_world 0)\<lparr>parked_workers := new_map 2\<rparr>) = Inr r1 \<and>
     schedule_global list_queue True 3 ((sample_world 0)\<lparr>rt := r1\<rparr>) = Some (Inr ((sample_world 0)\<lparr>rt := r2\<rparr>)) \<and>
     contents (parked_workers r2) = []"
proof -
  let ?w = "(sample_world 0)\<lparr>rt := (rt (sample_world 0))\<lparr>parked_workers := new_map 2\<rparr>\<rparr>"
  have "workers_ok (rt ?w) [\<lparr>parker = Some Parked, notifies = 0\<rparr>, \<lparr>parker = None, notifies = 0\<rparr>]"
    by (simp add: workers_ok_def sample_world_def new_map_ok)
  from park_then_schedule_wakes_worker [OF this, of 1 list_queue 3] show ?thesis by (auto simp: new_map_ok)
qed

theorem global_queue_checked_every_31_witness:
  "\<exists>k < 31. next_task list_queue (0 + of_nat (Suc k)) (sample_executor [5]) (rt (sample_world 0)) =
     get_many_global_tasks list_queue (sample_executor [5]) (rt (sample_world 0))"
proof -
  obtain k where "k < 31" "\<forall>(ll :: nat list linked_list_ops) e r. length (elems (local_queue e)) \<le> 16 \<longrightarrow>
      next_task ll (0 + of_nat (Suc k)) e r = get_many_global_tasks ll e r"
    using global_queue_checked_every_31 [of 0] by (elim exE conjE)
  then show ?thesis by (intro exI [of _ k] conjI) simp_all
qed

end
