(* ===== verification/Driver.thy ===== *)
theory Driver
  imports Scheduled_IO
begin

text \<open>
  \<^verbatim>\<open>src/src/io/mod.rs\<close>: the driver that turns the events of the operating system into readiness,
  and the handle that registers sources with it. The slab of \<^verbatim>\<open>ScheduledIo\<close> entries
  (\<^verbatim>\<open>sharded_slab\<close>) and the registry of \<^verbatim>\<open>mio\<close> are parameters. An entry is shared and changed in
  place: \<open>pool_put\<close> stores its new value.
\<close>

datatype error_kind = WouldBlock | Interrupted | OutOfMemory | InvalidInput | Other_Error

datatype io_error = Io_Error (kind: error_kind) (message: string)

text \<open>\<open>pool_index\<close> is what the slab reads of a key: the bits above \<^verbatim>\<open>USED_BITS\<close> are free for its users.\<close>

record ('p, 's) pool_ops =
  pool_index :: "usize \<Rightarrow> usize"
  pool_create :: "'p \<Rightarrow> (usize \<times> 'p) option"
  pool_get :: "usize \<Rightarrow> 'p \<Rightarrow> 's option"
  pool_put :: "usize \<Rightarrow> 's \<Rightarrow> 'p \<Rightarrow> 'p"
  pool_clear :: "usize \<Rightarrow> 'p \<Rightarrow> 'p"

record io_driver =
  driver_tick :: u8

definition new_driver :: io_driver where
  "new_driver = \<lparr>driver_tick = 0\<rparr>"

definition WAKE_TOKEN :: usize where
  "WAKE_TOKEN = - 1"

subsection \<open>Dispatching events\<close>

text \<open>The body of the loop of \<^verbatim>\<open>poll_timeout\<close> for one event, with the wakers it wakes.\<close>

definition handle_event ::
    "('p, ('l, 'w) scheduled_io) pool_ops \<Rightarrow> ('l, 'c, 'n, 'w) pin_list \<Rightarrow> u8 \<Rightarrow> mio_event \<Rightarrow> 'p \<Rightarrow>
     (panic + 'p \<times> 'w list) option" where
  "handle_event po pl tk event p =
     (if token event = WAKE_TOKEN then Some (Inr (p, []))
      else
        (case pool_get po (token event) p of
           None \<Rightarrow> Some (Inr (p, []))
         | Some waker \<Rightarrow>
             let rdy = from_mio event in
             (case set_readiness (Tick_Set tk) (\<lambda>cur. bitor cur rdy) waker of
                Inl e \<Rightarrow> Some (Inl e)
              | Inr waker1 \<Rightarrow>
                  (case wake pl rdy waker1 of
                     None \<Rightarrow> None
                   | Some (Inl e) \<Rightarrow> Some (Inl e)
                   | Some (Inr (waker2, ws)) \<Rightarrow> Some (Inr (pool_put po (token event) waker2 p, ws))))))"

fun handle_events ::
    "('p, ('l, 'w) scheduled_io) pool_ops \<Rightarrow> ('l, 'c, 'n, 'w) pin_list \<Rightarrow> u8 \<Rightarrow> mio_event list \<Rightarrow> 'p \<Rightarrow>
     (panic + 'p \<times> 'w list) option" where
  "handle_events po pl tk [] p = Some (Inr (p, []))"
| "handle_events po pl tk (event # events) p =
     (case handle_event po pl tk event p of
        None \<Rightarrow> None
      | Some (Inl e) \<Rightarrow> Some (Inl e)
      | Some (Inr (p1, ws)) \<Rightarrow>
          (case handle_events po pl tk events p1 of
             None \<Rightarrow> None
           | Some (Inl e) \<Rightarrow> Some (Inl e)
           | Some (Inr (p2, ws2)) \<Rightarrow> Some (Inr (p2, ws @ ws2))))"

text \<open>\<open>polled\<close> is what \<^verbatim>\<open>mio::Poll::poll\<close> returns, \<open>events\<close> what is in the buffer then.\<close>

definition poll_timeout ::
    "('p, ('l, 'w) scheduled_io) pool_ops \<Rightarrow> ('l, 'c, 'n, 'w) pin_list \<Rightarrow> io_error + unit \<Rightarrow>
     mio_event list \<Rightarrow> io_driver \<Rightarrow> 'p \<Rightarrow> (panic + io_driver \<times> 'p \<times> 'w list) option" where
  "poll_timeout po pl polled events d p =
     (let d1 = d\<lparr>driver_tick := driver_tick d + 1\<rparr> in
      case polled of
        Inl e \<Rightarrow>
          if kind e = Interrupted then
            (case handle_events po pl (driver_tick d1) events p of
               None \<Rightarrow> None
             | Some (Inl e) \<Rightarrow> Some (Inl e)
             | Some (Inr (p1, ws)) \<Rightarrow> Some (Inr (d1, p1, ws)))
          else Some (Inl Unexpected_Error)
      | Inr _ \<Rightarrow>
          (case handle_events po pl (driver_tick d1) events p of
             None \<Rightarrow> None
           | Some (Inl e) \<Rightarrow> Some (Inl e)
           | Some (Inr (p1, ws)) \<Rightarrow> Some (Inr (d1, p1, ws))))"

subsection \<open>Registering sources\<close>

text \<open>
  \<open>used_bits\<close> is \<^verbatim>\<open>Pool::USED_BITS\<close>, \<open>reg\<close> what \<^verbatim>\<open>Registry::register\<close> returns for a token. The outer
  sum is the panic of a packing, the inner one the \<^verbatim>\<open>io::Result\<close>.
\<close>

definition token_of :: "u32 \<Rightarrow> usize \<Rightarrow> ('l, 'w) scheduled_io \<Rightarrow> panic + usize" where
  "token_of used_bits key entry =
     bindE (least_significant used_bits) (\<lambda>address.
     bindE (then_pack address 7) (\<lambda>gen.
     bindE (generation entry) (\<lambda>g.
     bindE (pack address key 0) (\<lambda>base. pack gen g base))))"

definition out_of_slots :: io_error where
  "out_of_slots = Io_Error OutOfMemory ''could not allocate slot for IO entry''"

definition add_source ::
    "('p, ('l, 'w) scheduled_io) pool_ops \<Rightarrow> u32 \<Rightarrow> (usize \<Rightarrow> interest \<Rightarrow> io_error + unit) \<Rightarrow> interest \<Rightarrow> 'p \<Rightarrow>
     panic + (io_error + usize) \<times> 'p" where
  "add_source po used_bits reg intr p =
     (case pool_create po p of
        None \<Rightarrow> Inr (Inl out_of_slots, p)
      | Some (key, p1) \<Rightarrow>
          (case pool_get po key p1 of
             None \<Rightarrow> Inl Unwrap_None
           | Some entry \<Rightarrow>
               bindE (token_of used_bits key entry) (\<lambda>tok.
                 case reg tok intr of
                   Inl e \<Rightarrow> Inr (Inl e, p1)
                 | Inr _ \<Rightarrow> Inr (Inr key, p1))))"

text \<open>\<open>dereg\<close> is what \<^verbatim>\<open>Registry::deregister\<close> returns.\<close>

definition deregister_source :: "io_error + unit \<Rightarrow> io_error + unit" where
  "deregister_source dereg = (case dereg of Inl e \<Rightarrow> Inl e | Inr _ \<Rightarrow> Inr ())"

subsection \<open>The documented behaviour of the slab\<close>

text \<open>
  Keys with the same index stand for the same entry. A created entry has a key that was free; an entry changes
  only when it is stored to or cleared, and a cleared key has no entry.
\<close>

definition pool_spec :: "('p, ('l, 'w) scheduled_io) pool_ops \<Rightarrow> bool" where
  "pool_spec po \<longleftrightarrow>
     (\<forall>p j k. pool_index po j = pool_index po k \<longrightarrow> pool_get po j p = pool_get po k p) \<and>
     (\<forall>p k p1. pool_create po p = Some (k, p1) \<longrightarrow>
        pool_get po k p = None \<and> (\<exists>s. pool_get po k p1 = Some s) \<and>
        (\<forall>j. pool_index po j \<noteq> pool_index po k \<longrightarrow> pool_get po j p1 = pool_get po j p)) \<and>
     (\<forall>k p s j. pool_get po k p \<noteq> None \<longrightarrow>
        pool_get po j (pool_put po k s p) = (if pool_index po j = pool_index po k then Some s else pool_get po j p)) \<and>
     (\<forall>k p j. pool_get po j (pool_clear po k p) = (if pool_index po j = pool_index po k then None else pool_get po j p))"

text \<open>A round of events in which every listed waiter of an entry wants each event for the entry.\<close>

definition round_wanted ::
    "('p, ('l, 'w) scheduled_io) pool_ops \<Rightarrow> ('l \<Rightarrow> ('n, 'w) waiter list) \<Rightarrow> mio_event list \<Rightarrow> 'p \<Rightarrow> bool" where
  "round_wanted po els events p \<longleftrightarrow> (\<forall>e \<in> set events. token e \<noteq> WAKE_TOKEN \<longrightarrow> (\<forall>sio. pool_get po (token e) p = Some sio \<longrightarrow>
     (\<forall>x \<in> set (els (waiter_list sio)). satisfies (from_mio e) (waiter_interest x))))"

text \<open>A list of entries has this behaviour; the low 32 bits of a key are the position of its entry.\<close>

definition slab :: "((('n, 'w) waiter list, 'w) scheduled_io option list, (('n, 'w) waiter list, 'w) scheduled_io) pool_ops" where
  "slab =
     \<lparr>pool_index = take_bit 32,
      pool_create = (\<lambda>p. if length p < 2 ^ 32 then Some (of_nat (length p), p @ [Some (default_scheduled_io [])]) else None),
      pool_get = (\<lambda>k p. let i = unat (take_bit 32 k) in if i < length p then p ! i else None),
      pool_put = (\<lambda>k s p. p[unat (take_bit 32 k) := Some s]),
      pool_clear = (\<lambda>k p. p[unat (take_bit 32 k) := None])\<rparr>"

text \<open>
  A slab that keeps the storage of its entries, as \<^verbatim>\<open>sharded_slab::Pool\<close> does: a cleared slot runs
  \<^verbatim>\<open>Clear::clear\<close> on its entry and is handed out again, a new slot starts with the default.
\<close>

fun free_slot :: "('s \<times> bool) list \<Rightarrow> nat" where
  "free_slot [] = 0"
| "free_slot (x # xs) = (if snd x then Suc (free_slot xs) else 0)"

definition recycling_slab ::
    "(((('n, 'w) waiter list, 'w) scheduled_io \<times> bool) list, (('n, 'w) waiter list, 'w) scheduled_io) pool_ops" where
  "recycling_slab =
     \<lparr>pool_index = take_bit 32,
      pool_create = (\<lambda>p. let i = free_slot p in
        if 2 ^ 32 \<le> i then None
        else if i < length p then Some (of_nat i, p[i := (fst (p ! i), True)])
        else Some (of_nat i, p @ [(default_scheduled_io [], True)])),
      pool_get = (\<lambda>k p. let i = unat (take_bit 32 k) in if i < length p \<and> snd (p ! i) then Some (fst (p ! i)) else None),
      pool_put = (\<lambda>k s p. let i = unat (take_bit 32 k) in p[i := (s, snd (p ! i))]),
      pool_clear = (\<lambda>k p. let i = unat (take_bit 32 k) in if i < length p then p[i := (projr (clear (fst (p ! i))), False)] else p)\<rparr>"

abbreviation sample_pool :: "((nat, nat) waiter list, nat) scheduled_io option list" where
  "sample_pool \<equiv> [Some \<lparr>readiness = 0, waiter_list = [], reader = Some 7, writer = None\<rparr>]"

abbreviation read_event :: mio_event where
  "read_event \<equiv> \<lparr>token = 0, ev_readable = True, ev_writable = False, ev_read_closed = False, ev_write_closed = False\<rparr>"

lemma pool_specD:
  assumes "pool_spec po"
  shows "pool_create po p = Some (k, p1) \<Longrightarrow> pool_get po k p = None"
    "pool_create po p = Some (k, p1) \<Longrightarrow> \<exists>s. pool_get po k p1 = Some s"
    "pool_create po p = Some (k, p1) \<Longrightarrow> pool_index po j \<noteq> pool_index po k \<Longrightarrow> pool_get po j p1 = pool_get po j p"
    "pool_get po k p = Some s0 \<Longrightarrow>
      pool_get po j (pool_put po k s p) = (if pool_index po j = pool_index po k then Some s else pool_get po j p)"
    "pool_get po j (pool_clear po k p) = (if pool_index po j = pool_index po k then None else pool_get po j p)"
    "pool_index po j = pool_index po k \<Longrightarrow> pool_get po j p = pool_get po k p"
  using assms unfolding pool_spec_def by (blast, blast, blast, metis option.distinct(1), blast, blast)

lemma unat_low_index: "n < 2 ^ 32 \<Longrightarrow> unat (take_bit 32 (of_nat n :: usize)) = n"
proof -
  assume n: "n < 2 ^ 32"
  then have "take_bit 32 n = n" by (simp add: take_bit_nat_eq_self_iff)
  then have "take_bit 32 (of_nat n :: usize) = of_nat n" by (simp add: take_bit_of_nat)
  with n show ?thesis by (simp add: unat_of_nat)
qed

lemma unat_low_inject: "unat (take_bit 32 j :: usize) = unat (take_bit 32 k) \<longleftrightarrow> take_bit 32 j = take_bit 32 k"
  by (simp add: word_unat_eq_iff)

lemma slab_ok [simp]: "pool_spec slab"
proof -
  have ne: "unat (take_bit 32 j :: usize) \<noteq> n" if "take_bit 32 j \<noteq> take_bit 32 (of_nat n :: usize)" "n < 2 ^ 32" for j n
    using that unat_low_inject unat_low_index by metis
  show ?thesis unfolding pool_spec_def
    using ne by (auto simp: slab_def unat_low_index unat_low_inject Let_def nth_append nth_list_update less_Suc_eq split: if_splits)
qed

lemma free_slot_cases: "free_slot p = length p \<or> free_slot p < length p \<and> \<not> snd (p ! free_slot p)"
  by (induction p) auto

lemma recycling_slab_ok [simp]: "pool_spec recycling_slab"
proof -
  have ne: "unat (take_bit 32 j :: usize) \<noteq> n" if "take_bit 32 j \<noteq> take_bit 32 (of_nat n :: usize)" "n < 2 ^ 32" for j n
    using that unat_low_inject unat_low_index by metis
  show ?thesis unfolding pool_spec_def
    using ne free_slot_cases
    by (auto simp: recycling_slab_def unat_low_index unat_low_inject Let_def nth_append nth_list_update less_Suc_eq not_le split: if_splits)
qed

lemma handle_event_ok:
  assumes "pin_list_spec pl els pos" "token e \<noteq> WAKE_TOKEN" "pool_get po (token e) p = Some sio"
    and "\<forall>x \<in> set (els (waiter_list sio)). satisfies (from_mio e) (waiter_interest x)"
  shows "\<exists>sio'. handle_event po pl tk e p = Some (Inr (pool_put po (token e) sio' p,
      slot_wakers (from_mio e) sio @ map waiter_waker (els (waiter_list sio)))) \<and>
    from_usize (readiness sio') = bitor (from_usize (readiness sio)) (from_mio e) \<and>
    tick_of (readiness sio') = tk \<and> generation_of (readiness sio') = generation_of (readiness sio) \<and>
    els (waiter_list sio') = [] \<and>
    reader sio' = (if is_readable (from_mio e) then None else reader sio) \<and>
    writer sio' = (if is_writable (from_mio e) then None else writer sio)"
proof -
  let ?r = "bitor (from_usize (readiness sio)) (from_mio e)"
  let ?s = "sio\<lparr>readiness := packed_word tk (generation_of (readiness sio)) ?r\<rparr>"
  have v: "valid ?r" by (simp add: flag_simps)
  note W = packed_word_view [OF generation_of_fits v]
  have set: "set_readiness (Tick_Set tk) (\<lambda>cur. bitor cur (from_mio e)) sio = Inr ?s"
    by (simp add: word_simps)
  have "\<forall>x \<in> set (els (waiter_list ?s)). satisfies (from_mio e) (waiter_interest x)" using assms(4) by simp
  from wake_all [OF assms(1) this] obtain sio' where sio': "wake pl (from_mio e) ?s =
      Some (Inr (sio', slot_wakers (from_mio e) ?s @ map waiter_waker (els (waiter_list ?s))))"
    "els (waiter_list sio') = []" "reader sio' = (if is_readable (from_mio e) then None else reader ?s)"
    "writer sio' = (if is_writable (from_mio e) then None else writer ?s)" "readiness sio' = readiness ?s"
    by blast
  have "slot_wakers (from_mio e) ?s = slot_wakers (from_mio e) sio" by (simp add: slot_wakers_def)
  then show ?thesis using assms(2,3) set sio' W
    by (intro exI [of _ sio']) (simp add: handle_event_def Let_def)
qed

lemma handle_event_ignored:
  assumes "token e = WAKE_TOKEN \<or> pool_get po (token e) p = None"
  shows "handle_event po pl tk e p = Some (Inr (p, []))"
  using assms by (auto simp: handle_event_def)

text \<open>A whole round: each event records its readiness in its entry and wakes who waits there, whatever the events before it did.\<close>

lemma handle_event_entries:
  assumes "pool_spec po" "pin_list_spec pl els pos" "round_wanted po els [e] p"
  shows "\<exists>p1 ws. handle_event po pl tk e p = Some (Inr (p1, ws)) \<and>
    (\<forall>j. pool_get po j p = None \<longrightarrow> pool_get po j p1 = None) \<and>
    (\<forall>j sio. pool_get po j p = Some sio \<longrightarrow> (\<exists>sio1. pool_get po j p1 = Some sio1 \<and>
      (els (waiter_list sio1) = [] \<or> sio1 = sio) \<and> (reader sio1 = reader sio \<or> set_option (reader sio) \<subseteq> set ws) \<and>
      (pool_index po j = pool_index po (token e) \<and> token e \<noteq> WAKE_TOKEN \<and> is_readable (from_mio e) \<longrightarrow> set_option (reader sio) \<subseteq> set ws)))"
proof (cases "token e = WAKE_TOKEN \<or> pool_get po (token e) p = None")
  case True
  have "\<not> (pool_index po j = pool_index po (token e) \<and> token e \<noteq> WAKE_TOKEN)" if "pool_get po j p = Some sio" for j sio
    using True that pool_specD(6) [OF assms(1), of j "token e" p] by auto
  then show ?thesis using handle_event_ignored [OF True, of pl tk] by (intro exI [of _ p] exI [of _ "[]"]) auto
next
  case False
  then obtain sio where s: "token e \<noteq> WAKE_TOKEN" "pool_get po (token e) p = Some sio" by auto
  then have "\<forall>x \<in> set (els (waiter_list sio)). satisfies (from_mio e) (waiter_interest x)" using assms(3) by (simp add: round_wanted_def)
  from handle_event_ok [OF assms(2) s this, of tk] obtain sio1 where h: "handle_event po pl tk e p = Some (Inr (pool_put po (token e) sio1 p,
      slot_wakers (from_mio e) sio @ map waiter_waker (els (waiter_list sio))))" "els (waiter_list sio1) = []"
    "reader sio1 = (if is_readable (from_mio e) then None else reader sio)" by blast
  let ?p1 = "pool_put po (token e) sio1 p" and ?ws = "slot_wakers (from_mio e) sio @ map waiter_waker (els (waiter_list sio))"
  have same: "pool_get po j p = Some sio" "pool_get po j ?p1 = Some sio1" if "pool_index po j = pool_index po (token e)" for j
    using pool_specD(4) [OF assms(1) s(2), of j sio1] pool_specD(6) [OF assms(1) that, of p] s(2) that by simp_all
  have other: "pool_get po j ?p1 = pool_get po j p" if "pool_index po j \<noteq> pool_index po (token e)" for j
    using pool_specD(4) [OF assms(1) s(2)] that by auto
  have r: "set_option (reader sio) \<subseteq> set ?ws" if "is_readable (from_mio e)" using that by (cases "reader sio") (simp_all add: slot_wakers_def)
  show ?thesis
  proof (intro exI [of _ ?p1] exI [of _ ?ws] conjI allI impI h(1), goal_cases)
    case (1 j)
    then show ?case using same other by (cases "pool_index po j = pool_index po (token e)") auto
  next
    case (2 j y)
    then show ?case using same [of j] other [of j] h(2,3) r by (cases "pool_index po j = pool_index po (token e)") auto
  qed
qed

lemma handle_events_wake:
  assumes "pool_spec po" "pin_list_spec pl els pos" "round_wanted po els events p"
  shows "\<exists>p1 ws. handle_events po pl tk events p = Some (Inr (p1, ws)) \<and>
    (\<forall>e sio cx. e \<in> set events \<and> token e \<noteq> WAKE_TOKEN \<and> is_readable (from_mio e) \<and> pool_get po (token e) p = Some sio \<and> reader sio = Some cx \<longrightarrow> cx \<in> set ws)"
  using assms(3)
proof (induction events arbitrary: p)
  case (Cons h events)
  have "round_wanted po els [h] p" using Cons.prems by (simp add: round_wanted_def)
  from handle_event_entries [OF assms(1,2) this, of tk] obtain p1 ws where h: "handle_event po pl tk h p = Some (Inr (p1, ws))"
    and none: "\<And>j. pool_get po j p = None \<Longrightarrow> pool_get po j p1 = None"
    and some: "\<And>j sio. pool_get po j p = Some sio \<Longrightarrow> \<exists>sio1. pool_get po j p1 = Some sio1 \<and>
      (els (waiter_list sio1) = [] \<or> sio1 = sio) \<and> (reader sio1 = reader sio \<or> set_option (reader sio) \<subseteq> set ws) \<and>
      (pool_index po j = pool_index po (token h) \<and> token h \<noteq> WAKE_TOKEN \<and> is_readable (from_mio h) \<longrightarrow> set_option (reader sio) \<subseteq> set ws)"
    by blast
  have "round_wanted po els events p1" unfolding round_wanted_def
  proof (intro ballI allI impI)
    fix e sio1 x
    assume e: "e \<in> set events" "token e \<noteq> WAKE_TOKEN" "pool_get po (token e) p1 = Some sio1" and x: "x \<in> set (els (waiter_list sio1))"
    then obtain sio where sio: "pool_get po (token e) p = Some sio" using none [of "token e"] by (cases "pool_get po (token e) p") auto
    with some [OF sio] e(3) x have "sio1 = sio" by auto
    with sio e x Cons.prems show "satisfies (from_mio e) (waiter_interest x)" by (auto simp: round_wanted_def)
  qed
  from Cons.IH [OF this] obtain p2 ws2 where t: "handle_events po pl tk events p1 = Some (Inr (p2, ws2))"
    "\<And>e sio cx. e \<in> set events \<Longrightarrow> token e \<noteq> WAKE_TOKEN \<Longrightarrow> is_readable (from_mio e) \<Longrightarrow> pool_get po (token e) p1 = Some sio \<Longrightarrow>
      reader sio = Some cx \<Longrightarrow> cx \<in> set ws2" by blast
  have "cx \<in> set (ws @ ws2)" if "e \<in> set (h # events)" "token e \<noteq> WAKE_TOKEN" "is_readable (from_mio e)" "pool_get po (token e) p = Some sio" "reader sio = Some cx" for e sio cx
    using some [OF that(4)] t(2) [of e] that by (cases "e = h") auto
  with h t(1) show ?case by (intro exI [of _ p2] exI [of _ "ws @ ws2"]) auto
qed simp
lemma token_fields:
  assumes "0 < b" "b + 7 \<le> 64" "k \<le> mask b"
  shows "\<exists>address gen tok. least_significant (of_nat b) = Inr address \<and> then_pack address 7 = Inr gen \<and>
    token_of (of_nat b) k entry = Inr tok \<and> unpack address tok = Inr k \<and>
    unpack gen tok = Inr (generation_of (readiness entry)) \<and>
    take_bit b tok = k \<and> (\<forall>i \<ge> b + 7. \<not> bit tok i)"
proof -
  obtain address where a: "least_significant (of_nat b) = Inr address" "field_at address 0 b"
    using least_significant_ok [of b] assms by auto
  obtain gen where g: "then_pack address (of_nat 7) = Inr gen" "field_at gen b 7"
    using then_pack_ok [OF a(2), of 7] assms by auto
  have pa: "packed_field address 0 b" using a(2) assms by unfold_locales simp_all
  have pg: "packed_field gen b 7" using g(2) by unfold_locales simp_all
  have k: "take_bit b k = k" using assms le_mask_iff_take_bit [of b k] by simp
  obtain base where base: "pack address k 0 = Inr base" using packed_field.pack_total [OF pa k] by simp
  obtain tok where tok: "pack gen (generation_of (readiness entry)) base = Inr tok"
    using packed_field.pack_total [OF pg generation_of_fits] by simp
  have u: "unpack address tok = Inr k"
    using packed_field.pack_frame [OF pg generation_of_fits tok a(2)] packed_field.unpack_pack [OF pa k base] by simp
  have "\<not> bit base i" if "b \<le> i" for i using packed_field.bit_packed [OF pa k base, of i] that by simp
  then have "\<forall>i \<ge> b + 7. \<not> bit tok i" using packed_field.bit_packed [OF pg generation_of_fits tok] by simp
  moreover have "take_bit b tok = k" using u packed_field.unpack_total [OF pa] by simp
  moreover have "unpack gen tok = Inr (generation_of (readiness entry))"
    by (rule packed_field.unpack_pack [OF pg generation_of_fits tok])
  moreover have "generation entry = Inr (generation_of (readiness entry))"
    by (simp add: generation_def gn.unpack_total generation_of_def)
  then have "token_of (of_nat b) k entry = Inr tok" using a g base tok by (simp add: token_of_def)
  ultimately show ?thesis using a g u by (intro exI conjI) (assumption | simp)+
qed

lemma delivers_event:
  assumes "pool_spec po" "pin_list_spec pl els pos" "token e \<noteq> WAKE_TOKEN" "pool_get po (token e) p = Some sio"
    and "\<forall>x \<in> set (els (waiter_list sio)). satisfies (from_mio e) (waiter_interest x)"
  shows "\<exists>p' sio'. poll_timeout po pl (Inr ()) [e] d p = Some (Inr (d\<lparr>driver_tick := driver_tick d + 1\<rparr>, p',
      slot_wakers (from_mio e) sio @ map waiter_waker (els (waiter_list sio)))) \<and>
    pool_get po (token e) p' = Some sio' \<and>
    (\<forall>j. pool_index po j \<noteq> pool_index po (token e) \<longrightarrow> pool_get po j p' = pool_get po j p) \<and>
    from_usize (readiness sio') = bitor (from_usize (readiness sio)) (from_mio e) \<and>
    tick_of (readiness sio') = driver_tick d + 1 \<and> generation_of (readiness sio') = generation_of (readiness sio)"
proof -
  obtain sio' where s: "handle_event po pl (driver_tick d + 1) e p = Some (Inr (pool_put po (token e) sio' p,
      slot_wakers (from_mio e) sio @ map waiter_waker (els (waiter_list sio))))"
    "from_usize (readiness sio') = bitor (from_usize (readiness sio)) (from_mio e)"
    "tick_of (readiness sio') = driver_tick d + 1" "generation_of (readiness sio') = generation_of (readiness sio)"
    using handle_event_ok [OF assms(2-5)] by blast
  have "poll_timeout po pl (Inr ()) [e] d p = Some (Inr (d\<lparr>driver_tick := driver_tick d + 1\<rparr>, pool_put po (token e) sio' p,
      slot_wakers (from_mio e) sio @ map waiter_waker (els (waiter_list sio))))"
    using s(1) by (simp add: poll_timeout_def Let_def)
  with s pool_specD(4) [OF assms(1,4)] show ?thesis by (intro exI [of _ "pool_put po (token e) sio' p"] exI [of _ sio']) auto
qed

lemma source_gets_events:
  assumes "pool_spec po" "pin_list_spec pl els pos" "pool_index po = take_bit b" "0 < b" "b + 7 < 64"
    and "pool_create po p = Some (k, p1)" "pool_get po k p1 = Some sio" "k \<le> mask b" "els (waiter_list sio) = []"
  shows "\<exists>tok. add_source po (of_nat b) reg intr p = Inr (map_sum (\<lambda>e. e) (\<lambda>_. k) (reg tok intr), p1) \<and>
    (\<forall>e. token e = tok \<longrightarrow> (\<exists>p2 sio2 ws. poll_timeout po pl (Inr ()) [e] d p1 = Some (Inr (d\<lparr>driver_tick := driver_tick d + 1\<rparr>, p2, ws)) \<and>
      pool_get po k p2 = Some sio2 \<and> from_usize (readiness sio2) = bitor (from_usize (readiness sio)) (from_mio e) \<and>
      ws = slot_wakers (from_mio e) sio))"
proof -
  obtain tok where tok: "token_of (of_nat b) k sio = Inr tok" "take_bit b tok = k" "\<forall>i \<ge> b + 7. \<not> bit tok i"
    using token_fields [of b k sio] assms(4,5,8) by auto
  have index: "pool_index po tok = pool_index po k" unfolding assms(3) tok(2) [symmetric] by simp
  have get: "pool_get po tok p1 = Some sio" using pool_specD(6) [OF assms(1) index] assms(7) by simp
  have "\<not> bit tok 63" using tok(3) assms(5) by simp
  then have wake: "tok \<noteq> WAKE_TOKEN" by (auto simp: WAKE_TOKEN_def)
  have "add_source po (of_nat b) reg intr p = Inr (map_sum (\<lambda>e. e) (\<lambda>_. k) (reg tok intr), p1)"
    using assms(6,7) tok(1) by (simp add: add_source_def split: sum.split)
  moreover have "\<exists>p2 sio2 ws. poll_timeout po pl (Inr ()) [e] d p1 = Some (Inr (d\<lparr>driver_tick := driver_tick d + 1\<rparr>, p2, ws)) \<and>
      pool_get po k p2 = Some sio2 \<and> from_usize (readiness sio2) = bitor (from_usize (readiness sio)) (from_mio e) \<and>
      ws = slot_wakers (from_mio e) sio" if "token e = tok" for e
    using delivers_event [OF assms(1,2), of e p1 sio d] that wake get assms(9) pool_specD(6) [OF assms(1) index] by auto
  ultimately show ?thesis by blast
qed

subsection \<open>Properties\<close>

text \<open>
  A round of the driver records an event in the entry of its token, wakes the tasks that wait there,
  and leaves every other entry unchanged.
\<close>

theorem poll_timeout_delivers_event:
  assumes "pool_spec po" "pin_list_spec pl els pos" "token e \<noteq> WAKE_TOKEN" "pool_get po (token e) p = Some sio"
    and "\<forall>x \<in> set (els (waiter_list sio)). satisfies (from_mio e) (waiter_interest x)"
  shows "\<exists>p' sio'. poll_timeout po pl (Inr ()) [e] d p = Some (Inr (d\<lparr>driver_tick := driver_tick d + 1\<rparr>, p',
      slot_wakers (from_mio e) sio @ map waiter_waker (els (waiter_list sio)))) \<and>
    pool_get po (token e) p' = Some sio' \<and>
    (\<forall>j. pool_index po j \<noteq> pool_index po (token e) \<longrightarrow> pool_get po j p' = pool_get po j p) \<and>
    from_usize (readiness sio') = bitor (from_usize (readiness sio)) (from_mio e) \<and>
    tick_of (readiness sio') = driver_tick d + 1 \<and> generation_of (readiness sio') = generation_of (readiness sio)"
  by (rule delivers_event [OF assms])

text \<open>
  When the registry refuses a source, add_source returns the error and the slab entry it has created
  stays in use.
\<close>

theorem add_source_keeps_slot_on_error:
  assumes "pool_spec po" "pool_create po p = Some (k, p1)" "pool_get po k p1 = Some s"
    and "token_of used_bits k s = Inr tok" "reg tok intr = Inl e"
  shows "add_source po used_bits reg intr p = Inr (Inl e, p1) \<and> pool_get po k p = None \<and> pool_get po k p1 \<noteq> None"
  using assms pool_specD(1) [OF assms(1,2)] by (simp add: add_source_def)

text \<open>
  C31: add_source gives a source a token under which the driver finds it: when the slab reads only
  the bits of a key it uses, an event with the token is recorded in the entry of the returned key
  and wakes the tasks that wait there, and the token is never the one that wakes the driver. The
  slab is the same when the registry refuses the source: the entry it has created stays in use.
\<close>

theorem registered_source_gets_events:
  assumes "pool_spec po" "pin_list_spec pl els pos" "pool_index po = take_bit b" "0 < b" "b + 7 < 64"
    and "pool_create po p = Some (k, p1)" "pool_get po k p1 = Some sio" "k \<le> mask b" "els (waiter_list sio) = []"
  shows "\<exists>tok. add_source po (of_nat b) reg intr p = Inr (map_sum (\<lambda>e. e) (\<lambda>_. k) (reg tok intr), p1) \<and>
    (\<forall>e. token e = tok \<longrightarrow> (\<exists>p2 sio2 ws. poll_timeout po pl (Inr ()) [e] d p1 = Some (Inr (d\<lparr>driver_tick := driver_tick d + 1\<rparr>, p2, ws)) \<and>
      pool_get po k p2 = Some sio2 \<and> from_usize (readiness sio2) = bitor (from_usize (readiness sio)) (from_mio e) \<and>
      ws = slot_wakers (from_mio e) sio))"
  by (rule source_gets_events [OF assms])

text \<open>
  The token of a source packs without a panic, and unpacking it gives the key of the entry and its
  generation.
\<close>

theorem token_encodes_key_and_generation:
  assumes "0 < b" "b + 7 \<le> 64" "k \<le> mask b"
  shows "\<exists>address gen tok. least_significant (of_nat b) = Inr address \<and> then_pack address 7 = Inr gen \<and>
    token_of (of_nat b) k entry = Inr tok \<and> unpack address tok = Inr k \<and>
    unpack gen tok = Inr (generation_of (readiness entry))"
  using token_fields [OF assms] by blast

subsection \<open>Witnesses\<close>

theorem poll_timeout_delivers_event_witness:
  "\<exists>p' sio'. poll_timeout slab list_pin_list (Inr ()) [read_event] new_driver sample_pool = Some (Inr (\<lparr>driver_tick = 1\<rparr>, p', [7])) \<and>
     pool_get slab 0 p' = Some sio' \<and> tick_of (readiness sio') = 1"
proof -
  let ?sio = "\<lparr>readiness = 0, waiter_list = [] :: (nat, nat) waiter list, reader = Some (7 :: nat), writer = None\<rparr>"
  have t: "token read_event \<noteq> WAKE_TOKEN" by (simp add: WAKE_TOKEN_def)
  have g: "pool_get slab (token read_event) sample_pool = Some ?sio" by (simp add: slab_def)
  have w: "\<forall>x \<in> set (waiter_list ?sio). satisfies (from_mio read_event) (waiter_interest x)" by simp
  have r: "is_readable (from_mio read_event)" "\<not> is_writable (from_mio read_event)"
    by (simp_all add: flag_simps)
  from poll_timeout_delivers_event [OF slab_ok list_pin_list_spec t g w, of new_driver] r show ?thesis
    by (auto simp: slot_wakers_def new_driver_def)
qed

theorem add_source_keeps_slot_on_error_witness:
  "\<exists>p1. add_source slab 40 (\<lambda>_ _. Inl out_of_slots) Interest_READABLE sample_pool = Inr (Inl out_of_slots, p1) \<and>
     pool_get slab 1 sample_pool = None \<and> pool_get slab 1 p1 \<noteq> None"
proof -
  let ?p = "sample_pool @ [Some (default_scheduled_io [])]"
  have "pool_create slab sample_pool = Some (1, ?p)" "pool_get slab 1 ?p = Some (default_scheduled_io [])"
    by (simp_all add: slab_def)
  moreover obtain tok where "token_of 40 1 (default_scheduled_io ([] :: (nat, nat) waiter list) :: (_, nat) scheduled_io) = Inr tok"
    using token_fields [of 40 1] by (auto simp: mask_numeral)
  ultimately show ?thesis
    using add_source_keeps_slot_on_error [OF slab_ok, of sample_pool 1 ?p "default_scheduled_io []" 40 tok "\<lambda>_ _. Inl out_of_slots"] by auto
qed

theorem registered_source_gets_events_witness:
  "\<exists>tok p1. add_source slab 32 (\<lambda>_ _. Inr ()) Interest_READABLE sample_pool = Inr (Inr 1, p1) \<and>
     (\<exists>p2 sio2. poll_timeout slab list_pin_list (Inr ()) [read_event\<lparr>token := tok\<rparr>] new_driver p1 = Some (Inr (\<lparr>driver_tick = 1\<rparr>, p2, [])) \<and>
       pool_get slab 1 p2 = Some sio2)"
proof -
  let ?sio = "default_scheduled_io [] :: ((nat, nat) waiter list, nat) scheduled_io"
  let ?p1 = "sample_pool @ [Some (default_scheduled_io [])]"
  have i: "pool_index (slab :: (_, ((nat, nat) waiter list, nat) scheduled_io) pool_ops) = take_bit 32" by (simp add: slab_def)
  have c: "pool_create slab sample_pool = Some (1, ?p1)" "pool_get slab 1 ?p1 = Some (default_scheduled_io [])"
    by (simp_all add: slab_def)
  have k: "(1 :: usize) \<le> mask 32" by (simp add: mask_numeral)
  have e: "waiter_list ?sio = []" by (simp add: default_scheduled_io_def)
  have w: "slot_wakers r ?sio = []" for r
    by (simp add: default_scheduled_io_def slot_wakers_def)
  from registered_source_gets_events [OF slab_ok list_pin_list_spec i _ _ c k e, of "\<lambda>_ _. Inr ()" Interest_READABLE new_driver]
  obtain tok where a: "add_source slab 32 (\<lambda>_ _. Inr ()) Interest_READABLE sample_pool = Inr (Inr 1, ?p1)"
    and d: "\<forall>e. token e = tok \<longrightarrow> (\<exists>p2 sio2 ws. poll_timeout slab list_pin_list (Inr ()) [e] new_driver ?p1 =
      Some (Inr (new_driver\<lparr>driver_tick := driver_tick new_driver + 1\<rparr>, p2, ws)) \<and> pool_get slab 1 p2 = Some sio2 \<and>
      from_usize (readiness sio2) = bitor (from_usize (readiness ?sio)) (from_mio e) \<and>
      ws = slot_wakers (from_mio e) ?sio)"
    by auto
  have "token (read_event\<lparr>token := tok\<rparr>) = tok" by simp
  with d [rule_format, of "read_event\<lparr>token := tok\<rparr>"] a w show ?thesis by (auto simp: new_driver_def)
qed

theorem token_encodes_key_and_generation_witness:
  "\<exists>tok. token_of 40 5 (\<lparr>readiness = 0x3000000, waiter_list = (), reader = None, writer = None\<rparr> :: (unit, nat) scheduled_io) = Inr tok"
  using token_encodes_key_and_generation [of 40 5] by (auto simp: mask_numeral)

end
