(* ===== verification/Registration.thy ===== *)
theory Registration
  imports Driver
begin

text \<open>
  \<^verbatim>\<open>src/src/io/registration.rs\<close>: a registered source and the loops that attempt an operation
  when the source is ready and clear the readiness when the operation would block. The operation is a
  parameter: a function on the state of the operating system, with an \<^verbatim>\<open>io::Result\<close>. A loop that may run
  forever is an option.
\<close>

type_synonym ('s, 'r) operation = "'s \<Rightarrow> (io_error + 'r) \<times> 's"

text \<open>The handle to the runtime is the slab, passed to every operation.\<close>

record registration =
  key :: usize

definition gone :: io_error where
  "gone = Io_Error Other_Error ''error''"

definition new_with_interest_and_handle ::
    "('p, ('l, 'w) scheduled_io) pool_ops \<Rightarrow> u32 \<Rightarrow> (usize \<Rightarrow> interest \<Rightarrow> io_error + unit) \<Rightarrow> interest \<Rightarrow> 'p \<Rightarrow>
     panic + (io_error + registration) \<times> 'p" where
  "new_with_interest_and_handle po used_bits reg intr p =
     bindE (add_source po used_bits reg intr p) (\<lambda>(res, p1).
       case res of Inl e \<Rightarrow> Inr (Inl e, p1) | Inr k \<Rightarrow> Inr (Inr \<lparr>key = k\<rparr>, p1))"

definition deregister :: "io_error + unit \<Rightarrow> io_error + unit" where
  "deregister dereg = deregister_source dereg"

definition reg_clear_readiness ::
    "('p, ('l, 'w) scheduled_io) pool_ops \<Rightarrow> registration \<Rightarrow> ready_event \<Rightarrow> 'p \<Rightarrow> panic + 'p" where
  "reg_clear_readiness po reg event p =
     (case pool_get po (key reg) p of
        None \<Rightarrow> Inl Unwrap_None
      | Some sio \<Rightarrow> bindE (clear_readiness event sio) (\<lambda>sio1. Inr (pool_put po (key reg) sio1 p)))"

definition poll_ready ::
    "('p, ('l, 'w) scheduled_io) pool_ops \<Rightarrow> registration \<Rightarrow> 'w \<Rightarrow> direction \<Rightarrow> 'p \<Rightarrow>
     panic + (io_error + ready_event) poll \<times> 'p" where
  "poll_ready po reg cx dir p =
     (case pool_get po (key reg) p of
        None \<Rightarrow> Inl Unwrap_None
      | Some sio \<Rightarrow>
          bindE (poll_readiness cx dir sio) (\<lambda>(ev, sio1).
            let p1 = pool_put po (key reg) sio1 p in
            case ev of
              Poll_Pending \<Rightarrow> Inr (Poll_Pending, p1)
            | Poll_Ready e \<Rightarrow> Inr (Poll_Ready (if is_shutdown e then Inl gone else Inr e), p1)))"

definition poll_read_ready ::
    "('p, ('l, 'w) scheduled_io) pool_ops \<Rightarrow> registration \<Rightarrow> 'w \<Rightarrow> 'p \<Rightarrow> panic + (io_error + ready_event) poll \<times> 'p" where
  "poll_read_ready po reg cx p = poll_ready po reg cx Read p"

definition poll_write_ready ::
    "('p, ('l, 'w) scheduled_io) pool_ops \<Rightarrow> registration \<Rightarrow> 'w \<Rightarrow> 'p \<Rightarrow> panic + (io_error + ready_event) poll \<times> 'p" where
  "poll_write_ready po reg cx p = poll_ready po reg cx Write p"

partial_function (option) poll_io ::
    "('p, ('l, 'w) scheduled_io) pool_ops \<Rightarrow> registration \<Rightarrow> 'w \<Rightarrow> direction \<Rightarrow> ('s, 'r) operation \<Rightarrow> 'p \<Rightarrow> 's \<Rightarrow>
     (panic + (io_error + 'r) poll \<times> 'p \<times> 's) option" where
  "poll_io po reg cx dir f p s =
     (case poll_ready po reg cx dir p of
        Inl e \<Rightarrow> Some (Inl e)
      | Inr (Poll_Pending, p1) \<Rightarrow> Some (Inr (Poll_Pending, p1, s))
      | Inr (Poll_Ready (Inl e), p1) \<Rightarrow> Some (Inr (Poll_Ready (Inl e), p1, s))
      | Inr (Poll_Ready (Inr ev), p1) \<Rightarrow>
          (case f s of
             (Inr ret, s1) \<Rightarrow> Some (Inr (Poll_Ready (Inr ret), p1, s1))
           | (Inl e, s1) \<Rightarrow>
               if kind e = WouldBlock then
                 (case reg_clear_readiness po reg ev p1 of
                    Inl x \<Rightarrow> Some (Inl x)
                  | Inr p2 \<Rightarrow> poll_io po reg cx dir f p2 s1)
               else Some (Inr (Poll_Ready (Inl e), p1, s1))))"

definition poll_read_io ::
    "('p, ('l, 'w) scheduled_io) pool_ops \<Rightarrow> registration \<Rightarrow> 'w \<Rightarrow> ('s, 'r) operation \<Rightarrow> 'p \<Rightarrow> 's \<Rightarrow>
     (panic + (io_error + 'r) poll \<times> 'p \<times> 's) option" where
  "poll_read_io po reg cx f p s = poll_io po reg cx Read f p s"

definition poll_write_io ::
    "('p, ('l, 'w) scheduled_io) pool_ops \<Rightarrow> registration \<Rightarrow> 'w \<Rightarrow> ('s, 'r) operation \<Rightarrow> 'p \<Rightarrow> 's \<Rightarrow>
     (panic + (io_error + 'r) poll \<times> 'p \<times> 's) option" where
  "poll_write_io po reg cx f p s = poll_io po reg cx Write f p s"

definition would_block :: io_error where
  "would_block = Io_Error WouldBlock []"

definition try_io ::
    "('p, ('l, 'w) scheduled_io) pool_ops \<Rightarrow> registration \<Rightarrow> interest \<Rightarrow> ('s, 'r) operation \<Rightarrow> 'p \<Rightarrow> 's \<Rightarrow>
     panic + (io_error + 'r) \<times> 'p \<times> 's" where
  "try_io po reg intr f p s =
     (case pool_get po (key reg) p of
        None \<Rightarrow> Inl Unwrap_None
      | Some sio \<Rightarrow>
          bindE (ready_event intr sio) (\<lambda>ev.
            if is_empty (ev_ready ev) then Inr (Inl would_block, p, s)
            else
              (case f s of
                 (Inl e, s1) \<Rightarrow>
                   if kind e = WouldBlock then
                     bindE (reg_clear_readiness po reg ev p) (\<lambda>p1. Inr (Inl would_block, p1, s1))
                   else Inr (Inl e, p, s1)
               | (Inr r, s1) \<Rightarrow> Inr (Inr r, p, s1))))"

text \<open>\<^verbatim>\<open>Drop\<close>.\<close>

definition drop_registration :: "('p, ('l, 'w) scheduled_io) pool_ops \<Rightarrow> registration \<Rightarrow> 'p \<Rightarrow> 'p" where
  "drop_registration po reg p = pool_clear po (key reg) p"

text \<open>
  The futures of \<^verbatim>\<open>readiness\<close> and \<^verbatim>\<open>async_io\<close>: between two polls both hold a \<^verbatim>\<open>Readiness\<close> future. \<open>node\<close> is the
  list node of the \<^verbatim>\<open>Readiness\<close> future a turn of the loop creates.
\<close>

definition readiness_start :: "interest \<Rightarrow> 'n \<Rightarrow> 'n readiness_future" where
  "readiness_start intr node = \<lparr>fut_state = Init, fut_interest = intr, fut_node = node\<rparr>"

definition reg_readiness ::
    "('p, ('l, 'w) scheduled_io) pool_ops \<Rightarrow> ('l, 'c, 'n, 'w) pin_list \<Rightarrow> registration \<Rightarrow> 'w \<Rightarrow> 'n readiness_future \<Rightarrow> 'p \<Rightarrow>
     panic + (io_error + ready_event) poll \<times> 'n readiness_future \<times> 'p" where
  "reg_readiness po pl reg cx fut p =
     (case pool_get po (key reg) p of
        None \<Rightarrow> Inl Unwrap_None
      | Some sio \<Rightarrow>
          bindE (readiness_poll pl cx fut sio) (\<lambda>(ev, fut1, sio1).
            let p1 = pool_put po (key reg) sio1 p in
            case ev of
              Poll_Pending \<Rightarrow> Inr (Poll_Pending, fut1, p1)
            | Poll_Ready e \<Rightarrow> Inr (Poll_Ready (if is_shutdown e then Inl gone else Inr e), fut1, p1)))"

partial_function (option) async_io_poll ::
    "('p, ('l, 'w) scheduled_io) pool_ops \<Rightarrow> ('l, 'c, 'n, 'w) pin_list \<Rightarrow> registration \<Rightarrow> 'w \<Rightarrow> ('s, 'r) operation \<Rightarrow>
     'n readiness_future \<Rightarrow> 'p \<Rightarrow> 's \<Rightarrow> (panic + (io_error + 'r) poll \<times> 'n readiness_future \<times> 'p \<times> 's) option" where
  "async_io_poll po pl reg cx f fut p s =
     (case reg_readiness po pl reg cx fut p of
        Inl e \<Rightarrow> Some (Inl e)
      | Inr (Poll_Pending, fut1, p1) \<Rightarrow> Some (Inr (Poll_Pending, fut1, p1, s))
      | Inr (Poll_Ready (Inl e), fut1, p1) \<Rightarrow> Some (Inr (Poll_Ready (Inl e), fut1, p1, s))
      | Inr (Poll_Ready (Inr ev), fut1, p1) \<Rightarrow>
          (case f s of
             (Inl e, s1) \<Rightarrow>
               if kind e = WouldBlock then
                 (case reg_clear_readiness po reg ev p1 of
                    Inl x \<Rightarrow> Some (Inl x)
                  | Inr p2 \<Rightarrow>
                      async_io_poll po pl reg cx f (readiness_start (fut_interest fut) (fut_node fut)) p2 s1)
               else Some (Inr (Poll_Ready (Inl e), fut1, p1, s1))
           | (Inr r, s1) \<Rightarrow> Some (Inr (Poll_Ready (Inr r), fut1, p1, s1))))"

text \<open>
  A future of \<^verbatim>\<open>async_io\<close> as the task that awaits it sees it. Polling it after it has completed panics.
\<close>

datatype 'n async_fut = Unpolled 'n | Suspended "'n readiness_future" | Finished

definition resumed :: panic where
  "resumed = Expect_Failed ''async fn resumed after completion''"

definition async_io ::
    "('p, ('l, 'w) scheduled_io) pool_ops \<Rightarrow> ('l, 'c, 'n, 'w) pin_list \<Rightarrow> registration \<Rightarrow> interest \<Rightarrow> 'w \<Rightarrow> ('s, 'r) operation \<Rightarrow>
     'n async_fut \<Rightarrow> 'p \<Rightarrow> 's \<Rightarrow> (panic + (io_error + 'r) poll \<times> 'n async_fut \<times> 'p \<times> 's) option" where
  "async_io po pl reg intr cx f st p s =
     (let run = (\<lambda>fut. map_option (map_sum (\<lambda>e. e) (\<lambda>(r, fut1, p1, s1).
          case r of
            Poll_Pending \<Rightarrow> (Poll_Pending, Suspended fut1, p1, s1)
          | Poll_Ready x \<Rightarrow> (Poll_Ready x, Finished, p1, s1)))
        (async_io_poll po pl reg cx f fut p s)) in
      case st of
        Unpolled node \<Rightarrow> run (readiness_start intr node)
      | Suspended fut \<Rightarrow> run fut
      | Finished \<Rightarrow> Some (Inl resumed))"

subsection \<open>Views\<close>

text \<open>The flags of a direction an entry has.\<close>

definition ready_flags :: "direction \<Rightarrow> ('l, 'w) scheduled_io \<Rightarrow> flag set" where
  "ready_flags dir sio = flags (direction_mask dir) \<inter> flags (from_usize (readiness sio))"

abbreviation ready_pool :: "usize \<Rightarrow> ((nat, nat) waiter list, nat) scheduled_io option list" where
  "ready_pool w \<equiv> [Some \<lparr>readiness = w, waiter_list = [], reader = Some 7, writer = None\<rparr>]"

abbreviation polled_entry :: "((nat, nat) waiter list, nat) scheduled_io" where
  "polled_entry \<equiv> \<lparr>readiness = 0, waiter_list = [], reader = Some 7, writer = None\<rparr>"

lemma poll_readiness_cases:
  "poll_readiness cx dir sio =
     (if ready_flags dir sio = {} \<and> \<not> shutdown_of (readiness sio) then Inr (Poll_Pending, store_waker dir cx sio)
      else Inr (Poll_Ready \<lparr>ev_tick = tick_of (readiness sio),
          ev_ready = bitand (direction_mask dir) (from_usize (readiness sio)), is_shutdown = shutdown_of (readiness sio)\<rparr>, sio))"
  by (auto simp: poll_readiness_def poll_readiness_loads_def word_simps Let_def is_empty_masked ready_flags_def)

lemma poll_ready_cases:
  assumes "pool_get po (key reg) p = Some sio" "\<not> shutdown_of (readiness sio)"
  shows "poll_ready po reg cx dir p =
     (if ready_flags dir sio = {} then Inr (Poll_Pending, pool_put po (key reg) (store_waker dir cx sio) p)
      else Inr (Poll_Ready (Inr \<lparr>ev_tick = tick_of (readiness sio),
          ev_ready = bitand (direction_mask dir) (from_usize (readiness sio)), is_shutdown = False\<rparr>), pool_put po (key reg) sio p))"
  using assms by (simp add: poll_ready_def poll_readiness_cases Let_def)

text \<open>What a poll that is pending leaves in the slab.\<close>

lemma poll_ready_pending:
  assumes "pool_spec po" "poll_ready po reg cx dir p = Inr (Poll_Pending, p1)"
  obtains sio where "pool_get po (key reg) p = Some sio" "p1 = pool_put po (key reg) (store_waker dir cx sio) p"
    "pool_get po (key reg) p1 = Some (store_waker dir cx sio)"
  using assms pool_specD(4) [OF assms(1)]
  by (auto simp: poll_ready_def poll_readiness_cases bindE_def Let_def split: option.splits if_splits)

text \<open>Clearing with the event just read removes the flags of the event except the closed ones.\<close>

lemma clear_current:
  assumes "ev_tick ev = tick_of (readiness sio)"
  shows "\<exists>sio'. clear_readiness ev sio = Inr sio' \<and>
    flags (from_usize (readiness sio')) = flags (from_usize (readiness sio)) - (flags (ev_ready ev) - {ReadClosed, WriteClosed}) \<and>
    \<not> shutdown_of (readiness sio') \<and> waiter_list sio' = waiter_list sio \<and> reader sio' = reader sio \<and> writer sio' = writer sio"
proof -
  let ?r = "sub (from_usize (readiness sio)) (sub (sub (ev_ready ev) READ_CLOSED) WRITE_CLOSED)"
  have "valid ?r" by (simp add: flag_simps)
  moreover have "flags ?r = flags (from_usize (readiness sio)) - (flags (ev_ready ev) - {ReadClosed, WriteClosed})"
    by (auto simp: flag_simps)
  ultimately show ?thesis
    using packed_word_view [OF generation_of_fits, of ?r] assms by (simp add: clear_readiness_def word_simps)
qed

lemma reg_clear_current:
  assumes "pool_spec po" "pool_get po (key reg) p = Some sio" "ev_tick ev = tick_of (readiness sio)"
  shows "\<exists>p' sio'. reg_clear_readiness po reg ev p = Inr p' \<and> pool_get po (key reg) p' = Some sio' \<and>
    (\<forall>j. pool_index po j \<noteq> pool_index po (key reg) \<longrightarrow> pool_get po j p' = pool_get po j p) \<and>
    flags (from_usize (readiness sio')) = flags (from_usize (readiness sio)) - (flags (ev_ready ev) - {ReadClosed, WriteClosed}) \<and>
    \<not> shutdown_of (readiness sio') \<and> waiter_list sio' = waiter_list sio"
proof -
  obtain sio' where s: "clear_readiness ev sio = Inr sio'"
    "flags (from_usize (readiness sio')) = flags (from_usize (readiness sio)) - (flags (ev_ready ev) - {ReadClosed, WriteClosed})"
    "\<not> shutdown_of (readiness sio')" "waiter_list sio' = waiter_list sio"
    using clear_current [OF assms(3)] by blast
  then show ?thesis using assms(2) pool_specD(4) [OF assms(1,2)]
    by (intro exI [of _ "pool_put po (key reg) sio' p"] exI [of _ sio']) (simp add: reg_clear_readiness_def)
qed

text \<open>A \<^verbatim>\<open>Readiness\<close> future that starts on a source that is ready completes at once.\<close>

lemma reg_readiness_ready:
  assumes "pool_get po (key reg) p = Some sio" "\<not> shutdown_of (readiness sio)" "satisfies (from_usize (readiness sio)) intr"
  shows "reg_readiness po pl reg cx (readiness_start intr node) p =
    Inr (Poll_Ready (Inr \<lparr>ev_tick = tick_of (readiness sio), ev_ready = intersection (from_usize (readiness sio)) intr,
        is_shutdown = shutdown_of (readiness sio)\<rparr>),
      (readiness_start intr node)\<lparr>fut_state := Done\<rparr>, pool_put po (key reg) sio p)"
  using assms by (simp add: reg_readiness_def readiness_poll_def readiness_start_def poll_init_def word_simps Let_def
      satisfies_intersection)

lemma async_io_ready:
  assumes "pool_get po (key reg) p = Some sio" "\<not> shutdown_of (readiness sio)" "satisfies (from_usize (readiness sio)) intr"
    and "f s = (res, s1)" "\<forall>e. res = Inl e \<longrightarrow> kind e \<noteq> WouldBlock"
  shows "async_io po pl reg intr cx f (Unpolled node) p s =
    Some (Inr (Poll_Ready res, Finished, pool_put po (key reg) sio p, s1))"
proof -
  have "\<exists>fut1. async_io_poll po pl reg cx f (readiness_start intr node) p s =
      Some (Inr (Poll_Ready res, fut1, pool_put po (key reg) sio p, s1))"
    using assms(4,5) by (subst async_io_poll.simps) (simp add: reg_readiness_ready [OF assms(1-3)] split: sum.split)
  then show ?thesis by (auto simp: async_io_def)
qed

text \<open>An attempt in one direction leaves the readiness of the other direction.\<close>

lemma try_io_other_direction:
  assumes "pool_spec po" "pool_get po (key reg) p = Some sio" "try_io po reg intr f p s = Inr (res, p', s')"
    and "intr = (case dir of Read \<Rightarrow> Interest_READABLE | Write \<Rightarrow> Interest_WRITABLE)" "other \<noteq> dir"
  shows "\<exists>sio'. pool_get po (key reg) p' = Some sio' \<and> ready_flags other sio' = ready_flags other sio \<and>
    waiter_list sio' = waiter_list sio \<and> (\<forall>j. pool_index po j \<noteq> pool_index po (key reg) \<longrightarrow> pool_get po j p' = pool_get po j p)"
proof -
  let ?ev = "\<lparr>ev_tick = tick_of (readiness sio), ev_ready = bitand (direction_mask dir) (from_usize (readiness sio)),
    is_shutdown = shutdown_of (readiness sio)\<rparr>"
  have "interest_mask intr = direction_mask dir"
    using assms(4) by (cases dir) (simp_all add: interest_mask_def Interest_READABLE_def Interest_WRITABLE_def)
  then have ev: "ready_event intr sio = Inr ?ev" by (simp add: ready_event_def word_simps)
  have "ev_tick ?ev = tick_of (readiness sio)" by simp
  from reg_clear_current [OF assms(1,2) this] obtain p2 sio2 where c: "reg_clear_readiness po reg ?ev p = Inr p2"
    "pool_get po (key reg) p2 = Some sio2" "\<forall>j. pool_index po j \<noteq> pool_index po (key reg) \<longrightarrow> pool_get po j p2 = pool_get po j p"
    "flags (from_usize (readiness sio2)) = flags (from_usize (readiness sio)) - (flags (ev_ready ?ev) - {ReadClosed, WriteClosed})"
    "waiter_list sio2 = waiter_list sio"
    by blast
  have "flags (direction_mask other) \<inter> flags (direction_mask dir) = {}"
    using assms(5) by (cases dir; cases other) (auto simp: flag_simps)
  then have "ready_flags other sio2 = ready_flags other sio"
    using c(4) by (auto simp: ready_flags_def flag_simps)
  then show ?thesis using assms(2,3) c ev
    by (auto simp: try_io_def split: if_splits prod.splits sum.splits)
qed

text \<open>One turn of the loop of \<^verbatim>\<open>poll_io\<close> whose operation would block.\<close>

lemma poll_io_turn:
  assumes "pool_spec po" "pool_get po (key reg) p = Some sio" "\<not> shutdown_of (readiness sio)" "ready_flags dir sio \<noteq> {}"
  shows "\<exists>ev p1 p2 sio2. poll_ready po reg cx dir p = Inr (Poll_Ready (Inr ev), p1) \<and> reg_clear_readiness po reg ev p1 = Inr p2 \<and>
    pool_get po (key reg) p2 = Some sio2 \<and> (\<forall>j. pool_index po j \<noteq> pool_index po (key reg) \<longrightarrow> pool_get po j p2 = pool_get po j p) \<and>
    ready_flags dir sio2 = ready_flags dir sio \<inter> {ReadClosed, WriteClosed} \<and> \<not> shutdown_of (readiness sio2)"
proof -
  let ?ev = "\<lparr>ev_tick = tick_of (readiness sio), ev_ready = bitand (direction_mask dir) (from_usize (readiness sio)), is_shutdown = False\<rparr>"
  let ?p1 = "pool_put po (key reg) sio p"
  have p1: "pool_get po j ?p1 = (if pool_index po j = pool_index po (key reg) then Some sio else pool_get po j p)" for j
    by (rule pool_specD(4) [OF assms(1,2)])
  have "ev_tick ?ev = tick_of (readiness sio)" by simp
  with p1 obtain p2 sio2 where p2: "reg_clear_readiness po reg ?ev ?p1 = Inr p2" "pool_get po (key reg) p2 = Some sio2"
    "\<forall>j. pool_index po j \<noteq> pool_index po (key reg) \<longrightarrow> pool_get po j p2 = pool_get po j ?p1" "\<not> shutdown_of (readiness sio2)"
    "flags (from_usize (readiness sio2)) = flags (from_usize (readiness sio)) - (flags (ev_ready ?ev) - {ReadClosed, WriteClosed})"
    using reg_clear_current [OF assms(1), of reg ?p1 sio ?ev] by auto
  have "poll_ready po reg cx dir p = Inr (Poll_Ready (Inr ?ev), ?p1)"
    using assms(4) by (simp add: poll_ready_cases [OF assms(2,3)])
  moreover have "ready_flags dir sio2 = ready_flags dir sio \<inter> {ReadClosed, WriteClosed}"
    using p2(5) by (auto simp: ready_flags_def flag_simps)
  ultimately show ?thesis using p1 p2 by (intro exI [of _ ?ev] exI [of _ ?p1] exI [of _ p2] exI [of _ sio2]) auto
qed

lemma try_io_cases:
  assumes "pool_spec po" "pool_get po (key reg) p = Some sio"
    and "intr = (case dir of Read \<Rightarrow> Interest_READABLE | Write \<Rightarrow> Interest_WRITABLE)" "f s = (res, s1)"
  shows "(ready_flags dir sio = {} \<longrightarrow> try_io po reg intr f p s = Inr (Inl would_block, p, s)) \<and>
    (ready_flags dir sio \<noteq> {} \<longrightarrow> (\<forall>e. res = Inl e \<longrightarrow> kind e \<noteq> WouldBlock) \<longrightarrow> try_io po reg intr f p s = Inr (res, p, s1)) \<and>
    (ready_flags dir sio \<noteq> {} \<longrightarrow> (\<exists>e. res = Inl e \<and> kind e = WouldBlock) \<longrightarrow>
      (\<exists>p' sio'. try_io po reg intr f p s = Inr (Inl would_block, p', s1) \<and> pool_get po (key reg) p' = Some sio' \<and>
        ready_flags dir sio' = ready_flags dir sio \<inter> {ReadClosed, WriteClosed}))"
proof -
  let ?ev = "\<lparr>ev_tick = tick_of (readiness sio), ev_ready = bitand (direction_mask dir) (from_usize (readiness sio)),
    is_shutdown = shutdown_of (readiness sio)\<rparr>"
  have "interest_mask intr = direction_mask dir"
    using assms(3) by (cases dir) (simp_all add: interest_mask_def Interest_READABLE_def Interest_WRITABLE_def)
  then have ev: "ready_event intr sio = Inr ?ev" by (simp add: ready_event_def word_simps)
  have empty: "is_empty (ev_ready ?ev) \<longleftrightarrow> ready_flags dir sio = {}" by (simp add: is_empty_masked ready_flags_def)
  obtain p' sio' where c: "reg_clear_readiness po reg ?ev p = Inr p'" "pool_get po (key reg) p' = Some sio'"
    "flags (from_usize (readiness sio')) = flags (from_usize (readiness sio)) - (flags (ev_ready ?ev) - {ReadClosed, WriteClosed})"
    using reg_clear_current [OF assms(1,2), of ?ev] by auto
  have r: "ready_flags dir sio' = ready_flags dir sio \<inter> {ReadClosed, WriteClosed}"
    using c(3) by (auto simp: ready_flags_def flag_simps)
  show ?thesis
    using assms(2,4) ev empty c(1,2) r by (cases res) (auto simp: try_io_def simp del: ready_event.simps)
qed

text \<open>However often the loop turns, a pending outcome has stored the waker of the caller.\<close>

lemma poll_io_pending_registers:
  assumes "pool_spec po" "poll_io po reg cx dir f p s = Some (Inr (Poll_Pending, p1, s1))" "pool_get po (key reg) p = Some sio"
  shows "\<exists>sio1. pool_get po (key reg) p1 = Some sio1 \<and> waker_slot dir sio1 = Some cx \<and> waiter_list sio1 = waiter_list sio"
proof -
  have "pool_spec po \<longrightarrow> (\<forall>sio. pool_get po (key reg) p = Some sio \<longrightarrow> x = Inr (Poll_Pending, p1, s1) \<longrightarrow>
    (\<exists>sio1. pool_get po (key reg) p1 = Some sio1 \<and> waker_slot dir sio1 = Some cx \<and> waiter_list sio1 = waiter_list sio))"
    if "poll_io po reg cx dir f p s = Some x" for x
  proof (rule poll_io.raw_induct [where P = "\<lambda>po reg cx dir f p s x. pool_spec po \<longrightarrow>
      (\<forall>sio. pool_get po (key reg) p = Some sio \<longrightarrow> x = Inr (Poll_Pending, p1, s1) \<longrightarrow>
        (\<exists>sio1. pool_get po (key reg) p1 = Some sio1 \<and> waker_slot dir sio1 = Some cx \<and> waiter_list sio1 = waiter_list sio))", OF _ that],
      intro impI allI, goal_cases)
    case (1 rec po reg cx dir f p s x sio)
    let ?ev = "\<lparr>ev_tick = tick_of (readiness sio), ev_ready = bitand (direction_mask dir) (from_usize (readiness sio)),
      is_shutdown = shutdown_of (readiness sio)\<rparr>"
    have put: "pool_get po (key reg) (pool_put po (key reg) v p) = Some v" for v
      using pool_specD(4) [OF 1(3,4)] by simp
    show ?case
    proof (cases "ready_flags dir sio = {} \<and> \<not> shutdown_of (readiness sio)")
      case True
      then have "p1 = pool_put po (key reg) (store_waker dir cx sio) p"
        using 1(2,4,5) by (simp add: poll_ready_def poll_readiness_cases)
      then show ?thesis using put by simp
    next
      case False
      let ?p = "pool_put po (key reg) sio p"
      have r: "poll_ready po reg cx dir p = Inr (Poll_Ready (if shutdown_of (readiness sio) then Inl gone else Inr ?ev), ?p)"
        using False 1(4) by (auto simp: poll_ready_def poll_readiness_cases)
      have e: "ev_tick ?ev = tick_of (readiness sio)" by simp
      obtain p2 sio2 where c: "reg_clear_readiness po reg ?ev ?p = Inr p2" "pool_get po (key reg) p2 = Some sio2"
        "waiter_list sio2 = waiter_list sio"
        using reg_clear_current [OF 1(3) put e] by blast
      from 1(2,5) r c(1) obtain s2 where "rec po reg cx dir f p2 s2 = Some x"
        by (auto split: if_splits prod.splits sum.splits)
      from 1(1) [OF this] 1(3,5) c(2,3) show ?thesis by auto
    qed
  qed
  from this [OF assms(2)] assms(1,3) show ?thesis by blast
qed

subsection \<open>Properties\<close>

text \<open>
  When the source is ready but the operation would block, poll_io clears the readiness, is pending
  with the waker stored, and touches no other entry: it returns after one attempt.
\<close>

theorem poll_io_waits_after_would_block:
  assumes "pool_spec po" "pool_get po (key reg) p = Some sio" "\<not> shutdown_of (readiness sio)"
    and "ready_flags dir sio \<noteq> {}" "ready_flags dir sio \<inter> {ReadClosed, WriteClosed} = {}"
    and "f s = (Inl e, s1)" "kind e = WouldBlock"
  shows "\<exists>p' sio'. poll_io po reg cx dir f p s = Some (Inr (Poll_Pending, p', s1)) \<and>
    pool_get po (key reg) p' = Some sio' \<and> ready_flags dir sio' = {} \<and> waker_slot dir sio' = Some cx \<and>
    (\<forall>j. pool_index po j \<noteq> pool_index po (key reg) \<longrightarrow> pool_get po j p' = pool_get po j p)"
proof -
  obtain ev p1 p2 sio2 where t: "poll_ready po reg cx dir p = Inr (Poll_Ready (Inr ev), p1)"
    "reg_clear_readiness po reg ev p1 = Inr p2" "pool_get po (key reg) p2 = Some sio2"
    "\<forall>j. pool_index po j \<noteq> pool_index po (key reg) \<longrightarrow> pool_get po j p2 = pool_get po j p" "ready_flags dir sio2 = {}" "\<not> shutdown_of (readiness sio2)"
    using poll_io_turn [OF assms(1-4)] assms(5) by metis
  have "poll_io po reg cx dir f p s = poll_io po reg cx dir f p2 s1"
    using t assms(6,7) by (subst poll_io.simps) simp
  also have "\<dots> = Some (Inr (Poll_Pending, pool_put po (key reg) (store_waker dir cx sio2) p2, s1))"
    using t by (subst poll_io.simps) (simp add: poll_ready_cases)
  finally show ?thesis using t pool_specD(4) [OF assms(1) t(3)]
    by (intro exI [of _ "pool_put po (key reg) (store_waker dir cx sio2) p2"] exI [of _ "store_waker dir cx sio2"])
      (simp add: ready_flags_def)
qed

text \<open>
  C32: poll_io runs the operation only when the source is ready for the direction: a source that is
  not ready makes it pending with the waker of the caller stored, one that is shut down makes it
  fail. An outcome other than WouldBlock is returned after one attempt. After WouldBlock the
  readiness of the direction is cleared except for the closed flags and poll_io goes round again:
  with no closed flag it is pending, its waker stored, after that one attempt.
\<close>

theorem poll_io_attempts_only_when_ready:
  assumes "pool_spec po" "pool_get po (key reg) p = Some sio" "f s = (res, s1)"
  shows "(shutdown_of (readiness sio) \<longrightarrow>
      (\<exists>p'. poll_io po reg cx dir f p s = Some (Inr (Poll_Ready (Inl gone), p', s)) \<and> pool_get po (key reg) p' = Some sio)) \<and>
    (\<not> shutdown_of (readiness sio) \<and> ready_flags dir sio = {} \<longrightarrow>
      (\<exists>p'. poll_io po reg cx dir f p s = Some (Inr (Poll_Pending, p', s)) \<and> pool_get po (key reg) p' = Some (store_waker dir cx sio))) \<and>
    (\<not> shutdown_of (readiness sio) \<and> ready_flags dir sio \<noteq> {} \<longrightarrow>
      ((\<forall>e. res = Inl e \<longrightarrow> kind e \<noteq> WouldBlock) \<longrightarrow>
        (\<exists>p'. poll_io po reg cx dir f p s = Some (Inr (Poll_Ready res, p', s1)) \<and> pool_get po (key reg) p' = Some sio)) \<and>
      (\<forall>e. res = Inl e \<and> kind e = WouldBlock \<longrightarrow>
        (\<exists>p' sio'. poll_io po reg cx dir f p s = poll_io po reg cx dir f p' s1 \<and> pool_get po (key reg) p' = Some sio' \<and>
          ready_flags dir sio' = ready_flags dir sio \<inter> {ReadClosed, WriteClosed} \<and> \<not> shutdown_of (readiness sio') \<and>
          (\<forall>j. pool_index po j \<noteq> pool_index po (key reg) \<longrightarrow> pool_get po j p' = pool_get po j p)) \<and>
        (ready_flags dir sio \<inter> {ReadClosed, WriteClosed} = {} \<longrightarrow>
          (\<exists>p' sio'. poll_io po reg cx dir f p s = Some (Inr (Poll_Pending, p', s1)) \<and> pool_get po (key reg) p' = Some sio' \<and>
            ready_flags dir sio' = {} \<and> waker_slot dir sio' = Some cx))))"
proof (intro conjI impI allI)
  note put = pool_specD(4) [OF assms(1,2)]
  show "\<exists>p'. poll_io po reg cx dir f p s = Some (Inr (Poll_Ready (Inl gone), p', s)) \<and> pool_get po (key reg) p' = Some sio"
    if "shutdown_of (readiness sio)"
    using that put assms(2) by (subst poll_io.simps) (auto simp: poll_ready_def poll_readiness_cases)
  show "\<exists>p'. poll_io po reg cx dir f p s = Some (Inr (Poll_Pending, p', s)) \<and> pool_get po (key reg) p' = Some (store_waker dir cx sio)"
    if "\<not> shutdown_of (readiness sio) \<and> ready_flags dir sio = {}"
    using that put by (subst poll_io.simps) (simp add: poll_ready_cases [OF assms(2)])
next
  assume r: "\<not> shutdown_of (readiness sio) \<and> ready_flags dir sio \<noteq> {}"
  show "\<exists>p'. poll_io po reg cx dir f p s = Some (Inr (Poll_Ready res, p', s1)) \<and> pool_get po (key reg) p' = Some sio"
    if "\<forall>e. res = Inl e \<longrightarrow> kind e \<noteq> WouldBlock"
    using that r assms(3) pool_specD(4) [OF assms(1,2)] by (subst poll_io.simps) (auto simp: poll_ready_cases [OF assms(2)] split: sum.splits)
  fix e assume e: "res = Inl e \<and> kind e = WouldBlock"
  obtain ev p1 p2 sio2 where "poll_ready po reg cx dir p = Inr (Poll_Ready (Inr ev), p1)" "reg_clear_readiness po reg ev p1 = Inr p2"
    "pool_get po (key reg) p2 = Some sio2" "\<forall>j. pool_index po j \<noteq> pool_index po (key reg) \<longrightarrow> pool_get po j p2 = pool_get po j p"
    "ready_flags dir sio2 = ready_flags dir sio \<inter> {ReadClosed, WriteClosed}" "\<not> shutdown_of (readiness sio2)"
    using poll_io_turn [OF assms(1,2), of dir cx] r by blast
  moreover from this(1,2) e assms(3) have "poll_io po reg cx dir f p s = poll_io po reg cx dir f p2 s1" by (subst poll_io.simps) simp
  ultimately show "\<exists>p' sio'. poll_io po reg cx dir f p s = poll_io po reg cx dir f p' s1 \<and> pool_get po (key reg) p' = Some sio' \<and>
      ready_flags dir sio' = ready_flags dir sio \<inter> {ReadClosed, WriteClosed} \<and> \<not> shutdown_of (readiness sio') \<and>
      (\<forall>j. pool_index po j \<noteq> pool_index po (key reg) \<longrightarrow> pool_get po j p' = pool_get po j p)" by blast
  show "\<exists>p' sio'. poll_io po reg cx dir f p s = Some (Inr (Poll_Pending, p', s1)) \<and> pool_get po (key reg) p' = Some sio' \<and>
      ready_flags dir sio' = {} \<and> waker_slot dir sio' = Some cx" if "ready_flags dir sio \<inter> {ReadClosed, WriteClosed} = {}"
    using poll_io_waits_after_would_block [OF assms(1,2), of dir f s e s1 cx] that r e assms(3) by blast
qed

text \<open>
  While a closed flag is set, an operation that always would block is attempted again and again.
\<close>

theorem poll_io_spins_on_closed:
  assumes "pool_spec po" "pool_get po (key reg) p = Some sio" "\<not> shutdown_of (readiness sio)"
    and "ready_flags dir sio \<inter> {ReadClosed, WriteClosed} \<noteq> {}" "\<forall>s. \<exists>e s1. f s = (Inl e, s1) \<and> kind e = WouldBlock"
  shows "poll_io po reg cx dir f p s = None"
proof -
  define stuck where "stuck q \<longleftrightarrow> (\<exists>sio. pool_get po (key reg) q = Some sio \<and> \<not> shutdown_of (readiness sio) \<and>
      ready_flags dir sio \<inter> {ReadClosed, WriteClosed} \<noteq> {})" for q
  have "\<not> stuck p" if ret: "poll_io po reg cx dir f p s = Some y" for y
  proof (rule poll_io.raw_induct [where P = "\<lambda>po' reg' cx' dir' f' q s y. po' = po \<longrightarrow> reg' = reg \<longrightarrow> cx' = cx \<longrightarrow> dir' = dir \<longrightarrow> f' = f \<longrightarrow> \<not> stuck q",
      OF _ ret, rule_format], goal_cases)
    case (1 rec po' reg' cx' dir' f' q s y)
    show ?case
    proof
      assume "stuck q"
      then obtain sio where q: "pool_get po (key reg) q = Some sio" "\<not> shutdown_of (readiness sio)"
        "ready_flags dir sio \<inter> {ReadClosed, WriteClosed} \<noteq> {}" by (auto simp: stuck_def)
      then have "ready_flags dir sio \<noteq> {}" by auto
      from poll_io_turn [OF assms(1) q(1,2) this, of cx] obtain ev p1 p2 sio2 where
        t: "poll_ready po reg cx dir q = Inr (Poll_Ready (Inr ev), p1)"
        "reg_clear_readiness po reg ev p1 = Inr p2" "pool_get po (key reg) p2 = Some sio2"
        "ready_flags dir sio2 = ready_flags dir sio \<inter> {ReadClosed, WriteClosed}" "\<not> shutdown_of (readiness sio2)"
        by blast
      then have "stuck p2" using q(3) by (simp add: stuck_def)
      obtain e s1 where "f s = (Inl e, s1)" "kind e = WouldBlock" using assms(5) by blast
      with 1 t have "rec po reg cx dir f p2 s1 = Some y" by simp
      with 1(1) \<open>stuck p2\<close> show False by blast
    qed
  qed simp_all
  moreover have "stuck p" using assms(2-4) by (auto simp: stuck_def)
  ultimately show ?thesis by (cases "poll_io po reg cx dir f p s") auto
qed

text \<open>
  try_io attempts the operation only when the source is ready, gives its outcome unchanged, and
  clears the readiness when the operation would block, except for the closed flags.
\<close>

theorem try_io_attempts_only_when_ready:
  assumes "pool_spec po" "pool_get po (key reg) p = Some sio"
    and "intr = (case dir of Read \<Rightarrow> Interest_READABLE | Write \<Rightarrow> Interest_WRITABLE)" "f s = (res, s1)"
  shows "(ready_flags dir sio = {} \<longrightarrow> try_io po reg intr f p s = Inr (Inl would_block, p, s)) \<and>
    (ready_flags dir sio \<noteq> {} \<longrightarrow> (\<forall>e. res = Inl e \<longrightarrow> kind e \<noteq> WouldBlock) \<longrightarrow> try_io po reg intr f p s = Inr (res, p, s1)) \<and>
    (ready_flags dir sio \<noteq> {} \<longrightarrow> (\<exists>e. res = Inl e \<and> kind e = WouldBlock) \<longrightarrow>
      (\<exists>p' sio'. try_io po reg intr f p s = Inr (Inl would_block, p', s1) \<and> pool_get po (key reg) p' = Some sio' \<and>
        ready_flags dir sio' = ready_flags dir sio \<inter> {ReadClosed, WriteClosed}))"
  by (rule try_io_cases [where f = f and s = s, OF assms])

lemma try_io_both_interests_never_attempts:
  assumes "pool_get po (key reg) p = Some sio"
  shows "try_io po reg Interest_BOTH f p s = Inr (Inl would_block, p, s)"
proof -
  have "interest_mask Interest_BOTH = EMPTY"
    by (simp add: interest_mask_def Interest_BOTH_def Interest_READABLE_def Interest_WRITABLE_def)
  moreover have "is_empty (bitand EMPTY r)" for r by (simp add: is_empty_def bitand_def EMPTY_def)
  ultimately show ?thesis using assms by (simp add: try_io_def ready_event_def word_simps)
qed

text \<open>
  After a registration has been dropped, an event that still carries its key changes no entry and
  wakes nobody.
\<close>

theorem dropped_registration_gets_no_events:
  assumes "pool_spec po" "pool_index po (token e) = pool_index po (key reg)"
  shows "poll_timeout po pl (Inr ()) [e] d (drop_registration po reg p) =
    Some (Inr (d\<lparr>driver_tick := driver_tick d + 1\<rparr>, drop_registration po reg p, []))"
  using assms by (simp add: poll_timeout_def Let_def drop_registration_def handle_event_ignored pool_specD(5))

text \<open>
  A future of async_io whose operation would block clears the readiness, enters the list of waiters
  with the waker of its task and is pending.
\<close>

theorem async_io_waits_after_would_block:
  assumes "pool_spec po" "pin_list_spec pl els pos" "pool_get po (key reg) p = Some sio" "\<not> shutdown_of (readiness sio)"
    and "map_of (els (waiter_list sio)) node = None" "satisfies (from_usize (readiness sio)) intr"
    and "flags (from_usize (readiness sio)) \<inter> {ReadClosed, WriteClosed} = {}" "f s = (Inl e, s1)" "kind e = WouldBlock"
  shows "\<exists>p' sio'. async_io_poll po pl reg cx f (readiness_start intr node) p s =
      Some (Inr (Poll_Pending, (readiness_start intr node)\<lparr>fut_state := Waiting\<rparr>, p', s1)) \<and>
    pool_get po (key reg) p' = Some sio' \<and> els (waiter_list sio') = (node, cx, intr) # els (waiter_list sio) \<and>
    \<not> satisfies (from_usize (readiness sio')) intr"
proof -
  let ?fut = "readiness_start intr node"
  let ?w = "readiness sio"
  let ?ev = "\<lparr>ev_tick = tick_of ?w, ev_ready = intersection (from_usize ?w) intr, is_shutdown = shutdown_of ?w\<rparr>"
  let ?p1 = "pool_put po (key reg) sio p"
  have p1: "pool_get po (key reg) ?p1 = Some sio" using pool_specD(4) [OF assms(1,3)] by simp
  have r1: "reg_readiness po pl reg cx ?fut p = Inr (Poll_Ready (Inr ?ev), ?fut\<lparr>fut_state := Done\<rparr>, ?p1)"
    by (rule reg_readiness_ready [OF assms(3,4,6)])
  obtain p2 sio2 where p2: "reg_clear_readiness po reg ?ev ?p1 = Inr p2" "pool_get po (key reg) p2 = Some sio2"
    "flags (from_usize (readiness sio2)) = flags (from_usize ?w) - (flags (ev_ready ?ev) - {ReadClosed, WriteClosed})"
    "\<not> shutdown_of (readiness sio2)" "waiter_list sio2 = waiter_list sio"
    using reg_clear_current [OF assms(1) p1, of ?ev] by auto
  have unready: "\<not> satisfies (from_usize (readiness sio2)) intr"
    using p2(3) assms(7) by (auto simp: satisfies_iff flag_simps)
  obtain sio3 where sio3: "readiness_poll pl cx ?fut sio2 = Inr (Poll_Pending, ?fut\<lparr>fut_state := Waiting\<rparr>, sio3)"
    "els (waiter_list sio3) = (node, cx, intr) # els (waiter_list sio)" "sio3\<lparr>waiter_list := waiter_list sio2\<rparr> = sio2"
    using readiness_init_waits [OF assms(2), of ?fut sio2 cx] unready p2(4,5) assms(5) by (auto simp: readiness_start_def)
  let ?p3 = "pool_put po (key reg) sio3 p2"
  have "reg_readiness po pl reg cx ?fut p2 = Inr (Poll_Pending, ?fut\<lparr>fut_state := Waiting\<rparr>, ?p3)"
    using p2(2) sio3(1) by (simp add: reg_readiness_def)
  then have "async_io_poll po pl reg cx f ?fut p2 s1 = Some (Inr (Poll_Pending, ?fut\<lparr>fut_state := Waiting\<rparr>, ?p3, s1))"
    by (subst async_io_poll.simps) simp
  moreover have "async_io_poll po pl reg cx f ?fut p s = async_io_poll po pl reg cx f ?fut p2 s1"
    using r1 p2(1) assms(8,9) by (subst async_io_poll.simps) (simp add: readiness_start_def)
  moreover have "readiness sio3 = readiness sio2" using arg_cong [OF sio3(3), of readiness] by simp
  ultimately show ?thesis using pool_specD(4) [OF assms(1) p2(2)] sio3(2) unready
    by (intro exI [of _ ?p3] exI [of _ sio3]) simp
qed

subsection \<open>Witnesses\<close>

lemma sample_get:
  "pool_get slab 0 (ready_pool w) = Some \<lparr>readiness = w, waiter_list = [], reader = Some 7, writer = None\<rparr>"
  by (simp add: slab_def)

lemma sample_words:
  "from_usize 1 = READABLE" "from_usize 5 = bitor READABLE READ_CLOSED" "\<not> shutdown_of 1" "\<not> shutdown_of 5"
  by (simp_all add: from_usize_def bitor_def ready_consts shutdown_of_def)

lemma sample_flags:
  "ready_flags Read \<lparr>readiness = 1, waiter_list = l, reader = a, writer = b\<rparr> = {Readable}"
  "ready_flags Read \<lparr>readiness = 5, waiter_list = l, reader = a, writer = b\<rparr> = {Readable, ReadClosed}"
  by (auto simp: ready_flags_def sample_words flag_simps)

theorem poll_io_attempts_only_when_ready_witness:
  "(\<exists>p'. poll_io slab \<lparr>key = 0\<rparr> 9 Read (\<lambda>s. (Inr (s + 1 :: nat), s)) (ready_pool 1) 3 = Some (Inr (Poll_Ready (Inr 4), p', 3))) \<and>
   (\<exists>p'. poll_io slab \<lparr>key = 0\<rparr> 9 Read (\<lambda>s. (Inl would_block :: io_error + nat, s)) (ready_pool 1) (3 :: nat) = Some (Inr (Poll_Pending, p', 3)))"
proof -
  let ?sio = "\<lparr>readiness = 1, waiter_list = [], reader = Some 7, writer = None\<rparr>"
  have g: "pool_get slab (key \<lparr>key = 0\<rparr>) (ready_pool 1) = Some ?sio" by (simp add: sample_get)
  have r: "\<not> shutdown_of (readiness ?sio) \<and> ready_flags Read ?sio \<noteq> {}" "ready_flags Read ?sio \<inter> {ReadClosed, WriteClosed} = {}"
    by (simp_all add: sample_words sample_flags)
  have "\<exists>p'. poll_io slab \<lparr>key = 0\<rparr> 9 Read (\<lambda>s. (Inr (s + 1 :: nat), s)) (ready_pool 1) 3 = Some (Inr (Poll_Ready (Inr 4), p', 3))"
    using poll_io_attempts_only_when_ready [OF slab_ok g, of "\<lambda>s. (Inr (s + 1 :: nat), s)" 3 "Inr 4" 3 9 Read] r(1) by auto
  moreover have "\<exists>p'. poll_io slab \<lparr>key = 0\<rparr> 9 Read (\<lambda>s. (Inl would_block :: io_error + nat, s)) (ready_pool 1) (3 :: nat) = Some (Inr (Poll_Pending, p', 3))"
    using poll_io_attempts_only_when_ready [OF slab_ok g, of "\<lambda>s. (Inl would_block :: io_error + nat, s)" 3 "Inl would_block" 3 9 Read] r
    by (auto simp: would_block_def)
  ultimately show ?thesis ..
qed

theorem poll_io_waits_after_would_block_witness:
  "\<exists>p'. poll_io slab \<lparr>key = 0\<rparr> 9 Read (\<lambda>s. (Inl would_block :: io_error + nat, s)) (ready_pool 1) (3 :: nat) = Some (Inr (Poll_Pending, p', 3))"
proof -
  have "kind would_block = WouldBlock" by (simp add: would_block_def)
  with poll_io_waits_after_would_block [OF slab_ok, of "\<lparr>key = 0\<rparr>" "ready_pool 1" _ Read
      "\<lambda>s. (Inl would_block :: io_error + nat, s)" 3 would_block 3 9]
  show ?thesis by (fastforce simp: sample_get sample_words sample_flags)
qed

theorem poll_io_spins_on_closed_witness:
  "poll_io slab \<lparr>key = 0\<rparr> 9 Read (\<lambda>s. (Inl would_block :: io_error + nat, s)) (ready_pool 5) (3 :: nat) = None"
  by (rule poll_io_spins_on_closed [OF slab_ok, where sio = "\<lparr>readiness = 5, waiter_list = [], reader = Some 7, writer = None\<rparr>"])
    (simp_all add: sample_get sample_words sample_flags would_block_def)

theorem try_io_attempts_only_when_ready_witness:
  "try_io slab \<lparr>key = 0\<rparr> Interest_READABLE (\<lambda>s. (Inr (8 :: nat), s + 1)) (ready_pool 1) (3 :: nat) = Inr (Inr 8, ready_pool 1, 4)"
proof -
  have "Interest_READABLE = (case Read of Read \<Rightarrow> Interest_READABLE | Write \<Rightarrow> Interest_WRITABLE)" by simp
  from try_io_attempts_only_when_ready [OF slab_ok _ this, of "\<lparr>key = 0\<rparr>" "ready_pool 1"
      "\<lparr>readiness = 1, waiter_list = [], reader = Some 7, writer = None\<rparr>" "\<lambda>s. (Inr (8 :: nat), s + 1)" "3 :: nat" "Inr 8" 4]
  show ?thesis by (simp add: sample_get sample_flags)
qed

theorem dropped_registration_gets_no_events_witness:
  "poll_timeout slab list_pin_list (Inr ()) [read_event] new_driver (drop_registration slab \<lparr>key = 0\<rparr> sample_pool) =
    Some (Inr (new_driver\<lparr>driver_tick := driver_tick new_driver + 1\<rparr>, drop_registration slab \<lparr>key = 0\<rparr> sample_pool, []))"
  by (rule dropped_registration_gets_no_events [OF slab_ok]) simp

theorem async_io_waits_after_would_block_witness:
  "\<exists>p'. async_io_poll slab list_pin_list \<lparr>key = 0\<rparr> 9 (\<lambda>s. (Inl would_block :: io_error + nat, s))
      (readiness_start Interest_READABLE 4) (ready_pool 1) (3 :: nat) =
    Some (Inr (Poll_Pending, (readiness_start Interest_READABLE 4)\<lparr>fut_state := Waiting\<rparr>, p', 3))"
proof -
  have "satisfies READABLE Interest_READABLE" by (simp add: satisfies_iff flag_simps Interest_READABLE_def)
  then show ?thesis
    using async_io_waits_after_would_block [OF slab_ok list_pin_list_spec, of "\<lparr>key = 0\<rparr>" "ready_pool 1" _ 4 Interest_READABLE
      "\<lambda>s. (Inl would_block :: io_error + nat, s)" 3 would_block 3 9]
    by (fastforce simp: sample_get sample_words would_block_def)
qed

text \<open>
  C33: When a source is dropped while a task polls it, with no future listed in its entry, and the
  slab hands the cleared entry to a new source, the new source is not ready before its first event;
  but the entry still holds the waker of the old task, and an event of the new source in that
  direction that comes before the new source is polled wakes it.
\<close>

theorem reused_entry_keeps_waker:
  assumes "pool_spec po" "pin_list_spec pl els pos" "pool_index po = take_bit b" "0 < b" "b + 7 < 64"
    and "poll_ready po reg cx dir p = Inr (Poll_Pending, p1)" "pool_get po (key reg) p1 = Some sio" "els (waiter_list sio) = []"
    and "clear sio = Inr sio'" "pool_create po (drop_registration po reg p1) = Some (k, p2)" "pool_get po k p2 = Some sio'" "k \<le> mask b"
  shows "\<exists>tok. add_source po (of_nat b) register intr (drop_registration po reg p1) = Inr (map_sum (\<lambda>e. e) (\<lambda>_. k) (register tok intr), p2) \<and>
    poll_ready po \<lparr>key = k\<rparr> cx' dir' p2 = Inr (Poll_Pending, pool_put po k (store_waker dir' cx' sio') p2) \<and>
    (\<forall>e. token e = tok \<longrightarrow> flags (from_mio e) \<inter> flags (direction_mask dir) \<noteq> {} \<longrightarrow>
      (\<exists>p3 ws. poll_timeout po pl (Inr ()) [e] d p2 = Some (Inr (d\<lparr>driver_tick := driver_tick d + 1\<rparr>, p3, ws)) \<and> cx \<in> set ws))"
proof -
  obtain sio0 where "pool_get po (key reg) p1 = Some (store_waker dir cx sio0)" by (rule poll_ready_pending [OF assms(1,6)])
  then have "waker_slot dir sio = Some cx" using assms(7) store_waker_slot(1) [of dir cx sio0] by simp
  moreover obtain x where x: "sio' = sio\<lparr>readiness := x\<rparr>" "is_empty (from_usize x)" "\<not> shutdown_of x"
    using clear_total [of sio] assms(9) by auto
  ultimately have slot: "waker_slot dir sio' = Some cx" by (cases dir) (simp_all add: waker_slot_def)
  have els: "els (waiter_list sio') = []" using assms(8) x(1) by simp
  have quiet: "ready_flags dir' sio' = {}" using x(1,2) is_empty_iff [of "from_usize x"] by (simp add: ready_flags_def)
  have pend: "poll_ready po \<lparr>key = k\<rparr> cx' dir' p2 = Inr (Poll_Pending, pool_put po k (store_waker dir' cx' sio') p2)"
    using poll_ready_cases [of po "\<lparr>key = k\<rparr>" p2 sio' cx' dir'] assms(11) quiet x(1,3) by simp
  obtain tok where tok: "add_source po (of_nat b) register intr (drop_registration po reg p1) = Inr (map_sum (\<lambda>e. e) (\<lambda>_. k) (register tok intr), p2)"
    "\<And>e. token e = tok \<Longrightarrow> \<exists>p3 ws. poll_timeout po pl (Inr ()) [e] d p2 = Some (Inr (d\<lparr>driver_tick := driver_tick d + 1\<rparr>, p3, ws)) \<and>
      ws = slot_wakers (from_mio e) sio'"
    using source_gets_events [OF assms(1-5,10,11,12) els, of register intr d] by blast
  have "cx \<in> set (slot_wakers (from_mio e) sio')" if "flags (from_mio e) \<inter> flags (direction_mask dir) \<noteq> {}" for e
    using that slot by (intro slot_wakers_member [of dir]) (cases dir; auto simp: flag_simps)+
  with tok pend show ?thesis by (intro exI [of _ tok]) blast
qed


theorem reused_entry_keeps_waker_witness:
  "\<exists>tok p3 ws. add_source recycling_slab 32 (\<lambda>_ _. Inr ()) Interest_READABLE (drop_registration recycling_slab \<lparr>key = 0\<rparr> [(polled_entry, True)]) =
      Inr (Inr 0, [(projr (clear polled_entry), True)]) \<and>
    poll_timeout recycling_slab list_pin_list (Inr ()) [read_event\<lparr>token := tok\<rparr>] new_driver [(projr (clear polled_entry), True)] =
      Some (Inr (\<lparr>driver_tick = 1\<rparr>, p3, ws)) \<and> 7 \<in> set ws"
proof -
  let ?s0 = "polled_entry\<lparr>reader := None\<rparr>"
  let ?s1 = "projr (clear polled_entry)"
  have c: "clear polled_entry = Inr ?s1" using clear_total [of polled_entry] by auto
  have q: "from_usize 0 = EMPTY" "\<not> shutdown_of 0" by (simp_all add: from_usize_def EMPTY_def shutdown_of_def)
  have pend: "poll_ready recycling_slab \<lparr>key = 0\<rparr> 7 Read [(?s0, True)] = Inr (Poll_Pending, [(polled_entry, True)])"
    using poll_ready_cases [of recycling_slab "\<lparr>key = 0\<rparr>" "[(?s0, True)]" ?s0 7 Read] q
    by (simp add: recycling_slab_def ready_flags_def store_waker_def)
  have drop: "drop_registration recycling_slab \<lparr>key = 0\<rparr> [(polled_entry, True)] = [(?s1, False)]"
    by (simp add: drop_registration_def recycling_slab_def)
  have create: "pool_create recycling_slab [(?s1, False)] = Some (0, [(?s1, True)])" by (simp add: recycling_slab_def)
  have get: "pool_get recycling_slab 0 [(polled_entry, True)] = Some polled_entry" "pool_get recycling_slab 0 [(?s1, True)] = Some ?s1"
    "pool_index recycling_slab = take_bit 32"
    by (simp_all add: recycling_slab_def)
  have ev: "flags (from_mio (read_event\<lparr>token := t\<rparr>)) \<inter> flags (direction_mask Read) \<noteq> {}" for t by (auto simp: flag_simps)
  from reused_entry_keeps_waker [OF recycling_slab_ok list_pin_list_spec get(3) _ _ pend _ _ c, of 0 "[(?s1, True)]" "\<lambda>_ _. Inr ()" Interest_READABLE 8 Read new_driver]
  obtain tok where tok: "add_source recycling_slab 32 (\<lambda>_ _. Inr ()) Interest_READABLE [(?s1, False)] = Inr (Inr 0, [(?s1, True)])"
    "\<And>e. token e = tok \<Longrightarrow> flags (from_mio e) \<inter> flags (direction_mask Read) \<noteq> {} \<Longrightarrow>
      \<exists>p3 ws. poll_timeout recycling_slab list_pin_list (Inr ()) [e] new_driver [(?s1, True)] =
        Some (Inr (new_driver\<lparr>driver_tick := driver_tick new_driver + 1\<rparr>, p3, ws)) \<and> 7 \<in> set ws"
    using get create by (auto simp: drop)
  from tok(2) [of "read_event\<lparr>token := tok\<rparr>"] ev [of tok] tok(1) show ?thesis unfolding drop
    by (intro exI [of _ tok]) (auto simp: new_driver_def)
qed

end
