(* ===== verification/Poll_Evented.thy ===== *)
theory Poll_Evented
  imports Registration
begin

text \<open>
  \<^verbatim>\<open>src/src/io/poll_evented.rs\<close>: a source together with its registration, and the read and write
  loops. The calls of the operating system are parameters: \<open>rd\<close> fills a buffer, \<open>wr\<close> takes one, both
  report how many bytes they moved or an error. The platform is not Windows. The source is present except while it
  is dropped.
\<close>

record 'e poll_evented =
  io :: "'e option"
  registration :: registration

definition new_evented ::
    "('p, ('l, 'w) scheduled_io) pool_ops \<Rightarrow> u32 \<Rightarrow> (usize \<Rightarrow> interest \<Rightarrow> io_error + unit) \<Rightarrow> 'e \<Rightarrow> interest \<Rightarrow> 'p \<Rightarrow>
     panic + (io_error + 'e poll_evented) \<times> 'p" where
  "new_evented po used_bits reg src intr p =
     bindE (new_with_interest_and_handle po used_bits reg intr p) (\<lambda>(res, p1).
       case res of
         Inl e \<Rightarrow> Inr (Inl e, p1)
       | Inr r \<Rightarrow> Inr (Inr \<lparr>io = Some src, registration = r\<rparr>, p1))"

text \<open>\<^verbatim>\<open>new_with_interest\<close> takes the slab from \<open>HANDLE\<close>: \<open>None\<close> outside of a runtime.\<close>

definition new_with_interest ::
    "('p, ('l, 'w) scheduled_io) pool_ops \<Rightarrow> u32 \<Rightarrow> (usize \<Rightarrow> interest \<Rightarrow> io_error + unit) \<Rightarrow> 'e \<Rightarrow> interest \<Rightarrow> 'p option \<Rightarrow>
     panic + (io_error + 'e poll_evented) \<times> 'p" where
  "new_with_interest po used_bits reg src intr handle =
     (case handle of None \<Rightarrow> Inl Unwrap_None | Some p \<Rightarrow> new_evented po used_bits reg src intr p)"

definition new ::
    "('p, ('l, 'w) scheduled_io) pool_ops \<Rightarrow> u32 \<Rightarrow> (usize \<Rightarrow> interest \<Rightarrow> io_error + unit) \<Rightarrow> 'e \<Rightarrow> 'p option \<Rightarrow>
     panic + (io_error + 'e poll_evented) \<times> 'p" where
  "new po used_bits reg src handle = new_with_interest po used_bits reg src Interest_BOTH handle"

partial_function (option) poll_read ::
    "('p, ('l, 'w) scheduled_io) pool_ops \<Rightarrow> 'e poll_evented \<Rightarrow> 'w \<Rightarrow> ('e \<Rightarrow> u8 list \<Rightarrow> 's \<Rightarrow> (io_error + usize) \<times> u8 list \<times> 's) \<Rightarrow>
     u8 list \<Rightarrow> 'p \<Rightarrow> 's \<Rightarrow> (panic + (io_error + usize) poll \<times> u8 list \<times> 'p \<times> 's) option" where
  "poll_read po pe cx rd buf p s =
     (case poll_read_ready po (registration pe) cx p of
        Inl x \<Rightarrow> Some (Inl x)
      | Inr (Poll_Pending, p1) \<Rightarrow> Some (Inr (Poll_Pending, buf, p1, s))
      | Inr (Poll_Ready (Inl e), p1) \<Rightarrow> Some (Inr (Poll_Ready (Inl e), buf, p1, s))
      | Inr (Poll_Ready (Inr evt), p1) \<Rightarrow>
          (case io pe of
             None \<Rightarrow> Some (Inl Unwrap_None)
           | Some src \<Rightarrow>
               (case rd src buf s of
                  (Inr n, buf1, s1) \<Rightarrow> Some (Inr (Poll_Ready (Inr n), buf1, p1, s1))
                | (Inl e, buf1, s1) \<Rightarrow>
                    if kind e = WouldBlock then
                      (case reg_clear_readiness po (registration pe) evt p1 of
                         Inl x \<Rightarrow> Some (Inl x)
                       | Inr p2 \<Rightarrow> poll_read po pe cx rd buf1 p2 s1)
                    else Some (Inr (Poll_Ready (Inl e), buf1, p1, s1)))))"

partial_function (option) poll_write ::
    "('p, ('l, 'w) scheduled_io) pool_ops \<Rightarrow> 'e poll_evented \<Rightarrow> 'w \<Rightarrow> ('e \<Rightarrow> u8 list \<Rightarrow> 's \<Rightarrow> (io_error + usize) \<times> 's) \<Rightarrow>
     u8 list \<Rightarrow> 'p \<Rightarrow> 's \<Rightarrow> (panic + (io_error + usize) poll \<times> 'p \<times> 's) option" where
  "poll_write po pe cx wr buf p s =
     (case poll_write_ready po (registration pe) cx p of
        Inl x \<Rightarrow> Some (Inl x)
      | Inr (Poll_Pending, p1) \<Rightarrow> Some (Inr (Poll_Pending, p1, s))
      | Inr (Poll_Ready (Inl e), p1) \<Rightarrow> Some (Inr (Poll_Ready (Inl e), p1, s))
      | Inr (Poll_Ready (Inr evt), p1) \<Rightarrow>
          (case io pe of
             None \<Rightarrow> Some (Inl Unwrap_None)
           | Some src \<Rightarrow>
               (case wr src buf s of
                  (Inr n, s1) \<Rightarrow>
                    if 0 < n \<and> unat n < length buf then
                      (case reg_clear_readiness po (registration pe) evt p1 of
                         Inl x \<Rightarrow> Some (Inl x)
                       | Inr p2 \<Rightarrow> Some (Inr (Poll_Ready (Inr n), p2, s1)))
                    else Some (Inr (Poll_Ready (Inr n), p1, s1))
                | (Inl e, s1) \<Rightarrow>
                    if kind e = WouldBlock then
                      (case reg_clear_readiness po (registration pe) evt p1 of
                         Inl x \<Rightarrow> Some (Inl x)
                       | Inr p2 \<Rightarrow> poll_write po pe cx wr buf p2 s1)
                    else Some (Inr (Poll_Ready (Inl e), p1, s1)))))"

text \<open>\<open>wrv src bufs\<close> is the vectored write; an absent source is the panic of \<^verbatim>\<open>unwrap\<close>, which \<open>poll_io\<close> cannot see.\<close>

definition poll_write_vectored ::
    "('p, ('l, 'w) scheduled_io) pool_ops \<Rightarrow> 'e poll_evented \<Rightarrow> 'w \<Rightarrow> ('e \<Rightarrow> u8 list list \<Rightarrow> ('s, usize) operation) \<Rightarrow>
     u8 list list \<Rightarrow> 'p \<Rightarrow> 's \<Rightarrow> (panic + (io_error + usize) poll \<times> 'p \<times> 's) option" where
  "poll_write_vectored po pe cx wrv bufs p s =
     (case io pe of
        Some src \<Rightarrow> poll_write_io po (registration pe) cx (wrv src bufs) p s
      | None \<Rightarrow>
          (case poll_write_ready po (registration pe) cx p of
             Inl x \<Rightarrow> Some (Inl x)
           | Inr (Poll_Pending, p1) \<Rightarrow> Some (Inr (Poll_Pending, p1, s))
           | Inr (Poll_Ready (Inl e), p1) \<Rightarrow> Some (Inr (Poll_Ready (Inl e), p1, s))
           | Inr (Poll_Ready (Inr evt), p1) \<Rightarrow> Some (Inl Unwrap_None)))"

definition deref :: "'e poll_evented \<Rightarrow> panic + 'e" where
  "deref pe = (case io pe of None \<Rightarrow> Inl Unwrap_None | Some src \<Rightarrow> Inr src)"

text \<open>The source of a socket, for an operation that may not return.\<close>

definition with_source :: "'e poll_evented \<Rightarrow> ('e \<Rightarrow> (panic + 'x) option) \<Rightarrow> (panic + 'x) option" where
  "with_source pe body = (case deref pe of Inl x \<Rightarrow> Some (Inl x) | Inr src \<Rightarrow> body src)"

text \<open>\<^verbatim>\<open>map_ok(|_| ())\<close> of a poll.\<close>

definition ready_ok :: "(io_error + 'a) poll \<Rightarrow> (io_error + unit) poll" where
  "ready_ok r = (case r of Poll_Pending \<Rightarrow> Poll_Pending | Poll_Ready x \<Rightarrow> Poll_Ready (map_sum (\<lambda>e. e) (\<lambda>_. ()) x))"

text \<open>
  \<^verbatim>\<open>Drop\<close>: the source is deregistered, with the outcome ignored, and dropped with the registration.
  \<open>dereg\<close> is the call of \<^verbatim>\<open>Registry::deregister\<close>.
\<close>

definition drop_evented ::
    "('p, ('l, 'w) scheduled_io) pool_ops \<Rightarrow> 'e poll_evented \<Rightarrow> ('e \<Rightarrow> 's \<Rightarrow> (io_error + unit) \<times> 's) \<Rightarrow> 'p \<Rightarrow> 's \<Rightarrow> 'p \<times> 's" where
  "drop_evented po pe dereg p s =
     (let s1 = (case io pe of None \<Rightarrow> s | Some src \<Rightarrow> let (res, s1) = dereg src s; ignored = deregister res in s1) in
      (drop_registration po (registration pe) p, s1))"

text \<open>\<^verbatim>\<open>read\<close> as an operation of \<open>poll_io\<close>: the buffer is part of the state.\<close>

definition read_operation ::
    "('e \<Rightarrow> u8 list \<Rightarrow> 's \<Rightarrow> (io_error + usize) \<times> u8 list \<times> 's) \<Rightarrow> 'e \<Rightarrow> (u8 list \<times> 's, usize) operation" where
  "read_operation rd src = (\<lambda>(buf, s). let (r, buf1, s1) = rd src buf s in (r, (buf1, s1)))"

definition read_result ::
    "panic + (io_error + usize) poll \<times> 'p \<times> u8 list \<times> 's \<Rightarrow> panic + (io_error + usize) poll \<times> u8 list \<times> 'p \<times> 's" where
  "read_result = map_sum (\<lambda>x. x) (\<lambda>(r, p, buf, s). (r, buf, p, s))"

lemma poll_read_to_io:
  assumes "io pe = Some src" "poll_read po pe cx rd buf p s = Some y"
  shows "\<exists>x. poll_io po (registration pe) cx Read (read_operation rd src) p (buf, s) = Some x \<and> y = read_result x"
proof -
  have "io pe = Some src \<longrightarrow>
    (\<exists>x. poll_io po (registration pe) cx Read (read_operation rd src) p (buf, s) = Some x \<and> y = read_result x)"
  proof (rule poll_read.raw_induct [where P = "\<lambda>po pe cx rd buf p s y. io pe = Some src \<longrightarrow>
      (\<exists>x. poll_io po (registration pe) cx Read (read_operation rd src) p (buf, s) = Some x \<and> y = read_result x)",
      OF _ assms(2)], intro impI, goal_cases)
    case (1 rec po pe cx rd buf p s y)
    then show ?case
      by (subst poll_io.simps)
        (auto simp: poll_read_ready_def read_operation_def read_result_def split: sum.splits prod.splits poll.splits if_splits)
  qed
  with assms(1) show ?thesis by blast
qed

lemma poll_io_to_read:
  assumes "io pe = Some src" "poll_io po (registration pe) cx Read (read_operation rd src) p (buf, s) = Some x"
  shows "poll_read po pe cx rd buf p s = Some (read_result x)"
proof -
  have "reg = registration pe \<longrightarrow> dir = Read \<longrightarrow> f = read_operation rd src \<longrightarrow>
      poll_read po pe cx rd (fst st) p (snd st) = Some (read_result x)"
    if "poll_io po reg cx dir f p st = Some x" for reg dir f st
  proof (rule poll_io.raw_induct [where P = "\<lambda>po reg cx dir f p st x. reg = registration pe \<longrightarrow> dir = Read \<longrightarrow>
      f = read_operation rd src \<longrightarrow> poll_read po pe cx rd (fst st) p (snd st) = Some (read_result x)", OF _ that],
      intro impI, goal_cases)
    case (1 rec po reg cx dir f p st x)
    obtain buf s where "st = (buf, s)" by fastforce
    with 1 assms(1) show ?case
      by (subst poll_read.simps)
        (auto simp: poll_read_ready_def read_operation_def read_result_def split: sum.splits prod.splits poll.splits if_splits)
  qed
  from this [OF assms(2)] show ?thesis by simp
qed

subsection \<open>Properties\<close>

text \<open>
  The read loop is the loop of poll_io with the read as its operation.
\<close>

theorem poll_read_is_poll_io:
  assumes "io pe = Some src"
  shows "poll_read po pe cx rd buf p s =
    map_option read_result (poll_io po (registration pe) cx Read (read_operation rd src) p (buf, s))"
proof (cases "poll_io po (registration pe) cx Read (read_operation rd src) p (buf, s)")
  case None
  then show ?thesis using poll_read_to_io [OF assms] by (cases "poll_read po pe cx rd buf p s") fastforce+
next
  case (Some x)
  then show ?thesis using poll_io_to_read [OF assms] by simp
qed

text \<open>
  A write that takes a part of the buffer returns the count and clears the write readiness except
  for the closed flag; one that takes nothing or everything keeps it.
\<close>

theorem poll_write_clears_after_partial_write:
  assumes "pool_spec po" "io pe = Some src" "pool_get po (key (registration pe)) p = Some sio" "\<not> shutdown_of (readiness sio)"
    and "ready_flags Write sio \<noteq> {}" "wr src buf s = (Inr n, s1)"
  shows "\<exists>p' sio'. poll_write po pe cx wr buf p s = Some (Inr (Poll_Ready (Inr n), p', s1)) \<and>
    pool_get po (key (registration pe)) p' = Some sio' \<and>
    ready_flags Write sio' = (if 0 < n \<and> unat n < length buf then ready_flags Write sio \<inter> {WriteClosed} else ready_flags Write sio)"
proof -
  let ?reg = "registration pe"
  obtain ev p1 p2 sio2 where t: "poll_ready po ?reg cx Write p = Inr (Poll_Ready (Inr ev), p1)"
    "reg_clear_readiness po ?reg ev p1 = Inr p2" "pool_get po (key ?reg) p2 = Some sio2"
    "ready_flags Write sio2 = ready_flags Write sio \<inter> {ReadClosed, WriteClosed}"
    using poll_io_turn [OF assms(1,3-5)] by metis
  have p1: "p1 = pool_put po (key ?reg) sio p"
    using t(1) assms(5) by (simp add: poll_ready_cases [OF assms(3,4)] split: if_splits)
  have "ready_flags Write sio \<inter> {ReadClosed, WriteClosed} = ready_flags Write sio \<inter> {WriteClosed}"
    by (auto simp: ready_flags_def flag_simps)
  then show ?thesis using t p1 assms(2,6) pool_specD(4) [OF assms(1,3)]
    by (subst poll_write.simps) (simp add: poll_write_ready_def)
qed

theorem poll_read_is_poll_io_witness:
  "poll_read slab \<lparr>io = Some (), registration = \<lparr>key = 0\<rparr>\<rparr> 9 (\<lambda>_ buf s. (Inr 1, 65 # tl buf, s + 1)) [0, 0] (ready_pool 1) (3 :: nat) =
    map_option read_result (poll_io slab \<lparr>key = 0\<rparr> 9 Read (read_operation (\<lambda>_ buf s. (Inr 1, 65 # tl buf, s + 1)) ())
      (ready_pool 1) ([0, 0], 3))"
  by (subst poll_read_is_poll_io) simp_all

theorem poll_write_clears_after_partial_write_witness:
  "\<exists>p' sio'. poll_write slab \<lparr>io = Some (), registration = \<lparr>key = 0\<rparr>\<rparr> 9 (\<lambda>_ _ s. (Inr 1, s)) [1, 2] (ready_pool 2) (3 :: nat) =
      Some (Inr (Poll_Ready (Inr 1), p', 3)) \<and> pool_get slab 0 p' = Some sio' \<and> ready_flags Write sio' = {}"
proof -
  let ?sio = "\<lparr>readiness = 2, waiter_list = [] :: (nat, nat) waiter list, reader = Some (7 :: nat), writer = None\<rparr>"
  have "from_usize 2 = WRITABLE" by (simp add: from_usize_def ready_consts)
  then have f: "ready_flags Write ?sio = {Writable}" by (auto simp: ready_flags_def flag_simps)
  have "\<not> shutdown_of 2" by (simp add: shutdown_of_def)
  with f show ?thesis
    using poll_write_clears_after_partial_write [OF slab_ok, of "\<lparr>io = Some (), registration = \<lparr>key = 0\<rparr>\<rparr>" "()" "ready_pool 2" ?sio
      "\<lambda>_ _ s. (Inr 1, s)" "[1, 2]" 3 1 3 9] by (fastforce simp: sample_get)
qed

end
