(* ===== verification/Linked_List.thy ===== *)
theory Linked_List
  imports Prelude
begin

text \<open>
  \<^verbatim>\<open>src/src/linked_list.rs\<close> and the projections of \<^verbatim>\<open>Task\<close> in \<^verbatim>\<open>src/src/task.rs\<close>: the links
  that tasks of different types embed, and the operations by which \<^verbatim>\<open>intrusive_collections\<close> reaches the
  tasks through them. Addresses are machine words; \<^verbatim>\<open>AtomicLinkOps\<close> is a parameter, a record of its
  operations on a memory \<open>'m\<close> of links. A pointer to \<^verbatim>\<open>dyn DynTask\<close> is an address with the type \<open>'t\<close> that
  its vtable stands for; \<open>layout\<close> gives the offset of the field \<^verbatim>\<open>link\<close> in each type.
\<close>

text \<open>The trait \<^verbatim>\<open>LinkedListOps\<close> with the \<^verbatim>\<open>LinkOps\<close> it extends, and \<^verbatim>\<open>is_linked\<close>.\<close>

record 'm link_ops =
  acquire_link :: "usize \<Rightarrow> 'm \<Rightarrow> bool \<times> 'm"
  release_link :: "usize \<Rightarrow> 'm \<Rightarrow> 'm"
  next_link :: "usize \<Rightarrow> 'm \<Rightarrow> usize option"
  prev_link :: "usize \<Rightarrow> 'm \<Rightarrow> usize option"
  set_next :: "usize \<Rightarrow> usize option \<Rightarrow> 'm \<Rightarrow> 'm"
  set_prev :: "usize \<Rightarrow> usize option \<Rightarrow> 'm \<Rightarrow> 'm"
  is_linked :: "usize \<Rightarrow> 'm \<Rightarrow> bool"

type_synonym 't dyn_ptr = "usize \<times> 't"

text \<open>The field \<^verbatim>\<open>get_value\<close> of the links that exist: the type whose callback it is.\<close>

type_synonym 't callbacks = "usize \<rightharpoonup> 't"

subsection \<open>Links\<close>

definition fat_link_new :: "'t \<Rightarrow> usize \<Rightarrow> 't callbacks \<Rightarrow> 't callbacks" where
  "fat_link_new t link cbs = cbs(link \<mapsto> t)"

text \<open>
  \<open>off\<close> is the offset of the field \<^verbatim>\<open>link\<close> in \<^verbatim>\<open>FatLink\<close>. Addresses are those of links: \<^verbatim>\<open>AtomicLinkOps\<close> reserves two small
  values as marks, which are no addresses of links.
\<close>

definition to_link :: "usize \<Rightarrow> usize \<Rightarrow> usize" where
  "to_link off ptr = ptr + off"

definition from_link :: "usize \<Rightarrow> usize \<Rightarrow> usize" where
  "from_link off link = link - off"

definition fat_link_ops :: "usize \<Rightarrow> 'm link_ops \<Rightarrow> 'm link_ops" where
  "fat_link_ops off ops =
     \<lparr>acquire_link = (\<lambda>ptr. acquire_link ops (to_link off ptr)),
      release_link = (\<lambda>ptr. release_link ops (to_link off ptr)),
      next_link = (\<lambda>ptr m. map_option (from_link off) (next_link ops (to_link off ptr) m)),
      prev_link = (\<lambda>ptr m. map_option (from_link off) (prev_link ops (to_link off ptr) m)),
      set_next = (\<lambda>ptr nxt. set_next ops (to_link off ptr) (map_option (to_link off) nxt)),
      set_prev = (\<lambda>ptr prv. set_prev ops (to_link off ptr) (map_option (to_link off) prv)),
      is_linked = (\<lambda>ptr. is_linked ops (to_link off ptr))\<rparr>"

subsection \<open>Tasks\<close>

definition task_get_link :: "('t \<Rightarrow> usize) \<Rightarrow> 't dyn_ptr \<Rightarrow> usize" where
  "task_get_link layout = (\<lambda>(addr, t). addr + layout t)"

definition task_get_value :: "('t \<Rightarrow> usize) \<Rightarrow> 't \<Rightarrow> usize \<Rightarrow> 't dyn_ptr" where
  "task_get_value layout t ptr = (ptr - layout t, t)"

text \<open>The construction of a task writes the callback of its own type in its link.\<close>

definition construct_link :: "('t \<Rightarrow> usize) \<Rightarrow> 't dyn_ptr \<Rightarrow> 't callbacks \<Rightarrow> 't callbacks" where
  "construct_link layout v cbs = fat_link_new (snd v) (task_get_link layout v) cbs"

text \<open>The adapter: \<open>None\<close> is a pointer that is not to a live link, which its caller excludes.\<close>

definition adapter_get_value :: "('t \<Rightarrow> usize) \<Rightarrow> 't callbacks \<Rightarrow> usize \<Rightarrow> 't dyn_ptr option" where
  "adapter_get_value layout cbs link = map_option (\<lambda>t. task_get_value layout t link) (cbs link)"

definition adapter_get_link :: "('t \<Rightarrow> usize) \<Rightarrow> 't dyn_ptr \<Rightarrow> usize" where
  "adapter_get_link layout v = task_get_link layout v"

subsection \<open>Lists of links\<close>

text \<open>
  What a list does with the links it holds: \<open>write_chain\<close> connects each to the next in both directions,
  \<open>walk\<close> and \<open>walk_back\<close> follow them.
\<close>

fun write_chain :: "'m link_ops \<Rightarrow> usize list \<Rightarrow> 'm \<Rightarrow> 'm" where
  "write_chain ops [] m = m"
| "write_chain ops [p] m = set_next ops p None m"
| "write_chain ops (p # q # ps) m = write_chain ops (q # ps) (set_prev ops q (Some p) (set_next ops p (Some q) m))"

fun walk :: "(usize \<Rightarrow> usize option) \<Rightarrow> nat \<Rightarrow> usize option \<Rightarrow> usize list" where
  "walk nxt n None = []"
| "walk nxt 0 (Some p) = []"
| "walk nxt (Suc n) (Some p) = p # walk nxt n (nxt p)"

text \<open>A memory of links for the witnesses: an address holds the two pointers of a link that is in a list.\<close>

definition map_link_ops :: "(usize \<rightharpoonup> usize option \<times> usize option) link_ops" where
  "map_link_ops =
     \<lparr>acquire_link = (\<lambda>p m. case m p of None \<Rightarrow> (True, m(p \<mapsto> (None, None))) | Some _ \<Rightarrow> (False, m)),
      release_link = (\<lambda>p m. m(p := None)),
      next_link = (\<lambda>p m. Option.bind (m p) fst),
      prev_link = (\<lambda>p m. Option.bind (m p) snd),
      set_next = (\<lambda>p v m. case m p of None \<Rightarrow> m | Some (_, b) \<Rightarrow> m(p \<mapsto> (v, b))),
      set_prev = (\<lambda>p v m. case m p of None \<Rightarrow> m | Some (a, _) \<Rightarrow> m(p \<mapsto> (a, v))),
      is_linked = (\<lambda>p m. m p \<noteq> None)\<rparr>"

text \<open>
  The contract of the trait: acquiring a link succeeds once, and leaves a link that is taken as it is; the
  two pointers of a linked link are independent, of each other and of those of the other links.
\<close>

locale link_laws =
  fixes ops :: "'m link_ops"
  assumes acquire_free: "\<not> is_linked ops p m \<Longrightarrow> fst (acquire_link ops p m)"
    and acquire_taken: "is_linked ops p m \<Longrightarrow> acquire_link ops p m = (False, m)"
    and acquire_linked: "is_linked ops q (snd (acquire_link ops p m)) \<longleftrightarrow> q = p \<or> is_linked ops q m"
    and acquire_next: "q \<noteq> p \<Longrightarrow> next_link ops q (snd (acquire_link ops p m)) = next_link ops q m"
    and acquire_prev: "q \<noteq> p \<Longrightarrow> prev_link ops q (snd (acquire_link ops p m)) = prev_link ops q m"
    and release_linked: "is_linked ops q (release_link ops p m) \<longleftrightarrow> q \<noteq> p \<and> is_linked ops q m"
    and release_next: "q \<noteq> p \<Longrightarrow> next_link ops q (release_link ops p m) = next_link ops q m"
    and release_prev: "q \<noteq> p \<Longrightarrow> prev_link ops q (release_link ops p m) = prev_link ops q m"
    and set_next_next: "is_linked ops p m \<Longrightarrow> next_link ops q (set_next ops p v m) = (if q = p then v else next_link ops q m)"
    and set_next_prev: "is_linked ops p m \<Longrightarrow> prev_link ops q (set_next ops p v m) = prev_link ops q m"
    and set_next_linked: "is_linked ops p m \<Longrightarrow> is_linked ops q (set_next ops p v m) \<longleftrightarrow> is_linked ops q m"
    and set_prev_next: "is_linked ops p m \<Longrightarrow> next_link ops q (set_prev ops p v m) = next_link ops q m"
    and set_prev_prev: "is_linked ops p m \<Longrightarrow> prev_link ops q (set_prev ops p v m) = (if q = p then v else prev_link ops q m)"
    and set_prev_linked: "is_linked ops p m \<Longrightarrow> is_linked ops q (set_prev ops p v m) \<longleftrightarrow> is_linked ops q m"
begin

lemmas link_simps = set_next_next set_next_prev set_next_linked set_prev_next set_prev_prev set_prev_linked

lemma write_chain_others:
  assumes "\<forall>p \<in> set ps. is_linked ops p m" "q \<notin> set ps"
  shows "next_link ops q (write_chain ops ps m) = next_link ops q m \<and> prev_link ops q (write_chain ops ps m) = prev_link ops q m"
  using assms by (induction ps arbitrary: m rule: induct_list012) (auto simp: link_simps)

lemma write_chain_head_prev:
  assumes "\<forall>q \<in> set (p # ps). is_linked ops q m" "distinct (p # ps)"
  shows "prev_link ops p (write_chain ops (p # ps) m) = prev_link ops p m"
proof (cases ps)
  case (Cons q qs)
  then show ?thesis using assms write_chain_others [of "q # qs" "set_prev ops q (Some p) (set_next ops p (Some q) m)" p]
    by (simp add: link_simps)
qed (use assms in \<open>simp add: link_simps\<close>)

text \<open>A chain is read back in both directions.\<close>

lemma write_chain_forward:
  assumes "\<forall>p \<in> set ps. is_linked ops p m" "distinct ps" "length ps \<le> n" "ps \<noteq> []"
  shows "walk (\<lambda>p. next_link ops p (write_chain ops ps m)) n (Some (hd ps)) = ps"
  using assms
proof (induction ps arbitrary: m n)
  case (Cons p ps)
  then obtain k where n: "n = Suc k" by (cases n) auto
  show ?case
  proof (cases ps)
    case Nil
    then show ?thesis using Cons.prems n by (simp add: link_simps)
  next
    case c: (Cons q qs)
    let ?m = "set_prev ops q (Some p) (set_next ops p (Some q) m)"
    have "next_link ops p (write_chain ops ps ?m) = Some q"
      using Cons.prems c write_chain_others [of ps ?m p] by (auto simp: link_simps)
    moreover have "walk (\<lambda>p. next_link ops p (write_chain ops ps ?m)) k (Some (hd ps)) = ps"
      using Cons.prems c n by (intro Cons.IH) (auto simp: link_simps)
    ultimately show ?thesis using c n by simp
  qed
qed simp

lemma write_chain_backward:
  assumes "\<forall>p \<in> set ps. is_linked ops p m" "distinct ps" "Suc i < length ps"
  shows "prev_link ops (ps ! Suc i) (write_chain ops ps m) = Some (ps ! i)"
  using assms
proof (induction ps arbitrary: i m rule: induct_list012)
  case (3 p q ps)
  let ?m = "set_prev ops q (Some p) (set_next ops p (Some q) m)"
  have ok: "\<forall>x \<in> set (q # ps). is_linked ops x ?m" using "3.prems" by (auto simp: link_simps)
  show ?case
  proof (cases i)
    case 0
    then show ?thesis using "3.prems" write_chain_head_prev [OF ok] by (simp add: link_simps)
  next
    case (Suc j)
    then show ?thesis using "3.prems" "3.IH"(2) [OF ok, of j] by simp
  qed
qed simp_all

end

subsection \<open>The links of tasks\<close>

lemma link_round_trip [simp]: "from_link off (to_link off p) = p" "to_link off (from_link off p) = p"
  by (simp_all add: to_link_def from_link_def)

lemma to_link_inject [simp]: "to_link off p = to_link off q \<longleftrightarrow> p = q"
  by (simp add: to_link_def)

lemma option_round_trip [simp]: "map_option (from_link off) (map_option (to_link off) v) = v"
  by (cases v) simp_all

lemma task_round_trip [simp]: "task_get_value layout (snd v) (task_get_link layout v) = v"
  by (cases v) (simp add: task_get_value_def task_get_link_def)

lemma map_link_laws: "link_laws map_link_ops"
  by unfold_locales (auto simp: map_link_ops_def split: option.splits)

lemma fat_link_laws:
  assumes "link_laws ops"
  shows "link_laws (fat_link_ops off ops)"
proof -
  note laws = link_laws.acquire_free [OF assms] link_laws.acquire_taken [OF assms] link_laws.acquire_linked [OF assms]
    link_laws.acquire_next [OF assms] link_laws.acquire_prev [OF assms] link_laws.release_linked [OF assms]
    link_laws.release_next [OF assms] link_laws.release_prev [OF assms] link_laws.link_simps [OF assms]
  show ?thesis by unfold_locales (simp_all add: fat_link_ops_def laws)
qed

interpretation fl: link_laws "fat_link_ops off map_link_ops" for off
  by (rule fat_link_laws [OF map_link_laws])

text \<open>Building tasks whose links are apart records the callback of each.\<close>

lemma construct_links:
  assumes "distinct (map (task_get_link layout) vs)" "v \<in> set vs"
  shows "fold (construct_link layout) vs cbs (task_get_link layout v) = Some (snd v)"
  using assms
proof (induction vs arbitrary: cbs)
  case (Cons w vs)
  have keep: "link \<notin> set (map (task_get_link layout) us) \<Longrightarrow> fold (construct_link layout) us cbs link = cbs link" for us cbs link
    by (induction us arbitrary: cbs) (auto simp: construct_link_def fat_link_new_def)
  show ?case
  proof (cases "v = w")
    case True
    then have "fold (construct_link layout) (w # vs) cbs (task_get_link layout v) = construct_link layout w cbs (task_get_link layout w)"
      using Cons.prems keep [of "task_get_link layout w" vs] by simp
    also have "\<dots> = Some (snd v)" using True by (simp add: construct_link_def fat_link_new_def)
    finally show ?thesis .
  qed (use Cons in simp)
qed simp

lemma constructed_value:
  assumes "distinct (map (task_get_link layout) vs)" "v \<in> set vs"
  shows "adapter_get_value layout (fold (construct_link layout) vs cbs) (adapter_get_link layout v) = Some v"
  by (simp add: adapter_get_value_def adapter_get_link_def construct_links [OF assms])

subsection \<open>Properties\<close>

text \<open>
  C35: Tasks of different types that are linked through their embedded links are found again, in
  order, each at its own address and with its own type, by following the links and the callbacks
  stored in them.
\<close>

theorem queued_tasks_are_recovered:
  assumes "link_laws ops" "distinct (map (adapter_get_link layout) vs)" "vs \<noteq> []"
    and "\<forall>v \<in> set vs. is_linked (fat_link_ops off ops) (adapter_get_link layout v) m"
  shows "map (adapter_get_value layout (fold (construct_link layout) vs cbs))
      (walk (\<lambda>p. next_link (fat_link_ops off ops) p (write_chain (fat_link_ops off ops) (map (adapter_get_link layout) vs) m))
        (length vs) (Some (adapter_get_link layout (hd vs)))) = map Some vs"
proof -
  let ?ps = "map (adapter_get_link layout) vs"
  have d: "distinct (map (task_get_link layout) vs)" using assms(2) by (simp add: adapter_get_link_def [abs_def])
  have "walk (\<lambda>p. next_link (fat_link_ops off ops) p (write_chain (fat_link_ops off ops) ?ps m)) (length vs) (Some (hd ?ps)) = ?ps"
    using assms by (intro link_laws.write_chain_forward [OF fat_link_laws]) auto
  then show ?thesis using assms(3) constructed_value [OF d] by (simp add: hd_map)
qed

text \<open>
  Acquiring a link fails exactly when it is taken, and changes nothing then; a released link can be
  acquired again.
\<close>

theorem duplicate_membership_is_rejected:
  assumes "link_laws ops" "acquire_link (fat_link_ops off ops) p m = (ok, m1)"
  shows "ok = (\<not> is_linked (fat_link_ops off ops) p m) \<and>
    acquire_link (fat_link_ops off ops) p m1 = (False, m1) \<and>
    fst (acquire_link (fat_link_ops off ops) p (release_link (fat_link_ops off ops) p m1)) \<and>
    (\<forall>q. q \<noteq> p \<longrightarrow> next_link (fat_link_ops off ops) q m1 = next_link (fat_link_ops off ops) q m \<and>
      prev_link (fat_link_ops off ops) q m1 = prev_link (fat_link_ops off ops) q m)"
proof -
  have m1: "m1 = snd (acquire_link (fat_link_ops off ops) p m)" "ok = fst (acquire_link (fat_link_ops off ops) p m)"
    using assms(2) by simp_all
  note f = fat_link_laws [OF assms(1), of off]
  have "is_linked (fat_link_ops off ops) p m1" using link_laws.acquire_linked [OF f] m1 by simp
  then show ?thesis
    using link_laws.acquire_free [OF f] link_laws.acquire_taken [OF f] link_laws.acquire_next [OF f] link_laws.acquire_prev [OF f]
      link_laws.release_linked [OF f] m1 by (cases "is_linked (fat_link_ops off ops) p m") simp_all
qed

theorem queued_tasks_are_recovered_witness:
  "map (adapter_get_value (\<lambda>big. if big then 4096 else 16) (fold (construct_link (\<lambda>big. if big then 4096 else 16))
        [(1000, False), (9000, True)] (\<lambda>_. None)))
      (walk (\<lambda>p. next_link (fat_link_ops 8 map_link_ops) p (write_chain (fat_link_ops 8 map_link_ops)
          (map (adapter_get_link (\<lambda>big. if big then 4096 else 16)) [(1000, False), (9000, True)]) (\<lambda>_. Some (None, None))))
        (length [(1000 :: usize, False), (9000, True)])
        (Some (adapter_get_link (\<lambda>big. if big then 4096 else 16) (hd [(1000, False), (9000, True)])))) =
    map Some [(1000, False), (9000, True)]"
  by (rule queued_tasks_are_recovered [OF map_link_laws])
    (simp_all add: adapter_get_link_def task_get_link_def fat_link_ops_def map_link_ops_def)

theorem duplicate_membership_is_rejected_witness:
  "acquire_link (fat_link_ops 8 map_link_ops) 1016 (\<lambda>_. None) = (True, (\<lambda>_. None)(1024 \<mapsto> (None, None))) \<and>
   acquire_link (fat_link_ops 8 map_link_ops) 1016 ((\<lambda>_. None)(1024 \<mapsto> (None, None))) = (False, (\<lambda>_. None)(1024 \<mapsto> (None, None)))"
proof -
  have a: "acquire_link (fat_link_ops 8 map_link_ops) 1016 (\<lambda>_. None) = (True, (\<lambda>_. None)(1024 \<mapsto> (None, None)))"
    by (simp add: fat_link_ops_def map_link_ops_def to_link_def)
  from duplicate_membership_is_rejected [OF map_link_laws a] a show ?thesis by simp
qed

end
