(* ===== verification/Net.thy ===== *)
theory Net
  imports Poll_Evented
begin

text \<open>
  \<^verbatim>\<open>src/src/net/addr.rs\<close> and \<^verbatim>\<open>src/src/net/lookup_host.rs\<close>: resolution of the argument of a
  network function to socket addresses, and the loop over them that \<^verbatim>\<open>bind\<close> and \<^verbatim>\<open>connect\<close> run. The
  parsers of addresses and the resolver of host names are parameters: the code relies only on whether a
  parser accepts a string.
\<close>

type_synonym u16 = "16 word"

datatype ip_addr = Ip4 "32 word" | Ip6 "128 word"

datatype socket_addr = V4 "32 word" u16 | V6 "128 word" u16 u32 u32

record resolver =
  parse_socket_addr :: "string \<Rightarrow> socket_addr option"
  parse_ipv4 :: "string \<Rightarrow> 32 word option"
  parse_ipv6 :: "string \<Rightarrow> 128 word option"
  resolve_str :: "string \<Rightarrow> io_error + socket_addr list"
  resolve_pair :: "string \<Rightarrow> u16 \<Rightarrow> io_error + socket_addr list"

text \<open>The types that implement \<^verbatim>\<open>ToSocketAddrs\<close>.\<close>

datatype addr_arg =
    Arg_Ref addr_arg
  | Arg_Addr socket_addr
  | Arg_V4 "32 word" u16
  | Arg_V6 "128 word" u16 u32 u32
  | Arg_Ip ip_addr u16
  | Arg_Ipv4 "32 word" u16
  | Arg_Ipv6 "128 word" u16
  | Arg_Slice "socket_addr list"
  | Arg_Str string
  | Arg_Host string u16
  | Arg_Host_String string u16
  | Arg_String string

datatype one_or_more = One "socket_addr option" | More "socket_addr list"

fun next_addr :: "one_or_more \<Rightarrow> socket_addr option \<times> one_or_more" where
  "next_addr (One a) = (a, One None)"
| "next_addr (More []) = (None, More [])"
| "next_addr (More (a # as)) = (Some a, More as)"

definition size_hint :: "one_or_more \<Rightarrow> nat \<times> nat option" where
  "size_hint i =
     (let n = (case i of One None \<Rightarrow> 0 | One (Some _) \<Rightarrow> 1 | More as \<Rightarrow> length as) in (n, Some n))"

text \<open>The conversion of a pair of an address and a port, \<^verbatim>\<open>SocketAddr::from\<close>.\<close>

fun from_ip :: "ip_addr \<Rightarrow> u16 \<Rightarrow> socket_addr" where
  "from_ip (Ip4 a) port = V4 a port"
| "from_ip (Ip6 a) port = V6 a port 0 0"

definition str_to_socket_addrs :: "resolver \<Rightarrow> string \<Rightarrow> io_error + one_or_more" where
  "str_to_socket_addrs rs s =
     (case parse_socket_addr rs s of
        Some addr \<Rightarrow> Inr (One (Some addr))
      | None \<Rightarrow> (case resolve_str rs s of Inl e \<Rightarrow> Inl e | Inr as \<Rightarrow> Inr (More as)))"

definition host_to_socket_addrs :: "resolver \<Rightarrow> string \<Rightarrow> u16 \<Rightarrow> io_error + one_or_more" where
  "host_to_socket_addrs rs host port =
     (case parse_ipv4 rs host of
        Some addr \<Rightarrow> Inr (One (Some (V4 addr port)))
      | None \<Rightarrow>
          (case parse_ipv6 rs host of
             Some addr \<Rightarrow> Inr (One (Some (V6 addr port 0 0)))
           | None \<Rightarrow> (case resolve_pair rs host port of Inl e \<Rightarrow> Inl e | Inr as \<Rightarrow> Inr (More as))))"

text \<open>The implementations for \<^verbatim>\<open>(String, u16)\<close> and \<^verbatim>\<open>String\<close> borrow and delegate.\<close>

definition host_string_to_socket_addrs :: "resolver \<Rightarrow> string \<times> u16 \<Rightarrow> io_error + one_or_more" where
  "host_string_to_socket_addrs rs p = host_to_socket_addrs rs (fst p) (snd p)"

definition string_to_socket_addrs :: "resolver \<Rightarrow> string \<Rightarrow> io_error + one_or_more" where
  "string_to_socket_addrs rs s = str_to_socket_addrs rs s"

text \<open>An iterator over an option or a vector is \<open>One\<close> or \<open>More\<close> here too.\<close>

fun to_socket_addrs :: "resolver \<Rightarrow> addr_arg \<Rightarrow> io_error + one_or_more" where
  "to_socket_addrs rs (Arg_Ref a) = to_socket_addrs rs a"
| "to_socket_addrs rs (Arg_Addr a) = Inr (One (Some a))"
| "to_socket_addrs rs (Arg_V4 a port) = Inr (One (Some (V4 a port)))"
| "to_socket_addrs rs (Arg_V6 a port flow scope) = Inr (One (Some (V6 a port flow scope)))"
| "to_socket_addrs rs (Arg_Ip ip port) = Inr (One (Some (from_ip ip port)))"
| "to_socket_addrs rs (Arg_Ipv4 a port) = Inr (One (Some (V4 a port)))"
| "to_socket_addrs rs (Arg_Ipv6 a port) = Inr (One (Some (V6 a port 0 0)))"
| "to_socket_addrs rs (Arg_Slice as) = Inr (More as)"
| "to_socket_addrs rs (Arg_Str s) = str_to_socket_addrs rs s"
| "to_socket_addrs rs (Arg_Host host port) = host_to_socket_addrs rs host port"
| "to_socket_addrs rs (Arg_Host_String host port) = host_string_to_socket_addrs rs (host, port)"
| "to_socket_addrs rs (Arg_String s) = string_to_socket_addrs rs s"

definition lookup_host :: "resolver \<Rightarrow> addr_arg \<Rightarrow> io_error + one_or_more" where
  "lookup_host rs host = to_socket_addrs rs host"

text \<open>What a loop over the iterator visits.\<close>

fun addr_list :: "one_or_more \<Rightarrow> socket_addr list" where
  "addr_list (One a) = opt_list a"
| "addr_list (More as) = as"

definition no_address :: io_error where
  "no_address = Io_Error InvalidInput ''could not resolve to any address''"

text \<open>
  The loop of \<^verbatim>\<open>bind\<close> and \<^verbatim>\<open>connect\<close>: the first attempt that succeeds, else the last error.
\<close>

fun try_each ::
    "(socket_addr \<Rightarrow> 's \<Rightarrow> panic + (io_error + 'r) \<times> 's) \<Rightarrow> io_error option \<Rightarrow> socket_addr list \<Rightarrow> 's \<Rightarrow>
     panic + (io_error + 'r) \<times> 's" where
  "try_each attempt last_err [] s = Inr (Inl (case last_err of Some e \<Rightarrow> e | None \<Rightarrow> no_address), s)"
| "try_each attempt last_err (a # as) s =
     bindE (attempt a s) (\<lambda>(res, s1).
       case res of
         Inr r \<Rightarrow> Inr (Inr r, s1)
       | Inl e \<Rightarrow> try_each attempt (Some e) as s1)"

definition for_each_addr ::
    "resolver \<Rightarrow> addr_arg \<Rightarrow> (socket_addr \<Rightarrow> 's \<Rightarrow> panic + (io_error + 'r) \<times> 's) \<Rightarrow> 's \<Rightarrow> panic + (io_error + 'r) \<times> 's" where
  "for_each_addr rs arg attempt s =
     (case to_socket_addrs rs arg of
        Inl e \<Rightarrow> Inr (Inl e, s)
      | Inr i \<Rightarrow> try_each attempt None (addr_list i) s)"

text \<open>The iteration of \<open>next\<close> until it is exhausted.\<close>

fun take_addrs :: "nat \<Rightarrow> one_or_more \<Rightarrow> socket_addr list" where
  "take_addrs 0 i = []"
| "take_addrs (Suc n) i = (case next_addr i of (None, _) \<Rightarrow> [] | (Some a, i1) \<Rightarrow> a # take_addrs n i1)"

text \<open>The outcomes of attempts that do not depend on the state.\<close>

definition pure_attempt :: "(socket_addr \<Rightarrow> io_error + 'r) \<Rightarrow> socket_addr \<Rightarrow> socket_addr list \<Rightarrow> panic + (io_error + 'r) \<times> socket_addr list" where
  "pure_attempt f a tried = Inr (f a, tried @ [a])"

text \<open>A resolver that accepts and finds nothing, for the witnesses.\<close>

abbreviation no_resolver :: resolver where
  "no_resolver \<equiv> \<lparr>parse_socket_addr = (\<lambda>_. None), parse_ipv4 = (\<lambda>_. None), parse_ipv6 = (\<lambda>_. None), resolve_str = (\<lambda>_. Inr []),
      resolve_pair = (\<lambda>_ _. Inr [])\<rparr>"

subsection \<open>Iteration\<close>

lemma take_addrs_list: "length (addr_list i) \<le> n \<Longrightarrow> take_addrs n i = addr_list i"
proof (induction n arbitrary: i)
  case 0
  then show ?case by simp
next
  case (Suc n)
  then show ?case
  proof (cases i)
    case (One a)
    then show ?thesis using Suc.IH [of "One None"] by (cases a) simp_all
  next
    case (More as)
    then show ?thesis using Suc by (cases as) simp_all
  qed
qed

lemma size_hint_exact: "size_hint i = (length (addr_list i), Some (length (addr_list i)))"
  by (cases i) (simp_all add: size_hint_def Let_def opt_list_def split: option.split)

lemma try_each_fails:
  assumes "\<forall>a \<in> set as. \<exists>e. f a = Inl e"
  shows "try_each (pure_attempt f) le as tried =
    Inr (Inl (if as = [] then (case le of Some e \<Rightarrow> e | None \<Rightarrow> no_address) else projl (f (last as))), tried @ as)"
  using assms
proof (induction as arbitrary: le tried)
  case (Cons a as)
  then obtain e where e: "f a = Inl e" by auto
  with Cons.prems Cons.IH [of "Some e" "tried @ [a]"] show ?case by (simp add: pure_attempt_def)
qed simp

lemma try_each_succeeds:
  assumes "\<forall>b \<in> set pre. \<exists>e. f b = Inl e" "f a = Inr r"
  shows "try_each (pure_attempt f) le (pre @ a # post) tried = Inr (Inr r, tried @ pre @ [a])"
  using assms(1)
proof (induction pre arbitrary: le tried)
  case Nil
  then show ?case using assms(2) by (simp add: pure_attempt_def)
next
  case (Cons b pre)
  then obtain e where e: "f b = Inl e" by auto
  with Cons.prems Cons.IH [of "Some e" "tried @ [b]"] show ?case by (simp add: pure_attempt_def)
qed

subsection \<open>Properties\<close>

text \<open>
  The loop of bind and connect tries the resolved addresses in order and stops at the first that
  works; when none works the error is that of the last one, and InvalidInput when there is no
  address.
\<close>

theorem bind_takes_first_success:
  assumes "to_socket_addrs rs arg = Inr i"
  shows "(\<forall>pre a post r. addr_list i = pre @ a # post \<longrightarrow> (\<forall>b \<in> set pre. \<exists>e. f b = Inl e) \<longrightarrow> f a = Inr r \<longrightarrow>
      for_each_addr rs arg (pure_attempt f) [] = Inr (Inr r, pre @ [a])) \<and>
    ((\<forall>a \<in> set (addr_list i). \<exists>e. f a = Inl e) \<longrightarrow>
      for_each_addr rs arg (pure_attempt f) [] =
        Inr (Inl (if addr_list i = [] then no_address else projl (f (last (addr_list i)))), addr_list i))"
  using assms by (auto simp: for_each_addr_def try_each_fails try_each_succeeds)

theorem bind_takes_first_success_witness:
  "for_each_addr no_resolver (Arg_Slice [V4 1 80, V4 2 80, V4 3 80])
      (pure_attempt (\<lambda>a. if a = V4 2 80 then Inr () else Inl no_address)) [] = Inr (Inr (), [V4 1 80, V4 2 80])"
proof -
  have "to_socket_addrs no_resolver (Arg_Slice [V4 1 80, V4 2 80, V4 3 80]) = Inr (More [V4 1 80, V4 2 80, V4 3 80])" by simp
  from conjunct1 [OF bind_takes_first_success [OF this, of "\<lambda>a. if a = V4 2 80 then Inr () else Inl no_address"],
      rule_format, of "[V4 1 80]" "V4 2 80" "[V4 3 80]" "()"]
  show ?thesis by simp
qed

text \<open>
  The iterator yields the resolved addresses in order, and its size hint is exact.
\<close>

theorem iterator_yields_resolved_addresses:
  "take_addrs (fst (size_hint i)) i = addr_list i \<and> size_hint i = (length (addr_list i), Some (length (addr_list i)))"
  by (simp add: size_hint_exact take_addrs_list)

end
