(* ===== verification/Udp.thy ===== *)
theory Udp
  imports Net
begin

text \<open>
  \<^verbatim>\<open>src/src/net/udp.rs\<close>: the operations of a socket, each an operation of \<^verbatim>\<open>mio::net::UdpSocket\<close> run
  through the registration of the socket in one of three ways: until it is done (\<^verbatim>\<open>async\<close>), once from a
  \<^verbatim>\<open>poll_\<close> function, or once if the socket is ready (\<^verbatim>\<open>try_\<close>). The calls of the system are parameters, a record on
  a state \<open>'s\<close>; a call that fills a buffer has the buffer in its state. A socket that can be used holds
  its source, so the \<^verbatim>\<open>unwrap\<close> of \<^verbatim>\<open>Deref\<close>, which the closures run, is written before them.
\<close>

record ('e, 's) udp_ops =
  udp_sys_bind :: "socket_addr \<Rightarrow> 's \<Rightarrow> (io_error + 'e) \<times> 's"
  udp_sys_register :: "'e \<Rightarrow> usize \<Rightarrow> interest \<Rightarrow> io_error + unit"
  udp_sys_local_addr :: "'e \<Rightarrow> 's \<Rightarrow> io_error + socket_addr"
  udp_sys_peer_addr :: "'e \<Rightarrow> 's \<Rightarrow> io_error + socket_addr"
  udp_sys_connect :: "'e \<Rightarrow> socket_addr \<Rightarrow> ('s, unit) operation"
  udp_sys_send :: "'e \<Rightarrow> u8 list \<Rightarrow> ('s, usize) operation"
  udp_sys_recv :: "'e \<Rightarrow> (u8 list \<times> 's, usize) operation"
  udp_sys_send_to :: "'e \<Rightarrow> u8 list \<Rightarrow> socket_addr \<Rightarrow> ('s, usize) operation"
  udp_sys_recv_from :: "'e \<Rightarrow> (u8 list \<times> 's, usize \<times> socket_addr) operation"
  udp_sys_peek_from :: "'e \<Rightarrow> (u8 list \<times> 's, usize \<times> socket_addr) operation"

record 'e udp_socket =
  udp_io :: "'e poll_evented"

abbreviation udp_reg :: "'e udp_socket \<Rightarrow> registration" where
  "udp_reg sock \<equiv> registration (udp_io sock)"

subsection \<open>Creation\<close>

text \<open>
  \<open>p\<close> is the slab of the runtime, \<open>entered\<close> tells whether the thread runs in it, that is, has the \<^verbatim>\<open>HANDLE\<close> that
  \<^verbatim>\<open>PollEvented::new\<close> unwraps.
\<close>

definition udp_new ::
    "('p, ('l, 'w) scheduled_io) pool_ops \<Rightarrow> u32 \<Rightarrow> ('e, 's) udp_ops \<Rightarrow> bool \<Rightarrow> 'e \<Rightarrow> 'p \<Rightarrow>
     panic + (io_error + 'e udp_socket) \<times> 'p" where
  "udp_new po used_bits ops entered socket p =
     bindE (new po used_bits (udp_sys_register ops socket) socket (if entered then Some p else None)) (\<lambda>(res, p1).
       Inr (map_sum (\<lambda>e. e) (\<lambda>pe. \<lparr>udp_io = pe\<rparr>) res, p1))"

definition udp_bind_addr ::
    "('p, ('l, 'w) scheduled_io) pool_ops \<Rightarrow> u32 \<Rightarrow> ('e, 's) udp_ops \<Rightarrow> bool \<Rightarrow> socket_addr \<Rightarrow> 'p \<times> 's \<Rightarrow>
     panic + (io_error + 'e udp_socket) \<times> 'p \<times> 's" where
  "udp_bind_addr po used_bits ops entered addr st =
     (case udp_sys_bind ops addr (snd st) of
        (Inl e, s1) \<Rightarrow> Inr (Inl e, fst st, s1)
      | (Inr sys, s1) \<Rightarrow> bindE (udp_new po used_bits ops entered sys (fst st)) (\<lambda>(res, p1). Inr (res, p1, s1)))"

definition udp_bind ::
    "('p, ('l, 'w) scheduled_io) pool_ops \<Rightarrow> u32 \<Rightarrow> ('e, 's) udp_ops \<Rightarrow> bool \<Rightarrow> resolver \<Rightarrow> addr_arg \<Rightarrow> 'p \<times> 's \<Rightarrow>
     panic + (io_error + 'e udp_socket) \<times> 'p \<times> 's" where
  "udp_bind po used_bits ops entered rs addr st = for_each_addr rs addr (udp_bind_addr po used_bits ops entered) st"

text \<open>\<open>conv\<close> is \<^verbatim>\<open>mio::net::UdpSocket::from_std\<close>.\<close>

definition udp_from_std ::
    "('p, ('l, 'w) scheduled_io) pool_ops \<Rightarrow> u32 \<Rightarrow> ('e, 's) udp_ops \<Rightarrow> bool \<Rightarrow> ('d \<Rightarrow> 'e) \<Rightarrow> 'd \<Rightarrow> 'p \<Rightarrow>
     panic + (io_error + 'e udp_socket) \<times> 'p" where
  "udp_from_std po used_bits ops entered conv socket p = udp_new po used_bits ops entered (conv socket) p"

definition udp_try_from ::
    "('p, ('l, 'w) scheduled_io) pool_ops \<Rightarrow> u32 \<Rightarrow> ('e, 's) udp_ops \<Rightarrow> bool \<Rightarrow> ('d \<Rightarrow> 'e) \<Rightarrow> 'd \<Rightarrow> 'p \<Rightarrow>
     panic + (io_error + 'e udp_socket) \<times> 'p" where
  "udp_try_from po used_bits ops entered conv stream p = udp_from_std po used_bits ops entered conv stream p"

subsection \<open>Addresses\<close>

definition udp_local_addr :: "('e, 's) udp_ops \<Rightarrow> 'e udp_socket \<Rightarrow> 's \<Rightarrow> panic + (io_error + socket_addr)" where
  "udp_local_addr ops sock s = bindE (deref (udp_io sock)) (\<lambda>src. Inr (udp_sys_local_addr ops src s))"

definition udp_peer_addr :: "('e, 's) udp_ops \<Rightarrow> 'e udp_socket \<Rightarrow> 's \<Rightarrow> panic + (io_error + socket_addr)" where
  "udp_peer_addr ops sock s = bindE (deref (udp_io sock)) (\<lambda>src. Inr (udp_sys_peer_addr ops src s))"

definition udp_connect ::
    "('e, 's) udp_ops \<Rightarrow> resolver \<Rightarrow> 'e udp_socket \<Rightarrow> addr_arg \<Rightarrow> 's \<Rightarrow> panic + (io_error + unit) \<times> 's" where
  "udp_connect ops rs sock addr s =
     for_each_addr rs addr (\<lambda>a s. bindE (deref (udp_io sock)) (\<lambda>src. Inr (udp_sys_connect ops src a s))) s"

subsection \<open>Sending\<close>

definition udp_poll_send_ready ::
    "('p, ('l, 'w) scheduled_io) pool_ops \<Rightarrow> 'e udp_socket \<Rightarrow> 'w \<Rightarrow> 'p \<Rightarrow> panic + (io_error + unit) poll \<times> 'p" where
  "udp_poll_send_ready po sock cx p =
     bindE (poll_write_ready po (udp_reg sock) cx p) (\<lambda>(r, p1). Inr (ready_ok r, p1))"

definition udp_send ::
    "('p, ('l, 'w) scheduled_io) pool_ops \<Rightarrow> ('l, 'c, 'n, 'w) pin_list \<Rightarrow> ('e, 's) udp_ops \<Rightarrow> 'e udp_socket \<Rightarrow> 'w \<Rightarrow> u8 list \<Rightarrow>
     'n async_fut \<Rightarrow> 'p \<Rightarrow> 's \<Rightarrow> (panic + (io_error + usize) poll \<times> 'n async_fut \<times> 'p \<times> 's) option" where
  "udp_send po pl ops sock cx buf fut p s =
     with_source (udp_io sock) (\<lambda>src. async_io po pl (udp_reg sock) Interest_WRITABLE cx (udp_sys_send ops src buf) fut p s)"

definition udp_poll_send ::
    "('p, ('l, 'w) scheduled_io) pool_ops \<Rightarrow> ('e, 's) udp_ops \<Rightarrow> 'e udp_socket \<Rightarrow> 'w \<Rightarrow> u8 list \<Rightarrow> 'p \<Rightarrow> 's \<Rightarrow>
     (panic + (io_error + usize) poll \<times> 'p \<times> 's) option" where
  "udp_poll_send po ops sock cx buf p s =
     with_source (udp_io sock) (\<lambda>src. poll_write_io po (udp_reg sock) cx (udp_sys_send ops src buf) p s)"

definition udp_try_send ::
    "('p, ('l, 'w) scheduled_io) pool_ops \<Rightarrow> ('e, 's) udp_ops \<Rightarrow> 'e udp_socket \<Rightarrow> u8 list \<Rightarrow> 'p \<Rightarrow> 's \<Rightarrow>
     panic + (io_error + usize) \<times> 'p \<times> 's" where
  "udp_try_send po ops sock buf p s =
     bindE (deref (udp_io sock)) (\<lambda>src. try_io po (udp_reg sock) Interest_WRITABLE (udp_sys_send ops src buf) p s)"

subsection \<open>Receiving\<close>

definition udp_poll_recv_ready ::
    "('p, ('l, 'w) scheduled_io) pool_ops \<Rightarrow> 'e udp_socket \<Rightarrow> 'w \<Rightarrow> 'p \<Rightarrow> panic + (io_error + unit) poll \<times> 'p" where
  "udp_poll_recv_ready po sock cx p =
     bindE (poll_read_ready po (udp_reg sock) cx p) (\<lambda>(r, p1). Inr (ready_ok r, p1))"

definition udp_recv ::
    "('p, ('l, 'w) scheduled_io) pool_ops \<Rightarrow> ('l, 'c, 'n, 'w) pin_list \<Rightarrow> ('e, 's) udp_ops \<Rightarrow> 'e udp_socket \<Rightarrow> 'w \<Rightarrow>
     'n async_fut \<Rightarrow> 'p \<Rightarrow> u8 list \<times> 's \<Rightarrow> (panic + (io_error + usize) poll \<times> 'n async_fut \<times> 'p \<times> u8 list \<times> 's) option" where
  "udp_recv po pl ops sock cx fut p bs =
     with_source (udp_io sock) (\<lambda>src. async_io po pl (udp_reg sock) Interest_READABLE cx (udp_sys_recv ops src) fut p bs)"

definition udp_poll_recv ::
    "('p, ('l, 'w) scheduled_io) pool_ops \<Rightarrow> ('e, 's) udp_ops \<Rightarrow> 'e udp_socket \<Rightarrow> 'w \<Rightarrow> 'p \<Rightarrow> u8 list \<times> 's \<Rightarrow>
     (panic + (io_error + usize) poll \<times> 'p \<times> u8 list \<times> 's) option" where
  "udp_poll_recv po ops sock cx p bs =
     with_source (udp_io sock) (\<lambda>src. poll_read_io po (udp_reg sock) cx (udp_sys_recv ops src) p bs)"

definition udp_try_recv ::
    "('p, ('l, 'w) scheduled_io) pool_ops \<Rightarrow> ('e, 's) udp_ops \<Rightarrow> 'e udp_socket \<Rightarrow> 'p \<Rightarrow> u8 list \<times> 's \<Rightarrow>
     panic + (io_error + usize) \<times> 'p \<times> u8 list \<times> 's" where
  "udp_try_recv po ops sock p bs =
     bindE (deref (udp_io sock)) (\<lambda>src. try_io po (udp_reg sock) Interest_READABLE (udp_sys_recv ops src) p bs)"

subsection \<open>Sending to an address\<close>

definition no_target :: io_error where
  "no_target = Io_Error InvalidInput ''no addresses to send data to''"

definition udp_poll_send_to ::
    "('p, ('l, 'w) scheduled_io) pool_ops \<Rightarrow> ('e, 's) udp_ops \<Rightarrow> 'e udp_socket \<Rightarrow> 'w \<Rightarrow> u8 list \<Rightarrow> socket_addr \<Rightarrow> 'p \<Rightarrow> 's \<Rightarrow>
     (panic + (io_error + usize) poll \<times> 'p \<times> 's) option" where
  "udp_poll_send_to po ops sock cx buf target p s =
     with_source (udp_io sock) (\<lambda>src. poll_write_io po (udp_reg sock) cx (udp_sys_send_to ops src buf target) p s)"

definition udp_try_send_to ::
    "('p, ('l, 'w) scheduled_io) pool_ops \<Rightarrow> ('e, 's) udp_ops \<Rightarrow> 'e udp_socket \<Rightarrow> u8 list \<Rightarrow> socket_addr \<Rightarrow> 'p \<Rightarrow> 's \<Rightarrow>
     panic + (io_error + usize) \<times> 'p \<times> 's" where
  "udp_try_send_to po ops sock buf target p s =
     bindE (deref (udp_io sock)) (\<lambda>src. try_io po (udp_reg sock) Interest_WRITABLE (udp_sys_send_to ops src buf target) p s)"

definition udp_send_to_addr ::
    "('p, ('l, 'w) scheduled_io) pool_ops \<Rightarrow> ('l, 'c, 'n, 'w) pin_list \<Rightarrow> ('e, 's) udp_ops \<Rightarrow> 'e udp_socket \<Rightarrow> 'w \<Rightarrow> u8 list \<Rightarrow>
     socket_addr \<Rightarrow> 'n async_fut \<Rightarrow> 'p \<Rightarrow> 's \<Rightarrow> (panic + (io_error + usize) poll \<times> 'n async_fut \<times> 'p \<times> 's) option" where
  "udp_send_to_addr po pl ops sock cx buf target fut p s =
     with_source (udp_io sock) (\<lambda>src.
       async_io po pl (udp_reg sock) Interest_WRITABLE cx (udp_sys_send_to ops src buf target) fut p s)"

text \<open>The future of \<^verbatim>\<open>send_to\<close>: the target is resolved by the first poll, the later ones resume the send.\<close>

datatype 'n send_to_fut = Send_To_Unpolled 'n | Send_To_Awaiting socket_addr "'n async_fut" | Send_To_Finished

definition udp_send_to ::
    "('p, ('l, 'w) scheduled_io) pool_ops \<Rightarrow> ('l, 'c, 'n, 'w) pin_list \<Rightarrow> ('e, 's) udp_ops \<Rightarrow> resolver \<Rightarrow> 'e udp_socket \<Rightarrow> 'w \<Rightarrow>
     u8 list \<Rightarrow> addr_arg \<Rightarrow> 'n send_to_fut \<Rightarrow> 'p \<Rightarrow> 's \<Rightarrow>
     (panic + (io_error + usize) poll \<times> 'n send_to_fut \<times> 'p \<times> 's) option" where
  "udp_send_to po pl ops rs sock cx buf target st p s =
     (let await = (\<lambda>addr fut. map_option (map_sum (\<lambda>e. e) (\<lambda>(r, fut1, p1, s1).
          case r of
            Poll_Pending \<Rightarrow> (Poll_Pending, Send_To_Awaiting addr fut1, p1, s1)
          | Poll_Ready x \<Rightarrow> (Poll_Ready x, Send_To_Finished, p1, s1)))
        (udp_send_to_addr po pl ops sock cx buf addr fut p s)) in
      case st of
        Send_To_Unpolled node \<Rightarrow>
          (case to_socket_addrs rs target of
             Inl e \<Rightarrow> Some (Inr (Poll_Ready (Inl e), Send_To_Finished, p, s))
           | Inr addrs \<Rightarrow>
               (case next_addr addrs of
                  (Some addr, _) \<Rightarrow> await addr (Unpolled node)
                | (None, _) \<Rightarrow> Some (Inr (Poll_Ready (Inl no_target), Send_To_Finished, p, s))))
      | Send_To_Awaiting addr fut \<Rightarrow> await addr fut
      | Send_To_Finished \<Rightarrow> Some (Inl resumed))"

subsection \<open>Receiving with the sender\<close>

definition udp_recv_from ::
    "('p, ('l, 'w) scheduled_io) pool_ops \<Rightarrow> ('l, 'c, 'n, 'w) pin_list \<Rightarrow> ('e, 's) udp_ops \<Rightarrow> 'e udp_socket \<Rightarrow> 'w \<Rightarrow>
     'n async_fut \<Rightarrow> 'p \<Rightarrow> u8 list \<times> 's \<Rightarrow>
     (panic + (io_error + usize \<times> socket_addr) poll \<times> 'n async_fut \<times> 'p \<times> u8 list \<times> 's) option" where
  "udp_recv_from po pl ops sock cx fut p bs =
     with_source (udp_io sock) (\<lambda>src. async_io po pl (udp_reg sock) Interest_READABLE cx (udp_sys_recv_from ops src) fut p bs)"

definition udp_poll_recv_from ::
    "('p, ('l, 'w) scheduled_io) pool_ops \<Rightarrow> ('e, 's) udp_ops \<Rightarrow> 'e udp_socket \<Rightarrow> 'w \<Rightarrow> 'p \<Rightarrow> u8 list \<times> 's \<Rightarrow>
     (panic + (io_error + usize \<times> socket_addr) poll \<times> 'p \<times> u8 list \<times> 's) option" where
  "udp_poll_recv_from po ops sock cx p bs =
     with_source (udp_io sock) (\<lambda>src. poll_read_io po (udp_reg sock) cx (udp_sys_recv_from ops src) p bs)"

definition udp_try_recv_from ::
    "('p, ('l, 'w) scheduled_io) pool_ops \<Rightarrow> ('e, 's) udp_ops \<Rightarrow> 'e udp_socket \<Rightarrow> 'p \<Rightarrow> u8 list \<times> 's \<Rightarrow>
     panic + (io_error + usize \<times> socket_addr) \<times> 'p \<times> u8 list \<times> 's" where
  "udp_try_recv_from po ops sock p bs =
     bindE (deref (udp_io sock)) (\<lambda>src. try_io po (udp_reg sock) Interest_READABLE (udp_sys_recv_from ops src) p bs)"

text \<open>\<open>sys_try_io\<close> is \<^verbatim>\<open>mio::net::UdpSocket::try_io\<close>.\<close>

definition udp_try_io ::
    "('p, ('l, 'w) scheduled_io) pool_ops \<Rightarrow> ('e \<Rightarrow> ('s, 'r) operation \<Rightarrow> ('s, 'r) operation) \<Rightarrow> 'e udp_socket \<Rightarrow> interest \<Rightarrow>
     ('s, 'r) operation \<Rightarrow> 'p \<Rightarrow> 's \<Rightarrow> panic + (io_error + 'r) \<times> 'p \<times> 's" where
  "udp_try_io po sys_try_io sock intr f p s =
     bindE (deref (udp_io sock)) (\<lambda>src. try_io po (udp_reg sock) intr (sys_try_io src f) p s)"

definition udp_peek_from ::
    "('p, ('l, 'w) scheduled_io) pool_ops \<Rightarrow> ('l, 'c, 'n, 'w) pin_list \<Rightarrow> ('e, 's) udp_ops \<Rightarrow> 'e udp_socket \<Rightarrow> 'w \<Rightarrow>
     'n async_fut \<Rightarrow> 'p \<Rightarrow> u8 list \<times> 's \<Rightarrow>
     (panic + (io_error + usize \<times> socket_addr) poll \<times> 'n async_fut \<times> 'p \<times> u8 list \<times> 's) option" where
  "udp_peek_from po pl ops sock cx fut p bs =
     with_source (udp_io sock) (\<lambda>src. async_io po pl (udp_reg sock) Interest_READABLE cx (udp_sys_peek_from ops src) fut p bs)"

definition udp_poll_peek_from ::
    "('p, ('l, 'w) scheduled_io) pool_ops \<Rightarrow> ('e, 's) udp_ops \<Rightarrow> 'e udp_socket \<Rightarrow> 'w \<Rightarrow> 'p \<Rightarrow> u8 list \<times> 's \<Rightarrow>
     (panic + (io_error + usize \<times> socket_addr) poll \<times> 'p \<times> u8 list \<times> 's) option" where
  "udp_poll_peek_from po ops sock cx p bs =
     with_source (udp_io sock) (\<lambda>src. poll_read_io po (udp_reg sock) cx (udp_sys_peek_from ops src) p bs)"

subsection \<open>Properties\<close>

lemma first_addr: "fst (next_addr i) = (case addr_list i of [] \<Rightarrow> None | a # _ \<Rightarrow> Some a)"
proof (cases i)
  case (One a)
  then show ?thesis by (cases a) simp_all
next
  case (More as)
  then show ?thesis by (cases as) simp_all
qed

text \<open>
  send_to on a writable socket sends to the first resolved address only, and fails when there is
  none.
\<close>

theorem send_to_uses_first_address:
  assumes "to_socket_addrs rs target = Inr i" "io (udp_io sock) = Some src" "pool_get po (key (udp_reg sock)) p = Some sio"
    and "\<not> shutdown_of (readiness sio)" "satisfies (from_usize (readiness sio)) Interest_WRITABLE"
    and "\<forall>e. fst (udp_sys_send_to ops src buf (hd (addr_list i)) s) = Inl e \<longrightarrow> kind e \<noteq> WouldBlock"
  shows "udp_send_to po pl ops rs sock cx buf target (Send_To_Unpolled node) p s =
    Some (Inr (case addr_list i of
        [] \<Rightarrow> (Poll_Ready (Inl no_target), Send_To_Finished, p, s)
      | a # _ \<Rightarrow> (Poll_Ready (fst (udp_sys_send_to ops src buf a s)), Send_To_Finished, pool_put po (key (udp_reg sock)) sio p,
          snd (udp_sys_send_to ops src buf a s))))"
proof (cases "addr_list i")
  case Nil
  then show ?thesis using assms(1) first_addr [of i] by (cases "next_addr i") (simp add: udp_send_to_def)
next
  case (Cons a as)
  obtain res s1 where r: "udp_sys_send_to ops src buf a s = (res, s1)" by fastforce
  have "\<forall>e. res = Inl e \<longrightarrow> kind e \<noteq> WouldBlock" using assms(6) Cons r by simp
  from async_io_ready [where pl = pl and cx = cx and node = node and f = "udp_sys_send_to ops src buf a" and s = s, OF assms(3-5) r this]
  have "udp_send_to_addr po pl ops sock cx buf a (Unpolled node) p s =
      Some (Inr (Poll_Ready res, Finished, pool_put po (key (udp_reg sock)) sio p, s1))"
    using assms(2) by (simp add: udp_send_to_addr_def with_source_def deref_def)
  then show ?thesis using assms(1) first_addr [of i] Cons r by (cases "next_addr i") (simp add: udp_send_to_def)
qed

text \<open>
  A send that is attempted never changes the readiness for reading, the waiters, or another entry.
\<close>

theorem try_send_keeps_read_readiness:
  assumes "pool_spec po" "pool_get po (key (udp_reg sock)) p = Some sio" "udp_try_send po ops sock buf p s = Inr (res, p', s')"
  shows "\<exists>sio'. pool_get po (key (udp_reg sock)) p' = Some sio' \<and> ready_flags Read sio' = ready_flags Read sio \<and>
    waiter_list sio' = waiter_list sio \<and> (\<forall>j. pool_index po j \<noteq> pool_index po (key (udp_reg sock)) \<longrightarrow> pool_get po j p' = pool_get po j p)"
proof -
  obtain src where "try_io po (udp_reg sock) Interest_WRITABLE (udp_sys_send ops src buf) p s = Inr (res, p', s')"
    using assms(3) by (auto simp: udp_try_send_def bindE_eq_Inr)
  from try_io_other_direction [OF assms(1,2) this, of Write Read] show ?thesis by simp
qed

subsection \<open>Witnesses\<close>

abbreviation sample_udp :: "(unit, socket_addr list) udp_ops" where
  "sample_udp \<equiv> \<lparr>udp_sys_bind = (\<lambda>_ s. (Inr (), s)), udp_sys_register = (\<lambda>_ _ _. Inr ()), udp_sys_local_addr = (\<lambda>_ _. Inl gone),
     udp_sys_peer_addr = (\<lambda>_ _. Inl gone), udp_sys_connect = (\<lambda>_ _ s. (Inr (), s)), udp_sys_send = (\<lambda>_ buf s. (Inl would_block, s)),
     udp_sys_recv = (\<lambda>_ s. (Inr 0, s)), udp_sys_send_to = (\<lambda>_ buf a s. (Inr (of_nat (length buf)), a # s)),
     udp_sys_recv_from = (\<lambda>_ s. (Inl would_block, s)), udp_sys_peek_from = (\<lambda>_ s. (Inl would_block, s))\<rparr>"

abbreviation sample_socket :: "unit udp_socket" where
  "sample_socket \<equiv> \<lparr>udp_io = \<lparr>io = Some (), registration = \<lparr>key = 0\<rparr>\<rparr>\<rparr>"

lemma sample_writable:
  "from_usize 2 = WRITABLE" "\<not> shutdown_of 2" "satisfies WRITABLE Interest_WRITABLE"
  by (simp add: from_usize_def ready_consts, simp add: shutdown_of_def,
    simp add: satisfies_iff flag_simps Interest_WRITABLE_def)

theorem send_to_uses_first_address_witness:
  "udp_send_to slab list_pin_list sample_udp no_resolver sample_socket 9 [1, 2, 3] (Arg_Slice [V4 1 80, V4 2 80]) (Send_To_Unpolled 4) (ready_pool 2) [] =
    Some (Inr (Poll_Ready (Inr 3), Send_To_Finished, ready_pool 2, [V4 1 80]))"
proof -
  let ?sio = "\<lparr>readiness = 2, waiter_list = [] :: (nat, nat) waiter list, reader = Some (7 :: nat), writer = None\<rparr>"
  have "pool_get slab 0 (ready_pool 2) = Some ?sio" "pool_put slab 0 ?sio (ready_pool 2) = ready_pool 2" by (simp_all add: slab_def)
  then show ?thesis
    using send_to_uses_first_address [of no_resolver "Arg_Slice [V4 1 80, V4 2 80]" "More [V4 1 80, V4 2 80]" sample_socket "()" slab "ready_pool 2" ?sio
      sample_udp "[1, 2, 3]" "[]" list_pin_list 9 4] sample_writable by simp
qed

theorem try_send_keeps_read_readiness_witness:
  "\<exists>p' sio'. udp_try_send slab sample_udp sample_socket [1] (ready_pool 3) [] = Inr (Inl would_block, p', []) \<and>
     pool_get slab 0 p' = Some sio' \<and> ready_flags Read sio' = {Readable}"
proof -
  let ?sio = "\<lparr>readiness = 3, waiter_list = [] :: (nat, nat) waiter list, reader = Some (7 :: nat), writer = None\<rparr>"
  have g: "pool_get slab (key (udp_reg sample_socket)) (ready_pool 3) = Some ?sio" by (simp add: slab_def)
  have f: "from_usize 3 = bitor READABLE WRITABLE" by (simp add: from_usize_def ready_consts bitor_def)
  have "ready_flags Write ?sio \<noteq> {}" and r: "ready_flags Read ?sio = {Readable}" by (auto simp: ready_flags_def f flag_simps)
  then obtain p' where t: "udp_try_send slab sample_udp sample_socket [1] (ready_pool 3) [] = Inr (Inl would_block, p', [])"
    using try_io_cases [OF slab_ok g, of Interest_WRITABLE Write "udp_sys_send sample_udp () [1]" "[]" "Inl would_block" "[]"]
    by (auto simp: udp_try_send_def deref_def would_block_def)
  from try_send_keeps_read_readiness [OF slab_ok g t] t r show ?thesis by auto
qed

end
