(* ===== verification/Tcp.thy ===== *)
theory Tcp
  imports Net
begin

text \<open>
  \<^verbatim>\<open>src/src/net/tcp/stream.rs\<close> and \<^verbatim>\<open>src/src/net/tcp/listener.rs\<close>: connecting, accepting, and the
  operations of a stream. The calls of \<^verbatim>\<open>mio\<close> are parameters, records on a state \<open>'s\<close>. As in
  \<^verbatim>\<open>Udp\<close>, \<open>p\<close> is the slab of the runtime and \<open>entered\<close> tells whether the thread runs in it; a stream that
  can be used holds its source.
\<close>

datatype shutdown = Shutdown_Read | Shutdown_Write | Shutdown_Both

record ('e, 's) tcp_ops =
  tcp_sys_connect :: "socket_addr \<Rightarrow> ('s, 'e) operation"
  tcp_sys_register :: "'e \<Rightarrow> usize \<Rightarrow> interest \<Rightarrow> io_error + unit"
  tcp_sys_deregister :: "'e \<Rightarrow> ('s, unit) operation"
  tcp_sys_take_error :: "'e \<Rightarrow> ('s, io_error option) operation"
  tcp_sys_local_addr :: "'e \<Rightarrow> 's \<Rightarrow> io_error + socket_addr"
  tcp_sys_peer_addr :: "'e \<Rightarrow> 's \<Rightarrow> io_error + socket_addr"
  tcp_sys_peek :: "'e \<Rightarrow> u8 list \<Rightarrow> 's \<Rightarrow> (io_error + usize) \<times> u8 list \<times> 's"
  tcp_sys_read :: "'e \<Rightarrow> u8 list \<Rightarrow> 's \<Rightarrow> (io_error + usize) \<times> u8 list \<times> 's"
  tcp_sys_read_vectored :: "'e \<Rightarrow> (u8 list list \<times> 's, usize) operation"
  tcp_sys_write :: "'e \<Rightarrow> u8 list \<Rightarrow> ('s, usize) operation"
  tcp_sys_write_vectored :: "'e \<Rightarrow> u8 list list \<Rightarrow> ('s, usize) operation"
  tcp_sys_shutdown :: "'e \<Rightarrow> shutdown \<Rightarrow> ('s, unit) operation"

record 'e tcp_stream =
  tcp_io :: "'e poll_evented"

abbreviation tcp_reg :: "'e tcp_stream \<Rightarrow> registration" where
  "tcp_reg stream \<equiv> registration (tcp_io stream)"

subsection \<open>Connecting\<close>

definition tcp_new ::
    "('p, ('l, 'w) scheduled_io) pool_ops \<Rightarrow> u32 \<Rightarrow> ('e, 's) tcp_ops \<Rightarrow> bool \<Rightarrow> 'e \<Rightarrow> 'p \<Rightarrow>
     panic + (io_error + 'e tcp_stream) \<times> 'p" where
  "tcp_new po used_bits ops entered connected p =
     bindE (new po used_bits (tcp_sys_register ops connected) connected (if entered then Some p else None)) (\<lambda>(res, p1).
       Inr (map_sum (\<lambda>e. e) (\<lambda>pe. \<lparr>tcp_io = pe\<rparr>) res, p1))"

text \<open>What a poll of \<^verbatim>\<open>connect_mio\<close> leaves: a stream whose connection is under way, or its result.\<close>

datatype 'e connecting = Connecting "'e tcp_stream" | Connected "io_error + 'e tcp_stream"

text \<open>
  \<^verbatim>\<open>connect_mio\<close> from its \<^verbatim>\<open>await\<close> on. A stream that is not returned is dropped.
\<close>

definition tcp_connect_resume ::
    "('p, ('l, 'w) scheduled_io) pool_ops \<Rightarrow> ('e, 's) tcp_ops \<Rightarrow> 'w \<Rightarrow> 'e tcp_stream \<Rightarrow> 'p \<Rightarrow> 's \<Rightarrow>
     panic + 'e connecting \<times> 'p \<times> 's" where
  "tcp_connect_resume po ops cx stream p s =
     (let fail = (\<lambda>e p s. (Connected (Inl e), drop_evented po (tcp_io stream) (tcp_sys_deregister ops) p s)) in
      bindE (poll_write_ready po (tcp_reg stream) cx p) (\<lambda>(r, p1).
        case r of
          Poll_Pending \<Rightarrow> Inr (Connecting stream, p1, s)
        | Poll_Ready (Inl e) \<Rightarrow> Inr (fail e p1 s)
        | Poll_Ready (Inr _) \<Rightarrow>
            bindE (deref (tcp_io stream)) (\<lambda>src.
              case tcp_sys_take_error ops src s of
                (Inl e, s1) \<Rightarrow> Inr (fail e p1 s1)
              | (Inr (Some e), s1) \<Rightarrow> Inr (fail e p1 s1)
              | (Inr None, s1) \<Rightarrow> Inr (Connected (Inr stream), p1, s1))))"

definition tcp_connect_mio ::
    "('p, ('l, 'w) scheduled_io) pool_ops \<Rightarrow> u32 \<Rightarrow> ('e, 's) tcp_ops \<Rightarrow> bool \<Rightarrow> 'w \<Rightarrow> 'e \<Rightarrow> 'p \<Rightarrow> 's \<Rightarrow>
     panic + 'e connecting \<times> 'p \<times> 's" where
  "tcp_connect_mio po used_bits ops entered cx sys p s =
     bindE (tcp_new po used_bits ops entered sys p) (\<lambda>(res, p1).
       case res of
         Inl e \<Rightarrow> Inr (Connected (Inl e), p1, s)
       | Inr stream \<Rightarrow> tcp_connect_resume po ops cx stream p1 s)"

definition tcp_connect_addr ::
    "('p, ('l, 'w) scheduled_io) pool_ops \<Rightarrow> u32 \<Rightarrow> ('e, 's) tcp_ops \<Rightarrow> bool \<Rightarrow> 'w \<Rightarrow> socket_addr \<Rightarrow> 'p \<Rightarrow> 's \<Rightarrow>
     panic + 'e connecting \<times> 'p \<times> 's" where
  "tcp_connect_addr po used_bits ops entered cx addr p s =
     (case tcp_sys_connect ops addr s of
        (Inl e, s1) \<Rightarrow> Inr (Connected (Inl e), p, s1)
      | (Inr sys, s1) \<Rightarrow> tcp_connect_mio po used_bits ops entered cx sys p s1)"

text \<open>
  The future of \<^verbatim>\<open>connect\<close>: while it awaits a connection it holds the last error, the addresses not yet
  tried, and the stream.
\<close>

datatype 'e connect_fut =
    Connect_Unpolled
  | Connect_Awaiting "io_error option" "socket_addr list" "'e tcp_stream"
  | Connect_Finished

fun tcp_connect_loop ::
    "('p, ('l, 'w) scheduled_io) pool_ops \<Rightarrow> u32 \<Rightarrow> ('e, 's) tcp_ops \<Rightarrow> bool \<Rightarrow> 'w \<Rightarrow> io_error option \<Rightarrow> socket_addr list \<Rightarrow> 'p \<Rightarrow> 's \<Rightarrow>
     panic + (io_error + 'e tcp_stream) poll \<times> 'e connect_fut \<times> 'p \<times> 's" where
  "tcp_connect_loop po used_bits ops entered cx last_err [] p s =
     Inr (Poll_Ready (Inl (case last_err of Some e \<Rightarrow> e | None \<Rightarrow> no_address)), Connect_Finished, p, s)"
| "tcp_connect_loop po used_bits ops entered cx last_err (addr # addrs) p s =
     bindE (tcp_connect_addr po used_bits ops entered cx addr p s) (\<lambda>(c, p1, s1).
       case c of
         Connecting stream \<Rightarrow> Inr (Poll_Pending, Connect_Awaiting last_err addrs stream, p1, s1)
       | Connected (Inr stream) \<Rightarrow> Inr (Poll_Ready (Inr stream), Connect_Finished, p1, s1)
       | Connected (Inl e) \<Rightarrow> tcp_connect_loop po used_bits ops entered cx (Some e) addrs p1 s1)"

definition tcp_connect ::
    "('p, ('l, 'w) scheduled_io) pool_ops \<Rightarrow> u32 \<Rightarrow> ('e, 's) tcp_ops \<Rightarrow> bool \<Rightarrow> resolver \<Rightarrow> addr_arg \<Rightarrow> 'w \<Rightarrow> 'e connect_fut \<Rightarrow>
     'p \<Rightarrow> 's \<Rightarrow> panic + (io_error + 'e tcp_stream) poll \<times> 'e connect_fut \<times> 'p \<times> 's" where
  "tcp_connect po used_bits ops entered rs arg cx st p s =
     (case st of
        Connect_Unpolled \<Rightarrow>
          (case to_socket_addrs rs arg of
             Inl e \<Rightarrow> Inr (Poll_Ready (Inl e), Connect_Finished, p, s)
           | Inr addrs \<Rightarrow> tcp_connect_loop po used_bits ops entered cx None (addr_list addrs) p s)
      | Connect_Awaiting last_err addrs stream \<Rightarrow>
          bindE (tcp_connect_resume po ops cx stream p s) (\<lambda>(c, p1, s1).
            case c of
              Connecting stream1 \<Rightarrow> Inr (Poll_Pending, Connect_Awaiting last_err addrs stream1, p1, s1)
            | Connected (Inr stream1) \<Rightarrow> Inr (Poll_Ready (Inr stream1), Connect_Finished, p1, s1)
            | Connected (Inl e) \<Rightarrow> tcp_connect_loop po used_bits ops entered cx (Some e) addrs p1 s1)
      | Connect_Finished \<Rightarrow> Inl resumed)"

text \<open>\<open>conv\<close> is \<^verbatim>\<open>mio::net::TcpStream::from_std\<close>.\<close>

definition tcp_from_std ::
    "('p, ('l, 'w) scheduled_io) pool_ops \<Rightarrow> u32 \<Rightarrow> ('e, 's) tcp_ops \<Rightarrow> bool \<Rightarrow> ('d \<Rightarrow> 'e) \<Rightarrow> 'd \<Rightarrow> 'p \<Rightarrow>
     panic + (io_error + 'e tcp_stream) \<times> 'p" where
  "tcp_from_std po used_bits ops entered conv stream p =
     (let src = conv stream in
      bindE (new po used_bits (tcp_sys_register ops src) src (if entered then Some p else None)) (\<lambda>(res, p1).
        Inr (map_sum (\<lambda>e. e) (\<lambda>pe. \<lparr>tcp_io = pe\<rparr>) res, p1)))"

definition tcp_try_from ::
    "('p, ('l, 'w) scheduled_io) pool_ops \<Rightarrow> u32 \<Rightarrow> ('e, 's) tcp_ops \<Rightarrow> bool \<Rightarrow> ('d \<Rightarrow> 'e) \<Rightarrow> 'd \<Rightarrow> 'p \<Rightarrow>
     panic + (io_error + 'e tcp_stream) \<times> 'p" where
  "tcp_try_from po used_bits ops entered conv stream p = tcp_from_std po used_bits ops entered conv stream p"

subsection \<open>Streams\<close>

definition tcp_local_addr :: "('e, 's) tcp_ops \<Rightarrow> 'e tcp_stream \<Rightarrow> 's \<Rightarrow> panic + (io_error + socket_addr)" where
  "tcp_local_addr ops stream s = bindE (deref (tcp_io stream)) (\<lambda>src. Inr (tcp_sys_local_addr ops src s))"

definition tcp_take_error :: "('e, 's) tcp_ops \<Rightarrow> 'e tcp_stream \<Rightarrow> 's \<Rightarrow> panic + (io_error + io_error option) \<times> 's" where
  "tcp_take_error ops stream s = bindE (deref (tcp_io stream)) (\<lambda>src. Inr (tcp_sys_take_error ops src s))"

definition tcp_peer_addr :: "('e, 's) tcp_ops \<Rightarrow> 'e tcp_stream \<Rightarrow> 's \<Rightarrow> panic + (io_error + socket_addr)" where
  "tcp_peer_addr ops stream s = bindE (deref (tcp_io stream)) (\<lambda>src. Inr (tcp_sys_peer_addr ops src s))"

partial_function (option) tcp_poll_peek ::
    "('p, ('l, 'w) scheduled_io) pool_ops \<Rightarrow> ('e, 's) tcp_ops \<Rightarrow> 'e tcp_stream \<Rightarrow> 'w \<Rightarrow>
     u8 list \<Rightarrow> 'p \<Rightarrow> 's \<Rightarrow> (panic + (io_error + usize) poll \<times> u8 list \<times> 'p \<times> 's) option" where
  "tcp_poll_peek po ops stream cx buf p s =
     (case poll_read_ready po (tcp_reg stream) cx p of
        Inl x \<Rightarrow> Some (Inl x)
      | Inr (Poll_Pending, p1) \<Rightarrow> Some (Inr (Poll_Pending, buf, p1, s))
      | Inr (Poll_Ready (Inl e), p1) \<Rightarrow> Some (Inr (Poll_Ready (Inl e), buf, p1, s))
      | Inr (Poll_Ready (Inr ev), p1) \<Rightarrow>
          (case deref (tcp_io stream) of
             Inl x \<Rightarrow> Some (Inl x)
           | Inr src \<Rightarrow>
               (case tcp_sys_peek ops src buf s of
                  (Inr ret, buf1, s1) \<Rightarrow> Some (Inr (Poll_Ready (Inr ret), buf1, p1, s1))
                | (Inl e, buf1, s1) \<Rightarrow>
                    if kind e = WouldBlock then
                      (case reg_clear_readiness po (tcp_reg stream) ev p1 of
                         Inl x \<Rightarrow> Some (Inl x)
                       | Inr p2 \<Rightarrow> tcp_poll_peek po ops stream cx buf1 p2 s1)
                    else Some (Inr (Poll_Ready (Inl e), buf1, p1, s1)))))"

definition tcp_poll_read_ready ::
    "('p, ('l, 'w) scheduled_io) pool_ops \<Rightarrow> 'e tcp_stream \<Rightarrow> 'w \<Rightarrow> 'p \<Rightarrow> panic + (io_error + unit) poll \<times> 'p" where
  "tcp_poll_read_ready po stream cx p =
     bindE (poll_read_ready po (tcp_reg stream) cx p) (\<lambda>(r, p1). Inr (ready_ok r, p1))"

definition tcp_try_read ::
    "('p, ('l, 'w) scheduled_io) pool_ops \<Rightarrow> ('e, 's) tcp_ops \<Rightarrow> 'e tcp_stream \<Rightarrow> 'p \<Rightarrow> u8 list \<times> 's \<Rightarrow>
     panic + (io_error + usize) \<times> 'p \<times> u8 list \<times> 's" where
  "tcp_try_read po ops stream p bs =
     bindE (deref (tcp_io stream)) (\<lambda>src.
       try_io po (tcp_reg stream) Interest_READABLE (read_operation (tcp_sys_read ops) src) p bs)"

definition tcp_try_read_vectored ::
    "('p, ('l, 'w) scheduled_io) pool_ops \<Rightarrow> ('e, 's) tcp_ops \<Rightarrow> 'e tcp_stream \<Rightarrow> 'p \<Rightarrow> u8 list list \<times> 's \<Rightarrow>
     panic + (io_error + usize) \<times> 'p \<times> u8 list list \<times> 's" where
  "tcp_try_read_vectored po ops stream p bs =
     bindE (deref (tcp_io stream)) (\<lambda>src.
       try_io po (tcp_reg stream) Interest_READABLE (tcp_sys_read_vectored ops src) p bs)"

definition tcp_poll_write_ready ::
    "('p, ('l, 'w) scheduled_io) pool_ops \<Rightarrow> 'e tcp_stream \<Rightarrow> 'w \<Rightarrow> 'p \<Rightarrow> panic + (io_error + unit) poll \<times> 'p" where
  "tcp_poll_write_ready po stream cx p =
     bindE (poll_write_ready po (tcp_reg stream) cx p) (\<lambda>(r, p1). Inr (ready_ok r, p1))"

definition tcp_try_write ::
    "('p, ('l, 'w) scheduled_io) pool_ops \<Rightarrow> ('e, 's) tcp_ops \<Rightarrow> 'e tcp_stream \<Rightarrow> u8 list \<Rightarrow> 'p \<Rightarrow> 's \<Rightarrow>
     panic + (io_error + usize) \<times> 'p \<times> 's" where
  "tcp_try_write po ops stream buf p s =
     bindE (deref (tcp_io stream)) (\<lambda>src. try_io po (tcp_reg stream) Interest_WRITABLE (tcp_sys_write ops src buf) p s)"

definition tcp_try_write_vectored ::
    "('p, ('l, 'w) scheduled_io) pool_ops \<Rightarrow> ('e, 's) tcp_ops \<Rightarrow> 'e tcp_stream \<Rightarrow> u8 list list \<Rightarrow> 'p \<Rightarrow> 's \<Rightarrow>
     panic + (io_error + usize) \<times> 'p \<times> 's" where
  "tcp_try_write_vectored po ops stream bufs p s =
     bindE (deref (tcp_io stream)) (\<lambda>src.
       try_io po (tcp_reg stream) Interest_WRITABLE (tcp_sys_write_vectored ops src bufs) p s)"

text \<open>\<open>sys_try_io\<close> is \<^verbatim>\<open>mio::net::TcpStream::try_io\<close>.\<close>

definition tcp_try_io ::
    "('p, ('l, 'w) scheduled_io) pool_ops \<Rightarrow> ('e \<Rightarrow> ('s, 'r) operation \<Rightarrow> ('s, 'r) operation) \<Rightarrow> 'e tcp_stream \<Rightarrow> interest \<Rightarrow>
     ('s, 'r) operation \<Rightarrow> 'p \<Rightarrow> 's \<Rightarrow> panic + (io_error + 'r) \<times> 'p \<times> 's" where
  "tcp_try_io po sys_try_io stream intr f p s =
     bindE (deref (tcp_io stream)) (\<lambda>src. try_io po (tcp_reg stream) intr (sys_try_io src f) p s)"

definition tcp_peek ::
    "('p, ('l, 'w) scheduled_io) pool_ops \<Rightarrow> ('l, 'c, 'n, 'w) pin_list \<Rightarrow> ('e, 's) tcp_ops \<Rightarrow> 'e tcp_stream \<Rightarrow> 'w \<Rightarrow>
     'n async_fut \<Rightarrow> 'p \<Rightarrow> u8 list \<times> 's \<Rightarrow> (panic + (io_error + usize) poll \<times> 'n async_fut \<times> 'p \<times> u8 list \<times> 's) option" where
  "tcp_peek po pl ops stream cx fut p bs =
     with_source (tcp_io stream) (\<lambda>src.
       async_io po pl (tcp_reg stream) Interest_READABLE cx (read_operation (tcp_sys_peek ops) src) fut p bs)"

definition tcp_shutdown_std :: "('e, 's) tcp_ops \<Rightarrow> 'e tcp_stream \<Rightarrow> shutdown \<Rightarrow> 's \<Rightarrow> panic + (io_error + unit) \<times> 's" where
  "tcp_shutdown_std ops stream how s = bindE (deref (tcp_io stream)) (\<lambda>src. Inr (tcp_sys_shutdown ops src how s))"

definition tcp_poll_read_priv ::
    "('p, ('l, 'w) scheduled_io) pool_ops \<Rightarrow> ('e, 's) tcp_ops \<Rightarrow> 'e tcp_stream \<Rightarrow> 'w \<Rightarrow>
     u8 list \<Rightarrow> 'p \<Rightarrow> 's \<Rightarrow> (panic + (io_error + usize) poll \<times> u8 list \<times> 'p \<times> 's) option" where
  "tcp_poll_read_priv po ops stream cx buf p s = poll_read po (tcp_io stream) cx (tcp_sys_read ops) buf p s"

definition tcp_poll_read ::
    "('p, ('l, 'w) scheduled_io) pool_ops \<Rightarrow> ('e, 's) tcp_ops \<Rightarrow> 'e tcp_stream \<Rightarrow> 'w \<Rightarrow>
     u8 list \<Rightarrow> 'p \<Rightarrow> 's \<Rightarrow> (panic + (io_error + usize) poll \<times> u8 list \<times> 'p \<times> 's) option" where
  "tcp_poll_read po ops stream cx buf p s = tcp_poll_read_priv po ops stream cx buf p s"

definition tcp_poll_write_priv ::
    "('p, ('l, 'w) scheduled_io) pool_ops \<Rightarrow> ('e, 's) tcp_ops \<Rightarrow> 'e tcp_stream \<Rightarrow> 'w \<Rightarrow>
     u8 list \<Rightarrow> 'p \<Rightarrow> 's \<Rightarrow> (panic + (io_error + usize) poll \<times> 'p \<times> 's) option" where
  "tcp_poll_write_priv po ops stream cx buf p s = poll_write po (tcp_io stream) cx (tcp_sys_write ops) buf p s"

definition tcp_poll_write ::
    "('p, ('l, 'w) scheduled_io) pool_ops \<Rightarrow> ('e, 's) tcp_ops \<Rightarrow> 'e tcp_stream \<Rightarrow> 'w \<Rightarrow>
     u8 list \<Rightarrow> 'p \<Rightarrow> 's \<Rightarrow> (panic + (io_error + usize) poll \<times> 'p \<times> 's) option" where
  "tcp_poll_write po ops stream cx buf p s = tcp_poll_write_priv po ops stream cx buf p s"

definition tcp_poll_write_vectored_priv ::
    "('p, ('l, 'w) scheduled_io) pool_ops \<Rightarrow> ('e, 's) tcp_ops \<Rightarrow> 'e tcp_stream \<Rightarrow> 'w \<Rightarrow>
     u8 list list \<Rightarrow> 'p \<Rightarrow> 's \<Rightarrow> (panic + (io_error + usize) poll \<times> 'p \<times> 's) option" where
  "tcp_poll_write_vectored_priv po ops stream cx bufs p s =
     poll_write_vectored po (tcp_io stream) cx (tcp_sys_write_vectored ops) bufs p s"

definition tcp_poll_write_vectored ::
    "('p, ('l, 'w) scheduled_io) pool_ops \<Rightarrow> ('e, 's) tcp_ops \<Rightarrow> 'e tcp_stream \<Rightarrow> 'w \<Rightarrow>
     u8 list list \<Rightarrow> 'p \<Rightarrow> 's \<Rightarrow> (panic + (io_error + usize) poll \<times> 'p \<times> 's) option" where
  "tcp_poll_write_vectored po ops stream cx bufs p s = tcp_poll_write_vectored_priv po ops stream cx bufs p s"

definition tcp_poll_flush :: "'s \<Rightarrow> (io_error + unit) poll \<times> 's" where
  "tcp_poll_flush s = (Poll_Ready (Inr ()), s)"

definition tcp_poll_close :: "('e, 's) tcp_ops \<Rightarrow> 'e tcp_stream \<Rightarrow> 's \<Rightarrow> panic + (io_error + unit) poll \<times> 's" where
  "tcp_poll_close ops stream s =
     bindE (tcp_shutdown_std ops stream Shutdown_Write s) (\<lambda>(res, s1).
       case res of Inl e \<Rightarrow> Inr (Poll_Ready (Inl e), s1) | Inr _ \<Rightarrow> Inr (Poll_Ready (Inr ()), s1))"

subsection \<open>Listeners\<close>

record ('d, 'e, 's) listener_ops =
  listener_sys_bind :: "socket_addr \<Rightarrow> ('s, 'd) operation"
  listener_sys_register :: "'d \<Rightarrow> usize \<Rightarrow> interest \<Rightarrow> io_error + unit"
  listener_sys_accept :: "'d \<Rightarrow> ('s, 'e \<times> socket_addr) operation"
  listener_sys_local_addr :: "'d \<Rightarrow> 's \<Rightarrow> io_error + socket_addr"

record 'd tcp_listener =
  listener_io :: "'d poll_evented"

definition listener_new ::
    "('p, ('l, 'w) scheduled_io) pool_ops \<Rightarrow> u32 \<Rightarrow> ('d, 'e, 's) listener_ops \<Rightarrow> bool \<Rightarrow> 'd \<Rightarrow> 'p \<Rightarrow>
     panic + (io_error + 'd tcp_listener) \<times> 'p" where
  "listener_new po used_bits lops entered listener p =
     bindE (new po used_bits (listener_sys_register lops listener) listener (if entered then Some p else None)) (\<lambda>(res, p1).
       Inr (map_sum (\<lambda>e. e) (\<lambda>pe. \<lparr>listener_io = pe\<rparr>) res, p1))"

definition listener_bind_addr ::
    "('p, ('l, 'w) scheduled_io) pool_ops \<Rightarrow> u32 \<Rightarrow> ('d, 'e, 's) listener_ops \<Rightarrow> bool \<Rightarrow> socket_addr \<Rightarrow> 'p \<times> 's \<Rightarrow>
     panic + (io_error + 'd tcp_listener) \<times> 'p \<times> 's" where
  "listener_bind_addr po used_bits lops entered addr st =
     (case listener_sys_bind lops addr (snd st) of
        (Inl e, s1) \<Rightarrow> Inr (Inl e, fst st, s1)
      | (Inr listener, s1) \<Rightarrow>
          bindE (listener_new po used_bits lops entered listener (fst st)) (\<lambda>(res, p1). Inr (res, p1, s1)))"

definition listener_bind ::
    "('p, ('l, 'w) scheduled_io) pool_ops \<Rightarrow> u32 \<Rightarrow> ('d, 'e, 's) listener_ops \<Rightarrow> bool \<Rightarrow> resolver \<Rightarrow> addr_arg \<Rightarrow> 'p \<times> 's \<Rightarrow>
     panic + (io_error + 'd tcp_listener) \<times> 'p \<times> 's" where
  "listener_bind po used_bits lops entered rs addr st =
     for_each_addr rs addr (listener_bind_addr po used_bits lops entered) st"

definition accept ::
    "('p, ('l, 'w) scheduled_io) pool_ops \<Rightarrow> ('l, 'c, 'n, 'w) pin_list \<Rightarrow> u32 \<Rightarrow> ('d, 'e, 's) listener_ops \<Rightarrow> ('e, 's) tcp_ops \<Rightarrow>
     bool \<Rightarrow> 'd tcp_listener \<Rightarrow> 'w \<Rightarrow> 'n async_fut \<Rightarrow> 'p \<Rightarrow> 's \<Rightarrow>
     (panic + (io_error + 'e tcp_stream \<times> socket_addr) poll \<times> 'n async_fut \<times> 'p \<times> 's) option" where
  "accept po pl used_bits lops ops entered listener cx fut p s =
     with_source (listener_io listener) (\<lambda>src.
       map_option (\<lambda>outcome. bindE outcome (\<lambda>(r, fut1, p1, s1).
         case r of
           Poll_Pending \<Rightarrow> Inr (Poll_Pending, fut1, p1, s1)
         | Poll_Ready (Inl e) \<Rightarrow> Inr (Poll_Ready (Inl e), fut1, p1, s1)
         | Poll_Ready (Inr (sys, addr)) \<Rightarrow>
             bindE (tcp_new po used_bits ops entered sys p1) (\<lambda>(res, p2).
               Inr (Poll_Ready (map_sum (\<lambda>e. e) (\<lambda>stream. (stream, addr)) res), fut1, p2, s1))))
       (async_io po pl (registration (listener_io listener)) Interest_READABLE cx (listener_sys_accept lops src) fut p s))"

definition listener_local_addr :: "('d, 'e, 's) listener_ops \<Rightarrow> 'd tcp_listener \<Rightarrow> 's \<Rightarrow> panic + (io_error + socket_addr)" where
  "listener_local_addr lops listener s =
     bindE (deref (listener_io listener)) (\<lambda>src. Inr (listener_sys_local_addr lops src s))"

definition listener_try_from ::
    "('p, ('l, 'w) scheduled_io) pool_ops \<Rightarrow> u32 \<Rightarrow> ('d, 'e, 's) listener_ops \<Rightarrow> bool \<Rightarrow> ('b \<Rightarrow> 'd) \<Rightarrow> 'b \<Rightarrow> 'p \<Rightarrow>
     panic + (io_error + 'd tcp_listener) \<times> 'p" where
  "listener_try_from po used_bits lops entered conv stream p = listener_new po used_bits lops entered (conv stream) p"

subsection \<open>Properties\<close>

lemma drop_evented_source [simp]:
  "io pe = Some src \<Longrightarrow> drop_evented po pe dereg p s = (drop_registration po (registration pe) p, snd (dereg src s))"
  by (simp add: drop_evented_def split: prod.split)

lemma peek_to_read:
  assumes "tcp_poll_peek po ops stream cx buf p s = Some y"
  shows "poll_read po (tcp_io stream) cx (tcp_sys_peek ops) buf p s = Some y"
proof (rule tcp_poll_peek.raw_induct [where P = "\<lambda>po ops stream cx buf p s y.
    poll_read po (tcp_io stream) cx (tcp_sys_peek ops) buf p s = Some y", OF _ assms], goal_cases)
  case (1 rec po ops stream cx buf p s y)
  then show ?case
    by (subst poll_read.simps) (auto simp: deref_def split: sum.splits prod.splits poll.splits if_splits option.splits)
qed

lemma read_to_peek:
  assumes "poll_read po (tcp_io stream) cx (tcp_sys_peek ops) buf p s = Some y"
  shows "tcp_poll_peek po ops stream cx buf p s = Some y"
proof -
  have "pe = tcp_io stream \<longrightarrow> rd = tcp_sys_peek ops \<longrightarrow> tcp_poll_peek po ops stream cx buf p s = Some y"
    if "poll_read po pe cx rd buf p s = Some y" for pe rd
  proof (rule poll_read.raw_induct [where P = "\<lambda>po pe cx rd buf p s y. pe = tcp_io stream \<longrightarrow> rd = tcp_sys_peek ops \<longrightarrow>
      tcp_poll_peek po ops stream cx buf p s = Some y", OF _ that], intro impI, goal_cases)
    case (1 rec po pe cx rd buf p s y)
    then show ?case
      by (subst tcp_poll_peek.simps) (auto simp: deref_def split: sum.splits prod.splits poll.splits if_splits option.splits)
  qed
  from this [OF assms] show ?thesis by simp
qed

text \<open>
  C34: A connection under way is pending with the waker stored until its stream is writable; then it
  is the stream if the socket has no error, and else the stream is dropped, its slot is free, and
  the remaining addresses are tried with that error as the last one.
\<close>

theorem connect_waits_then_reports:
  assumes "pool_spec po" "io (tcp_io stream) = Some src" "pool_get po (key (tcp_reg stream)) p = Some sio" "\<not> shutdown_of (readiness sio)"
    and "tcp_sys_take_error ops src s = (Inr err, s1)"
  shows "(ready_flags Write sio = {} \<longrightarrow> (\<exists>p'. tcp_connect po used_bits ops entered rs arg cx (Connect_Awaiting le addrs stream) p s =
        Inr (Poll_Pending, Connect_Awaiting le addrs stream, p', s) \<and>
        pool_get po (key (tcp_reg stream)) p' = Some (store_waker Write cx sio))) \<and>
    (ready_flags Write sio \<noteq> {} \<longrightarrow> err = None \<longrightarrow> (\<exists>p'. tcp_connect po used_bits ops entered rs arg cx (Connect_Awaiting le addrs stream) p s =
        Inr (Poll_Ready (Inr stream), Connect_Finished, p', s1) \<and> pool_get po (key (tcp_reg stream)) p' = Some sio)) \<and>
    (\<forall>e. ready_flags Write sio \<noteq> {} \<longrightarrow> err = Some e \<longrightarrow> (\<exists>p'. tcp_connect po used_bits ops entered rs arg cx (Connect_Awaiting le addrs stream) p s =
        tcp_connect_loop po used_bits ops entered cx (Some e) addrs p' (snd (tcp_sys_deregister ops src s1)) \<and>
        pool_get po (key (tcp_reg stream)) p' = None \<and> (\<forall>j. pool_index po j \<noteq> pool_index po (key (tcp_reg stream)) \<longrightarrow> pool_get po j p' = pool_get po j p)))"
proof -
  note d = tcp_connect_def tcp_connect_resume_def poll_write_ready_def poll_ready_cases [OF assms(3,4)] deref_def
  show ?thesis using assms(2,5) pool_specD(4) [OF assms(1,3)] pool_specD(5) [OF assms(1)]
    by (auto simp: d drop_registration_def)
qed

text \<open>
  poll_peek is the read loop with the peek as its operation.
\<close>

theorem poll_peek_is_poll_read:
  "tcp_poll_peek po ops stream cx buf p s = poll_read po (tcp_io stream) cx (tcp_sys_peek ops) buf p s"
proof (cases "tcp_poll_peek po ops stream cx buf p s")
  case None
  then show ?thesis
    by (cases "poll_read po (tcp_io stream) cx (tcp_sys_peek ops) buf p s") (auto dest: read_to_peek)
next
  case (Some y)
  then show ?thesis using peek_to_read [OF Some] by simp
qed

text \<open>
  accept on a listener that is ready registers the accepted socket for reading and writing under a
  new key, returns it with the address of its peer, or the error of the registration, and leaves the
  entry of the listener as it was.
\<close>

theorem accept_registers_stream:
  assumes "pool_spec po" "io (listener_io listener) = Some d" "k = key (registration (listener_io listener))"
    and "pool_get po k p = Some sio" "\<not> shutdown_of (readiness sio)" "satisfies (from_usize (readiness sio)) Interest_READABLE"
    and "listener_sys_accept lops d s = (Inr (sys, addr), s1)" "pool_create po (pool_put po k sio p) = Some (k1, p1)"
    and "pool_get po k1 p1 = Some entry" "token_of used_bits k1 entry = Inr tok"
  shows "accept po pl used_bits lops ops True listener cx (Unpolled node) p s =
      Some (Inr (Poll_Ready (case tcp_sys_register ops sys tok Interest_BOTH of
          Inl e \<Rightarrow> Inl e
        | Inr _ \<Rightarrow> Inr (\<lparr>tcp_io = \<lparr>io = Some sys, registration = \<lparr>key = k1\<rparr>\<rparr>\<rparr>, addr)), Finished, p1, s1)) \<and>
    pool_index po k1 \<noteq> pool_index po k \<and> pool_get po k p1 = Some sio"
proof -
  have put: "pool_get po j (pool_put po k sio p) = (if pool_index po j = pool_index po k then Some sio else pool_get po j p)" for j
    by (rule pool_specD(4) [OF assms(1,4)])
  have ne: "pool_index po k1 \<noteq> pool_index po k" using pool_specD(1) [OF assms(1,8)] put [of k1] by auto
  have "async_io po pl (registration (listener_io listener)) Interest_READABLE cx (listener_sys_accept lops d) (Unpolled node) p s =
      Some (Inr (Poll_Ready (Inr (sys, addr)), Finished, pool_put po k sio p, s1))"
    using async_io_ready [of po "registration (listener_io listener)" p sio Interest_READABLE "listener_sys_accept lops d" s "Inr (sys, addr)" s1
        pl cx node] assms(3-7) by simp
  moreover have "tcp_new po used_bits ops True sys (pool_put po k sio p) =
      Inr (map_sum (\<lambda>e. e) (\<lambda>_. \<lparr>tcp_io = \<lparr>io = Some sys, registration = \<lparr>key = k1\<rparr>\<rparr>\<rparr>) (tcp_sys_register ops sys tok Interest_BOTH), p1)"
    using assms(8-10) by (simp add: tcp_new_def new_def new_with_interest_def new_evented_def new_with_interest_and_handle_def add_source_def
        split: sum.split)
  ultimately show ?thesis using assms(2) ne put [of k] pool_specD(3) [OF assms(1,8), of k]
    by (auto simp: accept_def with_source_def deref_def split: sum.split)
qed

subsection \<open>Witnesses\<close>

abbreviation sample_tcp :: "io_error option \<Rightarrow> (unit, nat) tcp_ops" where
  "sample_tcp err \<equiv> \<lparr>tcp_sys_connect = (\<lambda>_ s. (Inl gone, s)), tcp_sys_register = (\<lambda>_ _ _. Inr ()), tcp_sys_deregister = (\<lambda>_ s. (Inr (), s + 1)),
     tcp_sys_take_error = (\<lambda>_ s. (Inr err, s)), tcp_sys_local_addr = (\<lambda>_ _. Inl gone), tcp_sys_peer_addr = (\<lambda>_ _. Inl gone),
     tcp_sys_peek = (\<lambda>_ buf s. (Inr 0, buf, s)), tcp_sys_read = (\<lambda>_ buf s. (Inr 0, buf, s)), tcp_sys_read_vectored = (\<lambda>_ s. (Inr 0, s)),
     tcp_sys_write = (\<lambda>_ _ s. (Inr 0, s)), tcp_sys_write_vectored = (\<lambda>_ _ s. (Inr 0, s)), tcp_sys_shutdown = (\<lambda>_ _ s. (Inr (), s))\<rparr>"

abbreviation sample_stream :: "unit tcp_stream" where
  "sample_stream \<equiv> \<lparr>tcp_io = \<lparr>io = Some (), registration = \<lparr>key = 0\<rparr>\<rparr>\<rparr>"

abbreviation sample_listener :: "(unit, unit, nat) listener_ops" where
  "sample_listener \<equiv> \<lparr>listener_sys_bind = (\<lambda>_ s. (Inr (), s)), listener_sys_register = (\<lambda>_ _ _. Inr ()),
     listener_sys_accept = (\<lambda>_ s. (Inr ((), V4 1 80), s + 1)), listener_sys_local_addr = (\<lambda>_ _. Inl gone)\<rparr>"

text \<open>A refused connection with no address left: the error is the result, and the slot is free again.\<close>

theorem connect_waits_then_reports_witness:
  "\<exists>p'. tcp_connect slab 40 (sample_tcp (Some would_block)) True no_resolver (Arg_Addr (V4 1 80)) 9 (Connect_Awaiting None [] sample_stream) (ready_pool 2) 3 =
     Inr (Poll_Ready (Inl would_block), Connect_Finished, p', 4) \<and> pool_get slab 0 p' = None"
proof -
  let ?sio = "\<lparr>readiness = 2, waiter_list = [] :: (nat, nat) waiter list, reader = Some (7 :: nat), writer = None\<rparr>"
  have g: "pool_get slab (key (tcp_reg sample_stream)) (ready_pool 2) = Some ?sio" by (simp add: slab_def)
  have s: "\<not> shutdown_of (readiness ?sio)" by (simp add: shutdown_of_def)
  have "from_usize 2 = WRITABLE" by (simp add: from_usize_def ready_consts)
  then have f: "ready_flags Write ?sio \<noteq> {}" by (auto simp: ready_flags_def flag_simps)
  have t: "tcp_sys_take_error (sample_tcp (Some would_block)) () 3 = (Inr (Some would_block), 3)" by simp
  have i: "io (tcp_io sample_stream) = Some ()" by simp
  from connect_waits_then_reports [OF slab_ok i g s t, of 40 True no_resolver "Arg_Addr (V4 1 80)" 9 None "[]"] f show ?thesis by auto
qed

theorem accept_registers_stream_witness:
  "\<exists>p'. accept slab list_pin_list 40 sample_listener (sample_tcp None) True \<lparr>listener_io = \<lparr>io = Some (), registration = \<lparr>key = 0\<rparr>\<rparr>\<rparr> 9
      (Unpolled 4) (ready_pool 1) 3 =
    Some (Inr (Poll_Ready (Inr (\<lparr>tcp_io = \<lparr>io = Some (), registration = \<lparr>key = 1\<rparr>\<rparr>\<rparr>, V4 1 80)), Finished, p', 4))"
proof -
  let ?l = "\<lparr>listener_io = \<lparr>io = Some (), registration = \<lparr>key = 0\<rparr>\<rparr>\<rparr>"
  let ?sio = "\<lparr>readiness = 1, waiter_list = [] :: (nat, nat) waiter list, reader = Some (7 :: nat), writer = None\<rparr>"
  let ?p1 = "ready_pool 1 @ [Some (default_scheduled_io [])]"
  have i: "io (listener_io ?l) = Some ()" "0 = key (registration (listener_io ?l))" by simp_all
  have g: "pool_get slab 0 (ready_pool 1) = Some ?sio" by (simp add: slab_def)
  have s: "\<not> shutdown_of (readiness ?sio)" by (simp add: shutdown_of_def)
  have r: "satisfies (from_usize (readiness ?sio)) Interest_READABLE"
    using sample_words(1) by (simp add: satisfies_iff flag_simps Interest_READABLE_def)
  have a: "listener_sys_accept sample_listener () 3 = (Inr ((), V4 1 80), 4)" by simp
  have c: "pool_create slab (pool_put slab 0 ?sio (ready_pool 1)) = Some (1, ?p1)" "pool_get slab 1 ?p1 = Some (default_scheduled_io [])"
    by (simp_all add: slab_def)
  obtain tok where t: "token_of 40 1 (default_scheduled_io ([] :: (nat, nat) waiter list) :: (_, nat) scheduled_io) = Inr tok"
    using token_fields [of 40 1] by (auto simp: mask_numeral)
  from accept_registers_stream [OF slab_ok i g s r a c t, of list_pin_list "sample_tcp None" 9 4] show ?thesis by auto
qed

end
