(* ===== verification/Sched_Conc.thy ===== *)
theory Sched_Conc
  imports Runtime
begin

text \<open>
  The scheduler as a whole: \<open>n\<close> workers in \<^verbatim>\<open>run_forever\<close> and any number of threads in
  \<^verbatim>\<open>schedule_global\<close>, interleaved between the locks they take. The steps are the operations of \<^verbatim>\<open>Runtime\<close> and
  \<^verbatim>\<open>Task\<close> on the shared runtime. The wait on a condition variable returns after a notification or spuriously, which
  \<^verbatim>\<open>run_forever\<close> does not tell apart. A push of a parked worker is one step, taken when it is complete (pushes that
  overlap are queued in that order here); while a worker is about to make it, a pop may find the queue inconsistent. Once a wait
  has returned spuriously a worker may push its index while it is still queued, and its three accesses may overlap a pop in ways
  one step does not show: from then on the queue may also become any well-formed set of slots (step \<open>overlap\<close>).
\<close>

text \<open>
  Where a worker stands: choosing its next task, running one, having found none, waiting in the poll of the driver,
  handling what it returned, about to park, waiting on its condition variable.
\<close>

datatype wpc = W_Loop | W_Run | W_Idle | W_Poll | W_Events | W_Park | W_Wait

text \<open>
  Where a thread stands in \<^verbatim>\<open>schedule_global\<close>: outside, before \<^verbatim>\<open>try_lock\<close>, before a pop, with a worker to notify,
  before the lock is dropped.
\<close>

datatype spc = S_Out | S_Queued | S_Pop | S_Notify nat | S_Unlock

text \<open>
  The shared runtime with the locks of the parked workers and of the driver. \<open>returned\<close> and \<open>polled\<close> count the
  notifications and the wake-ups of the driver that have been consumed; \<open>skipped\<close> records that, since
  a worker last found the global queue empty, some thread left because the lock of the parked workers was taken;
  \<open>spurious\<close> that some wait has returned spuriously, \<open>torn\<close> that the step \<open>overlap\<close> was taken.
\<close>

record 'q sched =
  srt :: "'q mt_runtime"
  exec :: "nat \<Rightarrow> executor_handle"
  count :: "nat \<Rightarrow> usize"
  wpc :: "nat \<Rightarrow> wpc"
  spc :: "nat \<Rightarrow> spc"
  plock :: "nat option"
  iolock :: "nat option"
  returned :: "nat \<Rightarrow> nat"
  polled :: nat
  skipped :: bool
  spurious :: bool
  torn :: bool

definition sched_init :: "'q \<Rightarrow> nat \<Rightarrow> 'q sched" where
  "sched_init q0 n =
     \<lparr>srt = (new_runtime q0 n)\<lparr>workers := Some (map (\<lambda>i. new_worker) [0..<n])\<rparr>,
      exec = (\<lambda>i. \<lparr>worker_index = of_nat i, shared = 0, local_queue = with_capacity 32\<rparr>),
      count = (\<lambda>_. 0), wpc = (\<lambda>_. W_Loop), spc = (\<lambda>_. S_Out), plock = None, iolock = None,
      returned = (\<lambda>_. 0), polled = 0, skipped = False, spurious = False, torn = False\<rparr>"

abbreviation at_w :: "nat \<Rightarrow> wpc \<Rightarrow> 'q sched \<Rightarrow> 'q sched" where
  "at_w w c s \<equiv> s\<lparr>wpc := (wpc s)(w := c)\<rparr>"

abbreviation at_s :: "nat \<Rightarrow> spc \<Rightarrow> 'q sched \<Rightarrow> 'q sched" where
  "at_s t c s \<equiv> s\<lparr>spc := (spc s)(t := c)\<rparr>"

inductive sched_step :: "'q linked_list_ops \<Rightarrow> nat \<Rightarrow> 'q sched \<Rightarrow> 'q sched \<Rightarrow> bool"
  for ll :: "'q linked_list_ops" and n :: nat where
  loop_take: "w < n \<Longrightarrow> wpc s w = W_Loop \<Longrightarrow> next_task ll (count s w + 1) (exec s w) (srt s) = (Some x, e1, r1) \<Longrightarrow>
    sched_step ll n s (at_w w W_Run (s\<lparr>count := (count s)(w := count s w + 1), exec := (exec s)(w := e1), srt := r1\<rparr>))"
| loop_empty: "w < n \<Longrightarrow> wpc s w = W_Loop \<Longrightarrow> next_task ll (count s w + 1) (exec s w) (srt s) = (None, e1, r1) \<Longrightarrow>
    sched_step ll n s (at_w w W_Idle (s\<lparr>count := (count s)(w := count s w + 1), exec := (exec s)(w := e1), srt := r1, skipped := False\<rparr>))"
| run_local: "w < n \<Longrightarrow> wpc s w = W_Run \<or> wpc s w = W_Events \<Longrightarrow>
    length (elems (local_queue (exec s w))) < vcap (local_queue (exec s w)) \<Longrightarrow>
    sched_step ll n s (s\<lparr>exec := (exec s)(w := (exec s w)\<lparr>local_queue := push_back x (local_queue (exec s w))\<rparr>)\<rparr>)"
| run_done: "w < n \<Longrightarrow> wpc s w = W_Run \<Longrightarrow> sched_step ll n s (at_w w W_Loop s)"
| io_lock: "w < n \<Longrightarrow> wpc s w = W_Idle \<Longrightarrow> iolock s = None \<Longrightarrow>
    sched_step ll n s (at_w w W_Poll (s\<lparr>iolock := Some w\<rparr>))"
| io_busy: "w < n \<Longrightarrow> wpc s w = W_Idle \<Longrightarrow> iolock s \<noteq> None \<Longrightarrow> sched_step ll n s (at_w w W_Park s)"
| poll_return: "w < n \<Longrightarrow> wpc s w = W_Poll \<Longrightarrow>
    sched_step ll n s (at_w w W_Events (s\<lparr>polled := io_wakes (srt s)\<rparr>))"
| events_done: "w < n \<Longrightarrow> wpc s w = W_Events \<Longrightarrow> sched_step ll n s (at_w w W_Loop (s\<lparr>iolock := None\<rparr>))"
| park_worker: "w < n \<Longrightarrow> wpc s w = W_Park \<Longrightarrow> park (worker_index (exec s w)) (srt s) = Inr r1 \<Longrightarrow>
    sched_step ll n s (at_w w W_Wait (s\<lparr>srt := r1\<rparr>))"
| wait_return: "w < n \<Longrightarrow> wpc s w = W_Wait \<Longrightarrow> workers (srt s) = Some ws \<Longrightarrow> returned s w < notifies (ws ! w) \<Longrightarrow>
    sched_step ll n s (at_w w W_Loop (s\<lparr>srt := wait_returns (worker_index (exec s w)) (srt s),
      returned := (returned s)(w := notifies (ws ! w))\<rparr>))"
| spurious_return: "w < n \<Longrightarrow> wpc s w = W_Wait \<Longrightarrow> workers (srt s) = Some ws \<Longrightarrow> returned s w = notifies (ws ! w) \<Longrightarrow>
    sched_step ll n s (at_w w W_Loop (s\<lparr>srt := wait_returns (worker_index (exec s w)) (srt s), spurious := True\<rparr>))"
| overlap: "spurious s \<Longrightarrow> slots_ok n m \<Longrightarrow> sched_step ll n s (s\<lparr>srt := (srt s)\<lparr>parked_workers := m\<rparr>, torn := True\<rparr>)"
| sched_push: "spc s t = S_Out \<Longrightarrow> sched_step ll n s (at_s t S_Queued (s\<lparr>srt := push_global ll x (srt s)\<rparr>))"
| sched_lock: "spc s t = S_Queued \<Longrightarrow> plock s = None \<Longrightarrow> sched_step ll n s (at_s t S_Pop (s\<lparr>plock := Some t\<rparr>))"
| sched_skip: "spc s t = S_Queued \<Longrightarrow> plock s \<noteq> None \<Longrightarrow> sched_step ll n s (at_s t S_Out (s\<lparr>skipped := True\<rparr>))"
| pop_ready: "spc s t = S_Pop \<Longrightarrow> pop (parked_workers (srt s)) = Inr (Slot_Ready i, m) \<Longrightarrow>
    sched_step ll n s (at_s t (S_Notify i) (s\<lparr>srt := (srt s)\<lparr>parked_workers := m\<rparr>\<rparr>))"
| pop_other: "spc s t = S_Pop \<Longrightarrow> pop (parked_workers (srt s)) = Inr (slot, m) \<Longrightarrow> (\<forall>i. slot \<noteq> Slot_Ready i) \<Longrightarrow>
    sched_step ll n s (at_s t S_Unlock (s\<lparr>srt := (srt s)\<lparr>parked_workers := m, io_wakes := io_wakes (srt s) + 1\<rparr>\<rparr>))"
| pop_during_push: "spc s t = S_Pop \<Longrightarrow> w < n \<Longrightarrow> wpc s w = W_Park \<Longrightarrow>
    sched_step ll n s (at_s t S_Unlock (s\<lparr>srt := (srt s)\<lparr>io_wakes := io_wakes (srt s) + 1\<rparr>\<rparr>))"
| notify_parked: "spc s t = S_Notify i \<Longrightarrow> workers (srt s) = Some ws \<Longrightarrow> parker (ws ! i) = Some Parked \<Longrightarrow>
    sched_step ll n s (at_s t S_Unlock (s\<lparr>srt := (srt s)\<lparr>workers := Some (notify_worker i ws)\<rparr>\<rparr>))"
| notify_stale: "spc s t = S_Notify i \<Longrightarrow> workers (srt s) = Some ws \<Longrightarrow> parker (ws ! i) = None \<Longrightarrow>
    sched_step ll n s (at_s t S_Pop s)"
| sched_unlock: "spc s t = S_Unlock \<Longrightarrow> sched_step ll n s (at_s t S_Out (s\<lparr>plock := None\<rparr>))"

definition sched_start :: "'q \<Rightarrow> nat \<Rightarrow> 'q sched \<Rightarrow> bool" where
  "sched_start q0 n s \<longleftrightarrow> 0 < n \<and> n < 2 ^ 64 \<and> s = sched_init q0 n"

subsection \<open>The invariant\<close>

definition the_worker :: "'q sched \<Rightarrow> nat \<Rightarrow> worker" where
  "the_worker s w = the (workers (srt s)) ! w"

definition signalled :: "'q sched \<Rightarrow> nat \<Rightarrow> bool" where
  "signalled s w \<longleftrightarrow> returned s w < notifies (the_worker s w)"

text \<open>A worker that will look at the global queue before it waits for anything.\<close>

definition attentive :: "'q sched \<Rightarrow> nat \<Rightarrow> bool" where
  "attentive s w \<longleftrightarrow> (case wpc s w of
      W_Loop \<Rightarrow> True | W_Run \<Rightarrow> True | W_Events \<Rightarrow> True | W_Wait \<Rightarrow> signalled s w | W_Park \<Rightarrow> False
    | _ \<Rightarrow> polled s < io_wakes (srt s))"

text \<open>A thread that still has to wake somebody.\<close>

fun waking :: "spc \<Rightarrow> bool" where
  "waking S_Queued = True" | "waking S_Pop = True" | "waking (S_Notify i) = True" | "waking _ = False"

fun popping :: "spc \<Rightarrow> bool" where
  "popping S_Pop = True" | "popping (S_Notify i) = True" | "popping S_Unlock = True" | "popping _ = False"

text \<open>What of the parked workers and of their queue holds only as long as no wait has returned spuriously is guarded.\<close>

definition runtime_ok :: "nat \<Rightarrow> 'q sched \<Rightarrow> bool" where
  "runtime_ok n s \<longleftrightarrow> n < 2 ^ 64 \<and> (\<forall>w < n. worker_index (exec s w) = of_nat w) \<and>
     (\<exists>ws. workers (srt s) = Some ws \<and> length ws = n \<and> slots_ok n (parked_workers (srt s)) \<and> (\<not> spurious s \<longrightarrow> workers_ok (srt s) ws))"

definition parking_ok :: "nat \<Rightarrow> 'q sched \<Rightarrow> bool" where
  "parking_ok n s \<longleftrightarrow>
     (\<forall>w < n. parker (the_worker s w) \<noteq> None \<longrightarrow> wpc s w = W_Wait) \<and>
     (\<forall>w < n. signalled s w \<longleftrightarrow> wpc s w = W_Wait \<and> parker (the_worker s w) = None) \<and>
     (\<not> spurious s \<longrightarrow> (\<forall>i \<in> set (contents (parked_workers (srt s))). parker (the_worker s i) = Some Parked)) \<and>
     (\<forall>w < n. returned s w \<le> notifies (the_worker s w))"

definition notify_ok :: "nat \<Rightarrow> 'q sched \<Rightarrow> bool" where
  "notify_ok n s \<longleftrightarrow> (\<forall>t i. spc s t = S_Notify i \<longrightarrow>
     i < n \<and> (\<not> spurious s \<longrightarrow> parker (the_worker s i) = Some Parked \<and> i \<notin> set (contents (parked_workers (srt s)))))"

definition locks_ok :: "nat \<Rightarrow> 'q sched \<Rightarrow> bool" where
  "locks_ok n s \<longleftrightarrow> (\<forall>t. popping (spc s t) \<longleftrightarrow> plock s = Some t) \<and>
     (\<forall>w < n. (wpc s w = W_Poll \<or> wpc s w = W_Events) \<longleftrightarrow> iolock s = Some w) \<and> (\<forall>w. iolock s = Some w \<longrightarrow> w < n) \<and> polled s \<le> io_wakes (srt s)"

definition served :: "nat \<Rightarrow> 'q sched \<Rightarrow> bool" where
  "served n s \<longleftrightarrow> (\<exists>w < n. wpc s w \<noteq> W_Park \<and> wpc s w \<noteq> W_Wait)"

definition attended :: "('q \<Rightarrow> nat list) \<Rightarrow> nat \<Rightarrow> 'q sched \<Rightarrow> bool" where
  "attended items n s \<longleftrightarrow> items (global_queue (srt s)) = [] \<or> skipped s \<or> (\<exists>t. waking (spc s t)) \<or> (\<exists>w < n. attentive s w)"

definition sched_inv :: "('q \<Rightarrow> nat list) \<Rightarrow> nat \<Rightarrow> 'q sched \<Rightarrow> bool" where
  "sched_inv items n s \<longleftrightarrow> runtime_ok n s \<and> parking_ok n s \<and> notify_ok n s \<and> locks_ok n s \<and> served n s \<and> attended items n s"

lemmas sched_views = parking_ok_def notify_ok_def signalled_def the_worker_def

abbreviation sched_reaches :: "'q linked_list_ops \<Rightarrow> 'q \<Rightarrow> nat \<Rightarrow> 'q sched \<Rightarrow> bool" where
  "sched_reaches ll q0 n \<equiv> reaches (sched_start q0 n) (sched_step ll n)"

lemma next_task_frame:
  assumes "next_task ll c e r = (t, e1, r1)"
  shows "workers r1 = workers r" "parked_workers r1 = parked_workers r" "io_wakes r1 = io_wakes r"
    "worker_index e1 = worker_index e"
  using assms by (auto simp: next_task_def get_many_global_tasks_def get_local_task_def split: prod.splits option.splits if_splits)

lemma next_task_none:
  assumes "linked_list_spec ll items" "next_task ll c e r = (None, e1, r1)"
  shows "items (global_queue r1) = []"
  using assms(2)
proof (cases rule: next_task_cases)
  case global_tasks
  from get_many_global_tasks_items [OF assms(1) global_tasks(1)] show ?thesis by (simp add: waiting_def)
qed simp

text \<open>What the steps on the shared runtime do, in a state where it is well-formed.\<close>

lemma runtime_okE:
  assumes "runtime_ok n s"
  obtains ws where "workers (srt s) = Some ws" "length ws = n" "slots_ok n (parked_workers (srt s))" "the_worker s = (!) ws"
    "n < 2 ^ 64" "\<And>w. w < n \<Longrightarrow> worker_index (exec s w) = of_nat w" "\<And>w. w < n \<Longrightarrow> unat (of_nat w :: usize) = w"
    "\<not> spurious s \<Longrightarrow> workers_ok (srt s) ws"
proof -
  obtain ws where ws: "workers (srt s) = Some ws" "length ws = n" "slots_ok n (parked_workers (srt s))" "\<not> spurious s \<longrightarrow> workers_ok (srt s) ws"
    and n: "n < 2 ^ 64" and i: "\<forall>w < n. worker_index (exec s w) = of_nat w"
    using assms unfolding runtime_ok_def by blast
  have "unat (of_nat w :: usize) = w" if "w < n" for w
    using that n by (simp add: unat_of_nat)
  then show thesis using ws n i by (intro that [of ws]) (simp_all add: the_worker_def fun_eq_iff)
qed

lemma runtime_calm:
  assumes "runtime_ok n s" "\<not> spurious s" "workers (srt s) = Some ws"
  shows "workers_ok (srt s) ws" "length ws = n"
  using assms by (auto simp: runtime_ok_def)

lemma pop_cases:
  assumes "invar m" "pop m = Inr (slot, m1)"
  shows "invar m1 \<and> capacity m1 = capacity m \<and>
    (case contents m of [] \<Rightarrow> slot = Slot_None \<and> contents m1 = [] | i # rest \<Rightarrow> slot = Slot_Ready i \<and> contents m1 = rest)"
proof (cases "contents m")
  case Nil
  then show ?thesis using sm.deq_none [OF assms(1)] assms by simp
next
  case (Cons i rest)
  then show ?thesis using sm.deq_some [OF assms(1) Cons] assms by auto
qed

lemma contents_distinct: "invar m \<Longrightarrow> distinct (contents m)"
  using invarD by (auto simp: contents_def)


lemma not_parked_not_queued:
  assumes "parking_ok n s" "w < n" "wpc s w \<noteq> W_Wait"
  shows "parker (the_worker s w) = None" "\<not> spurious s \<Longrightarrow> w \<notin> set (contents (parked_workers (srt s)))"
  using assms by (auto simp: parking_ok_def)

text \<open>A park that is complete, and what it does as long as no wait has returned spuriously.\<close>

lemma park_effect:
  assumes "runtime_ok n s" "w < n" "workers (srt s) = Some ws" "park (worker_index (exec s w)) (srt s) = Inr r1"
  shows "workers r1 = Some (ws[w := (ws ! w)\<lparr>parker := Some Parked\<rparr>])" "slots_ok n (parked_workers r1)"
    "global_queue r1 = global_queue (srt s)" "io_wakes r1 = io_wakes (srt s)"
proof -
  from assms(1) obtain ws' where ws': "workers (srt s) = Some ws'" "length ws' = n" "slots_ok n (parked_workers (srt s))"
    "worker_index (exec s w) = of_nat w" "unat (of_nat w :: usize) = w"
    using assms(2) by (elim runtime_okE) auto
  obtain m where "push w (parked_workers (srt s)) = Inr m" "slots_ok n m" using slots_ok_push [OF ws'(3) assms(2)] by blast
  with assms(2-4) ws' show "workers r1 = Some (ws[w := (ws ! w)\<lparr>parker := Some Parked\<rparr>])" "slots_ok n (parked_workers r1)"
    "global_queue r1 = global_queue (srt s)" "io_wakes r1 = io_wakes (srt s)"
    by (auto simp: park_def split: if_splits)
qed

lemma park_calm:
  assumes "runtime_ok n s" "parking_ok n s" "w < n" "wpc s w = W_Park" "workers (srt s) = Some ws"
    and "park (worker_index (exec s w)) (srt s) = Inr r1" "\<not> spurious s"
  shows "workers_ok r1 (ws[w := (ws ! w)\<lparr>parker := Some Parked\<rparr>])"
    "contents (parked_workers r1) = contents (parked_workers (srt s)) @ [w]"
proof -
  from assms(1) have ws: "the_worker s = (!) ws" "worker_index (exec s w) = of_nat w" "unat (of_nat w :: usize) = w"
    using assms(3,5) by (auto elim!: runtime_okE)
  note ok = runtime_calm [OF assms(1,7,5)]
  have "parker (ws ! w) = None" "w \<notin> set (contents (parked_workers (srt s)))"
    using not_parked_not_queued [OF assms(2,3)] assms(4,7) ws(1) by simp_all
  with park_ok [OF ok(1), of "of_nat w"] assms(3,6) ws ok show "workers_ok r1 (ws[w := (ws ! w)\<lparr>parker := Some Parked\<rparr>])"
    "contents (parked_workers r1) = contents (parked_workers (srt s)) @ [w]" by auto
qed

lemma pop_slots:
  assumes "slots_ok n m" "pop m = Inr (slot, m1)"
  shows "slots_ok n m1" "slot = Slot_Ready i \<Longrightarrow> i < n"
  using slots_ok_pop [OF assms(1)] assms(2) by auto

lemma runtime_ok_step:
  assumes "runtime_ok n s" "parking_ok n s" "notify_ok n s" "sched_step ll n s s'"
  shows "runtime_ok n s'"
proof -
  from assms(1) obtain ws where ws: "workers (srt s) = Some ws" "length ws = n" "slots_ok n (parked_workers (srt s))" "the_worker s = (!) ws"
    "n < 2 ^ 64" "\<And>w. w < n \<Longrightarrow> worker_index (exec s w) = of_nat w" "\<And>w. w < n \<Longrightarrow> unat (of_nat w :: usize) = w"
    "\<not> spurious s \<Longrightarrow> workers_ok (srt s) ws"
    by (rule runtime_okE) blast
  show ?thesis using assms(4)
  proof cases
    case (loop_take w x e1 r1)
    note F = next_task_frame [OF loop_take(4)]
    show ?thesis unfolding loop_take runtime_ok_def using ws F by (auto simp: workers_ok_def)
  next
    case (loop_empty w e1 r1)
    note F = next_task_frame [OF loop_empty(4)]
    show ?thesis unfolding loop_empty runtime_ok_def using ws F by (auto simp: workers_ok_def)
  next
    case (park_worker w r1)
    from park_effect(1,2) [OF assms(1) park_worker(2) ws(1) park_worker(4)] park_calm(1) [OF assms(1,2) park_worker(2,3) ws(1) park_worker(4)]
    show ?thesis unfolding park_worker runtime_ok_def using ws by auto
  next
    case (wait_return w ws')
    then show ?thesis using ws by (auto simp: runtime_ok_def wait_returns_def workers_ok_def)
  next
    case (spurious_return w ws')
    then show ?thesis using ws by (auto simp: runtime_ok_def wait_returns_def)
  next
    case (overlap m)
    then show ?thesis using ws by (simp add: runtime_ok_def)
  next
    case (pop_ready t i m)
    then show ?thesis using ws pop_cases [OF workers_okD(2) [OF ws(8)]] pop_slots(1) [OF ws(3)] by (auto simp: runtime_ok_def workers_ok_def)
  next
    case (pop_other t slot m)
    then show ?thesis using ws pop_cases [OF workers_okD(2) [OF ws(8)]] pop_slots(1) [OF ws(3)] by (auto simp: runtime_ok_def workers_ok_def)
  next
    case (notify_parked t i ws')
    then show ?thesis using ws by (auto simp: runtime_ok_def workers_ok_def notify_worker_def)
  next
    case (sched_push t x)
    then show ?thesis using ws by (simp add: runtime_ok_def)
  qed (use assms(1) in \<open>simp_all add: runtime_ok_def workers_ok_def\<close>)
qed


lemma io_wakes_frame:
  "park i r = Inr r1 \<Longrightarrow> io_wakes r1 = io_wakes r" "io_wakes (wait_returns i r) = io_wakes r"
  "io_wakes (push_global ll x r) = io_wakes r"
  by (auto simp: park_def wait_returns_def push_global_def bindE_def split: option.splits sum.splits)

lemma locks_ok_step:
  assumes "locks_ok n s" "sched_step ll n s s'"
  shows "locks_ok n s'"
proof -
  have p: "popping (spc s t) \<longleftrightarrow> plock s = Some t" for t using assms(1) by (simp add: locks_ok_def)
  have q: "wpc s w = W_Poll \<or> wpc s w = W_Events \<longleftrightarrow> iolock s = Some w" if "w < n" for w
    using assms(1) that by (simp add: locks_ok_def)
  show ?thesis using assms(2)
  proof cases
    case (events_done w)
    then show ?thesis using assms(1) p q [of w] q by (auto simp: locks_ok_def)
  next
    case (sched_push t x)
    then show ?thesis using assms(1) p [of t] by (auto simp: locks_ok_def io_wakes_frame)
  next
    case (sched_skip t)
    then show ?thesis using assms(1) p [of t] by (auto simp: locks_ok_def io_wakes_frame)
  qed (use assms(1) in \<open>auto simp: locks_ok_def io_wakes_frame dest: next_task_frame(3) io_wakes_frame(1) split: if_splits\<close>)
qed

lemma served_step:
  assumes "served n s" "locks_ok n s" "sched_step ll n s s'"
  shows "served n s'"
  using assms(3)
proof cases
  case (io_busy w)
  then obtain v where "iolock s = Some v" by auto
  with assms(2) have "v < n" "wpc s v = W_Poll \<or> wpc s v = W_Events" by (auto simp: locks_ok_def)
  then show ?thesis using io_busy by (auto simp: served_def intro!: exI [of _ v])
next
  case (park_worker w r1)
  from assms(1) obtain v where "v < n" "wpc s v \<noteq> W_Park" "wpc s v \<noteq> W_Wait" by (auto simp: served_def)
  then show ?thesis using park_worker by (auto simp: served_def intro!: exI [of _ v])
qed (use assms(1) in \<open>auto simp: served_def intro: exI\<close>)

lemma the_worker_upd:
  "the_worker (s\<lparr>srt := r\<rparr>) w = the (workers r) ! w" "the_worker (s\<lparr>wpc := a\<rparr>) = the_worker s"
  "the_worker (s\<lparr>spc := b\<rparr>) = the_worker s" "the_worker (s\<lparr>plock := c\<rparr>) = the_worker s" "the_worker (s\<lparr>iolock := c\<rparr>) = the_worker s"
  "the_worker (s\<lparr>exec := d\<rparr>) = the_worker s" "the_worker (s\<lparr>count := f\<rparr>) = the_worker s"
  "the_worker (s\<lparr>returned := g\<rparr>) = the_worker s" "the_worker (s\<lparr>polled := h\<rparr>) = the_worker s" "the_worker (s\<lparr>skipped := k\<rparr>) = the_worker s"
  "the_worker (s\<lparr>spurious := k\<rparr>) = the_worker s" "the_worker (s\<lparr>torn := k\<rparr>) = the_worker s"
  by (simp_all add: the_worker_def fun_eq_iff)

text \<open>What a return from waiting and a completed park change.\<close>

lemma wait_effect:
  assumes "workers (srt s) = Some ws" "worker_index (exec s w) = of_nat w" "unat (of_nat w :: usize) = w"
  shows "workers (wait_returns (worker_index (exec s w)) (srt s)) = Some (ws[w := (ws ! w)\<lparr>parker := None\<rparr>])"
    "parked_workers (wait_returns (worker_index (exec s w)) (srt s)) = parked_workers (srt s)"
  using assms by (simp_all add: wait_returns_def)

lemma sole_popper:
  assumes "locks_ok n s" "popping (spc s t)" "t' \<noteq> t"
  shows "spc s t' \<noteq> S_Notify i"
  using assms by (metis locks_ok_def option.inject popping.simps(2))

lemma parking_ok_step:
  assumes "runtime_ok n s" "parking_ok n s" "notify_ok n s" "sched_step ll n s s'"
  shows "parking_ok n s'"
proof -
  from assms(1) obtain ws where ws: "workers (srt s) = Some ws" "length ws = n" "slots_ok n (parked_workers (srt s))" "the_worker s = (!) ws"
    "n < 2 ^ 64" "\<And>w. w < n \<Longrightarrow> worker_index (exec s w) = of_nat w" "\<And>w. w < n \<Longrightarrow> unat (of_nat w :: usize) = w"
    "\<not> spurious s \<Longrightarrow> workers_ok (srt s) ws"
    by (rule runtime_okE) blast
  note inv = workers_okD(2) [OF ws(8)]
  show ?thesis using assms(4)
  proof cases
    case (loop_take w x e1 r1)
    with next_task_frame [OF loop_take(4)] assms(2) show ?thesis by (auto simp: sched_views)
  next
    case (loop_empty w e1 r1)
    with next_task_frame [OF loop_empty(4)] assms(2) show ?thesis by (auto simp: sched_views)
  next
    case (park_worker w r1)
    note E = park_effect(1) [OF assms(1) park_worker(2) ws(1) park_worker(4)] park_calm(2) [OF assms(1,2) park_worker(2,3) ws(1) park_worker(4)]
    with park_worker assms(2) ws(1-4) show ?thesis by (auto simp: sched_views nth_list_update)
  next
    case (wait_return w ws')
    with wait_effect [OF ws(1) ws(6,7)] assms(2) ws(1-4) show ?thesis by (auto simp: sched_views nth_list_update)
  next
    case (spurious_return w ws')
    with wait_effect [OF ws(1) ws(6,7)] assms(2) ws(1-4) show ?thesis by (auto simp: sched_views nth_list_update)
  next
    case (pop_ready t i m)
    then show ?thesis using assms(2) pop_cases [OF inv pop_ready(3)] by (auto simp: sched_views split: list.splits)
  next
    case (pop_other t slot m)
    then show ?thesis using assms(2) pop_cases [OF inv pop_other(3)] by (auto simp: sched_views split: list.splits)
  next
    case (notify_parked t i ws')
    then have "i < n" "\<not> spurious s \<Longrightarrow> i \<notin> set (contents (parked_workers (srt s)))" using assms(3) by (auto simp: notify_ok_def)
    with notify_parked assms(2) ws(1-4) show ?thesis by (auto simp: sched_views notify_worker_def nth_list_update)
  qed (use assms(2) in \<open>auto simp: sched_views push_global_def\<close>)
qed

lemma notify_ok_park:
  assumes "runtime_ok n s" "parking_ok n s" "notify_ok n s" "w < n" "wpc s w = W_Park"
    and "park (worker_index (exec s w)) (srt s) = Inr r1"
  shows "notify_ok n (at_w w W_Wait (s\<lparr>srt := r1\<rparr>))"
proof -
  from assms(1) obtain ws where ws: "workers (srt s) = Some ws" "length ws = n" "the_worker s = (!) ws" by (rule runtime_okE) blast
  have E: "workers r1 = Some (ws[w := (ws ! w)\<lparr>parker := Some Parked\<rparr>])"
    "\<not> spurious s \<Longrightarrow> contents (parked_workers r1) = contents (parked_workers (srt s)) @ [w]"
    using park_effect(1) park_calm(2) assms ws(1) by blast+
  have "parker (ws ! w) = None" using not_parked_not_queued(1) [OF assms(2,4)] assms(5) ws(3) by simp
  then have "i \<noteq> w" if "spc s t = S_Notify i" "\<not> spurious s" for t i
    using that assms(3) ws(3) by (auto simp: notify_ok_def)
  with assms(3,4) ws E show ?thesis by (auto simp: notify_ok_def the_worker_def nth_list_update)
qed

lemma notify_ok_pop:
  assumes "runtime_ok n s" "parking_ok n s" "locks_ok n s" "spc s t = S_Pop" "pop (parked_workers (srt s)) = Inr (Slot_Ready i, m)"
  shows "notify_ok n (at_s t (S_Notify i) (s\<lparr>srt := (srt s)\<lparr>parked_workers := m\<rparr>\<rparr>))"
proof -
  from assms(1) obtain ws where ws: "workers (srt s) = Some ws" "length ws = n" "slots_ok n (parked_workers (srt s))" "the_worker s = (!) ws"
    "\<not> spurious s \<Longrightarrow> workers_ok (srt s) ws"
    by (rule runtime_okE) blast
  note inv = workers_okD(2) [OF ws(5)]
  have others: "\<And>t' j. t' \<noteq> t \<Longrightarrow> spc s t' \<noteq> S_Notify j" using sole_popper [OF assms(3), of t] assms(4) by simp
  have c: "contents (parked_workers (srt s)) = i # contents m" if "\<not> spurious s"
    using pop_cases [OF inv [OF that] assms(5)] by (auto split: list.splits)
  have "i < n" using pop_slots(2) [OF ws(3) assms(5)] by simp
  moreover have "i \<notin> set (contents m)" if "\<not> spurious s" using contents_distinct [OF inv [OF that]] c [OF that] by simp
  ultimately show ?thesis using others assms(2) c by (auto simp: sched_views)
qed

lemma notify_ok_step:
  assumes "runtime_ok n s" "parking_ok n s" "notify_ok n s" "locks_ok n s" "sched_step ll n s s'"
  shows "notify_ok n s'"
proof -
  from assms(1) obtain ws where ws: "workers (srt s) = Some ws" "length ws = n" "slots_ok n (parked_workers (srt s))" "the_worker s = (!) ws"
    "n < 2 ^ 64" "\<And>w. w < n \<Longrightarrow> worker_index (exec s w) = of_nat w" "\<And>w. w < n \<Longrightarrow> unat (of_nat w :: usize) = w"
    "\<not> spurious s \<Longrightarrow> workers_ok (srt s) ws"
    by (rule runtime_okE) blast
  note inv = workers_okD(2) [OF ws(8)]
  show ?thesis using assms(5)
  proof cases
    case (loop_take w x e1 r1)
    with next_task_frame [OF loop_take(4)] assms(3) show ?thesis by (auto simp: sched_views)
  next
    case (loop_empty w e1 r1)
    with next_task_frame [OF loop_empty(4)] assms(3) show ?thesis by (auto simp: sched_views)
  next
    case (park_worker w r1)
    then show ?thesis using notify_ok_park [OF assms(1-3)] by simp
  next
    case (wait_return w ws')
    have "parker (ws ! w) = None" using wait_return assms(2) ws(1,4) by (auto simp: sched_views)
    then have "spurious s" if "spc s t = S_Notify w" for t using that assms(3) ws(4) unfolding notify_ok_def by (metis option.distinct(1))
    with wait_effect [OF ws(1) ws(6,7)] wait_return assms(3) ws(1-4) show ?thesis by (auto simp: sched_views nth_list_update)
  next
    case (pop_ready t i m)
    then show ?thesis using notify_ok_pop [OF assms(1,2,4)] by simp
  next
    case (pop_other t slot m)
    then show ?thesis using assms(3) pop_cases [OF inv pop_other(3)] by (auto simp: sched_views split: list.splits)
  next
    case (notify_parked t i ws')
    then have "\<And>t' j. t' \<noteq> t \<Longrightarrow> spc s t' \<noteq> S_Notify j" using sole_popper [OF assms(4), of t] by simp
    then show ?thesis using notify_parked by (auto simp: notify_ok_def)
  qed (use assms(3) in \<open>auto simp: sched_views push_global_def\<close>)
qed

lemma attendedI:
  "waking (spc s t) \<Longrightarrow> attended items n s" "w < n \<Longrightarrow> attentive s w \<Longrightarrow> attended items n s"
  "skipped s \<Longrightarrow> attended items n s" "items (global_queue (srt s)) = [] \<Longrightarrow> attended items n s"
  by (auto simp: attended_def)

text \<open>A wake-up of the driver reaches some worker: one that does not park is always there.\<close>

lemma driver_woken:
  assumes "served n s" "polled s < io_wakes (srt s)"
  shows "attended items n s"
proof -
  obtain w where "w < n" "wpc s w \<noteq> W_Park" "wpc s w \<noteq> W_Wait" using assms(1) by (auto simp: served_def)
  then have "attentive s w" using assms(2) by (cases "wpc s w") (simp_all add: attentive_def)
  with \<open>w < n\<close> show ?thesis by (rule attendedI(2))
qed

text \<open>A step that lets every attentive worker be attentive, and every waking thread wake, keeps the queue attended.\<close>

lemma attended_mono:
  assumes "attended items n s" "\<And>t. waking (spc s t) \<Longrightarrow> waking (spc s' t)" "\<And>w. w < n \<Longrightarrow> attentive s w \<Longrightarrow> attentive s' w"
    and "skipped s \<Longrightarrow> skipped s'" "items (global_queue (srt s)) = [] \<Longrightarrow> items (global_queue (srt s')) = []"
  shows "attended items n s'"
  using assms unfolding attended_def by blast

lemma attended_busy:
  assumes "w < n" "wpc s w = W_Loop \<or> wpc s w = W_Run \<or> wpc s w = W_Events"
  shows "attended items n s"
  using assms by (intro attendedI(2) [of w]) (auto simp: attentive_def)

lemma attended_park:
  assumes "runtime_ok n s" "attended items n s" "w < n" "wpc s w = W_Park"
    and "park (worker_index (exec s w)) (srt s) = Inr r1"
  shows "attended items n (at_w w W_Wait (s\<lparr>srt := r1\<rparr>))" (is "attended _ _ ?s'")
proof -
  from assms(1) obtain ws where ws: "workers (srt s) = Some ws" "length ws = n" by (rule runtime_okE) blast
  note E = park_effect [OF assms(1,3) ws(1) assms(5)]
  have "signalled ?s' v = signalled s v" if "v < n" for v
    using that ws E(1) by (cases "v = w") (simp_all add: signalled_def the_worker_def)
  then have "attentive ?s' v" if "v < n" "attentive s v" for v
    using that E(4) assms(4) by (cases "v = w") (auto simp: attentive_def split: wpc.splits)
  then show ?thesis using E(3) by (intro attended_mono [OF assms(2)]) auto
qed

lemma attended_notify:
  assumes "runtime_ok n s" "parking_ok n s" "notify_ok n s" "spc s t = S_Notify i" "workers (srt s) = Some ws" "parker (ws ! i) = Some Parked"
  shows "attended items n (at_s t S_Unlock (s\<lparr>srt := (srt s)\<lparr>workers := Some (notify_worker i ws)\<rparr>\<rparr>))"
proof -
  have ws: "length ws = n" "the_worker s = (!) ws" using assms(1,5) by (auto elim: runtime_okE)
  have i: "i < n" using assms(3,4) by (auto simp: notify_ok_def)
  then have "wpc s i = W_Wait" "returned s i \<le> notifies (the_worker s i)" using assms(2,6) ws(2) by (auto simp: parking_ok_def)
  with i ws show ?thesis
    by (intro attendedI(2) [of i]) (simp_all add: attentive_def signalled_def the_worker_def notify_worker_def)
qed

lemma attended_step:
  assumes "linked_list_spec ll items" "runtime_ok n s" "parking_ok n s" "notify_ok n s" "locks_ok n s" "served n s" "attended items n s"
    and "sched_step ll n s s'"
  shows "attended items n s'"
proof -
  have woken: "attended items n s'" if "polled s' < io_wakes (srt s')"
    using driver_woken [OF served_step [OF assms(6,5,8)] that] .
  have keep: "attended items n s'" if "\<And>w. w < n \<Longrightarrow> attentive s w \<Longrightarrow> attentive s' w" "\<And>t. waking (spc s t) \<Longrightarrow> waking (spc s' t)"
    "skipped s' = skipped s" "srt s' = srt s"
    using that by (intro attended_mono [OF assms(7)]) simp_all
  have polled: "polled s \<le> io_wakes (srt s)" using assms(5) by (simp add: locks_ok_def)
  show ?thesis using assms(8)
  proof cases
    case (loop_empty w e1 r1)
    then show ?thesis using next_task_none [OF assms(1) loop_empty(4)] by (intro attendedI(4)) simp
  next
    case (io_busy w)
    show ?thesis
    proof (cases "polled s < io_wakes (srt s)")
      case True
      then show ?thesis by (intro woken) (simp add: io_busy)
    next
      case False
      then show ?thesis by (intro keep) (auto simp: io_busy attentive_def signalled_def the_worker_upd split: wpc.splits)
    qed
  next
    case (park_worker w r1)
    then show ?thesis using attended_park [OF assms(2,7)] by simp
  next
    case (notify_parked t i ws')
    then show ?thesis using attended_notify [OF assms(2-4)] by simp
  next
    case (pop_other t slot m)
    show ?thesis by (rule woken) (use polled pop_other in simp)
  next
    case (pop_during_push t w)
    show ?thesis by (rule woken) (use polled pop_during_push in simp)
  next
    case (sched_unlock t)
    then show ?thesis by (intro keep) (auto simp: attentive_def signalled_def the_worker_upd split: wpc.splits if_splits)
  next
    case (overlap m)
    then show ?thesis by (intro attended_mono [OF assms(7)]) (auto simp: attentive_def signalled_def the_worker_def split: wpc.splits)
  next
    case (io_lock w)
    then show ?thesis by (intro keep) (auto simp: attentive_def signalled_def the_worker_upd split: wpc.splits)
  qed (auto intro: attended_busy attendedI(1,3))
qed

lemma sched_inv_start:
  assumes "sched_start q0 n s" "linked_list_spec ll items" "items q0 = []"
  shows "sched_inv items n s"
proof -
  have s: "0 < n" "n < 2 ^ 64" "s = sched_init q0 n" using assms(1) by (simp_all add: sched_start_def)
  have ok: "workers_ok (srt s) (map (\<lambda>i. new_worker) [0..<n])"
    by (simp add: s sched_init_def new_runtime_def workers_ok_def new_map_ok)
  have tw: "the_worker s w = new_worker" if "w < n" for w using that by (simp add: s sched_init_def the_worker_def)
  have "slots_ok n (parked_workers (srt s))" using slots_ok_new by (simp add: s sched_init_def new_runtime_def)
  then have "runtime_ok n s" using ok s by (auto simp: runtime_ok_def sched_init_def)
  moreover have "parking_ok n s" using tw
    by (auto simp: parking_ok_def signalled_def s sched_init_def new_runtime_def new_map_ok new_worker_def)
  moreover have "notify_ok n s" "locks_ok n s" by (simp_all add: s notify_ok_def locks_ok_def sched_init_def)
  moreover have "served n s" using s by (auto simp: served_def sched_init_def)
  moreover have "attended items n s" using s by (intro attendedI(2) [of 0]) (simp_all add: attentive_def sched_init_def)
  ultimately show ?thesis by (simp add: sched_inv_def)
qed

lemma sched_inv_step:
  assumes "linked_list_spec ll items" "sched_inv items n s" "sched_step ll n s s'"
  shows "sched_inv items n s'"
  using assms runtime_ok_step parking_ok_step notify_ok_step locks_ok_step served_step attended_step
  unfolding sched_inv_def by metis

interpretation sc: transition_system "sched_start q0 n" "sched_step ll n"
  "\<lambda>s. \<forall>items. linked_list_spec ll items \<and> items q0 = [] \<longrightarrow> sched_inv items n s" for q0 n ll
  by unfold_locales (blast intro: sched_inv_start, blast intro: sched_inv_step)

lemma reachable_inv:
  assumes "linked_list_spec ll items" "items q0 = []" "sched_reaches ll q0 n s"
  shows "runtime_ok n s" "parking_ok n s" "notify_ok n s" "locks_ok n s" "served n s" "attended items n s"
  using sc.invar_reaches [OF assms(3)] assms(1,2) by (simp_all add: sched_inv_def)

subsection \<open>Runs\<close>

text \<open>
  A race of two schedulers and one worker, by what matters of its states: where the three stand, the queue, and the
  wake-ups of the driver that were made and consumed.
\<close>

definition race :: "wpc \<Rightarrow> spc \<Rightarrow> spc \<Rightarrow> nat option \<Rightarrow> nat option \<Rightarrow> nat list \<Rightarrow> nat \<Rightarrow> nat \<Rightarrow> nat list sched \<Rightarrow> bool" where
  "race wp a b pl il q made used s \<longleftrightarrow> sched_reaches list_queue [] 1 s \<and>
     wpc s 0 = wp \<and> spc s 0 = a \<and> spc s 1 = b \<and> (\<forall>t > 1. spc s t = S_Out) \<and> plock s = pl \<and> iolock s = il \<and>
     elems (local_queue (exec s 0)) = [] \<and> global_queue (srt s) = q \<and> io_wakes (srt s) = made \<and> polled s = used \<and>
     \<not> spurious s"

lemma next_task_lists:
  assumes "elems (local_queue e) = []" "next_task list_queue c e r = (t, e1, r1)" "length (global_queue r) \<le> 1"
  shows "t = (case global_queue r of [] \<Rightarrow> None | x # _ \<Rightarrow> Some x)" "elems (local_queue e1) = []" "global_queue r1 = []"
proof -
  from assms(2) have "get_many_global_tasks list_queue e r = (t, e1, r1)"
    by (cases rule: next_task_cases) (simp_all add: assms(1))
  note G = get_many_global_tasks_items [OF list_queue_ok this]
  have "opt_list t @ elems (local_queue e1) = global_queue r" "t = None \<longleftrightarrow> global_queue r = []" "global_queue r1 = []"
    using G assms by (simp_all add: waiting_def)
  then show "t = (case global_queue r of [] \<Rightarrow> None | x # _ \<Rightarrow> Some x)" "elems (local_queue e1) = []" "global_queue r1 = []"
    using assms(3) by (cases t; cases "global_queue r"; simp)+
qed

lemma race_step:
  assumes "race wp a b pl il q k m s" "sched_step list_queue 1 s s'"
    and "wpc s' 0 = wp'" "spc s' 0 = a'" "spc s' 1 = b'" "\<forall>t > 1. spc s' t = S_Out" "plock s' = pl'" "iolock s' = il'"
    and "elems (local_queue (exec s' 0)) = []" "global_queue (srt s') = q'" "io_wakes (srt s') = k'" "polled s' = m'" "\<not> spurious s'"
  shows "\<exists>s'. race wp' a' b' pl' il' q' k' m' s'"
  using assms by (auto simp: race_def intro: reaches_step)

lemma race_choose:
  assumes "race W_Loop a b pl il q k m s" "length q \<le> 1"
  shows "\<exists>s'. race (if q = [] then W_Idle else W_Run) a b pl il [] k m s'"
proof -
  obtain t e1 r1 where n: "next_task list_queue (count s 0 + 1) (exec s 0) (srt s) = (t, e1, r1)" by (metis prod_cases3)
  have q: "elems (local_queue (exec s 0)) = []" "length (global_queue (srt s)) \<le> 1" "global_queue (srt s) = q"
    using assms by (simp_all add: race_def)
  note N = next_task_lists [OF q(1) n q(2)] and F = next_task_frame [OF n]
  show ?thesis
  proof (cases q)
    case Nil
    have "sched_step list_queue 1 s (at_w 0 W_Idle (s\<lparr>count := (count s)(0 := count s 0 + 1), exec := (exec s)(0 := e1), srt := r1, skipped := False\<rparr>))"
      using assms(1) n N(1) q(3) Nil by (intro loop_empty) (simp_all add: race_def)
    from race_step [OF assms(1) this refl refl refl _ refl refl] assms(1) N F Nil show ?thesis by (simp add: race_def)
  next
    case (Cons x xs)
    have "sched_step list_queue 1 s (at_w 0 W_Run (s\<lparr>count := (count s)(0 := count s 0 + 1), exec := (exec s)(0 := e1), srt := r1\<rparr>))"
      using assms(1) n N(1) q(3) Cons by (intro loop_take [where x = x]) (simp_all add: race_def)
    from race_step [OF assms(1) this refl refl refl _ refl refl] assms(1) N F Cons show ?thesis by (simp add: race_def)
  qed
qed

lemma race_worker_moves:
  "race W_Loop a b pl il [x] k m s \<Longrightarrow> \<exists>s'. race W_Run a b pl il [] k m s'"
  "race W_Loop a b pl il [] k m s \<Longrightarrow> \<exists>s'. race W_Idle a b pl il [] k m s'"
  "race W_Run a b pl il q k m s \<Longrightarrow> \<exists>s'. race W_Loop a b pl il q k m s'"
  "race W_Idle a b pl None q k m s \<Longrightarrow> \<exists>s'. race W_Poll a b pl (Some 0) q k m s'"
  "race W_Poll a b pl il q k m s \<Longrightarrow> \<exists>s'. race W_Events a b pl il q k k s'"
  "race W_Events a b pl il q k m s \<Longrightarrow> \<exists>s'. race W_Loop a b pl None q k m s'"
proof goal_cases
  case 1
  then show ?case using race_choose [OF 1] by simp
next
  case 2
  then show ?case using race_choose [OF 2] by simp
next
  case 3
  show ?case by (rule race_step [OF 3 run_done [of 0]]) (use 3 in \<open>simp_all add: race_def\<close>)
next
  case 4
  show ?case by (rule race_step [OF 4 io_lock [of 0]]) (use 4 in \<open>simp_all add: race_def\<close>)
next
  case 5
  show ?case by (rule race_step [OF 5 poll_return [of 0]]) (use 5 in \<open>simp_all add: race_def\<close>)
next
  case 6
  show ?case by (rule race_step [OF 6 events_done [of 0]]) (use 6 in \<open>simp_all add: race_def\<close>)
qed

lemma race_thread_moves:
  "race wp S_Out b pl il [] k m s \<Longrightarrow> \<exists>s'. race wp S_Queued b pl il [x] k m s'"
  "race wp a S_Out pl il [] k m s \<Longrightarrow> \<exists>s'. race wp a S_Queued pl il [x] k m s'"
  "race wp S_Queued b None il q k m s \<Longrightarrow> \<exists>s'. race wp S_Pop b (Some 0) il q k m s'"
  "race wp a S_Queued (Some y) il q k m s \<Longrightarrow> \<exists>s'. race wp a S_Out (Some y) il q k m s'"
  "race wp S_Unlock b pl il q k m s \<Longrightarrow> \<exists>s'. race wp S_Out b None il q k m s'"
proof goal_cases
  case 1
  show ?case by (rule race_step [OF 1 sched_push [of _ 0]]) (use 1 in \<open>simp_all add: race_def push_global_def list_queue_def\<close>)
next
  case 2
  show ?case by (rule race_step [OF 2 sched_push [of _ 1]]) (use 2 in \<open>simp_all add: race_def push_global_def list_queue_def\<close>)
next
  case 3
  show ?case by (rule race_step [OF 3 sched_lock [of _ 0]]) (use 3 in \<open>simp_all add: race_def\<close>)
next
  case 4
  show ?case by (rule race_step [OF 4 sched_skip [of _ 1]]) (use 4 in \<open>simp_all add: race_def\<close>)
next
  case 5
  show ?case by (rule race_step [OF 5 sched_unlock [of _ 0]]) (use 5 in \<open>simp_all add: race_def\<close>)
qed

lemma race_pop:
  assumes "race wp S_Pop b pl il q k m s" "wp \<noteq> W_Wait"
  shows "\<exists>s'. race wp S_Unlock b pl il q (k + 1) m s'"
proof -
  have r: "sched_reaches list_queue [] 1 s" "spc s 0 = S_Pop" "wpc s 0 = wp" "\<not> spurious s" using assms(1) by (simp_all add: race_def)
  note I = reachable_inv [OF list_queue_ok _ r(1), simplified]
  from I(1) obtain ws where ws: "workers_ok (srt s) ws" "length ws = 1" using r(4) by (auto simp: runtime_ok_def)
  have "i \<notin> set (contents (parked_workers (srt s)))" for i
    using workers_okD(4) [OF ws(1), of i] ws(2) not_parked_not_queued(2) [OF I(2), of 0] r(3,4) assms(2) by auto
  then have c: "contents (parked_workers (srt s)) = []" by (metis list.set_intros(1) neq_Nil_conv)
  have "pop (parked_workers (srt s)) = Inr (Slot_None, parked_workers (srt s))"
    by (rule sm.deq_none [OF workers_okD(2) [OF ws(1)] c])
  from race_step [OF assms(1) pop_other [OF r(2) this] refl refl refl _ refl refl] assms(1)
  show ?thesis by (simp add: race_def)
qed

lemma unlock_steps:
  assumes "spc s t = S_Out" "plock s = None"
  shows "steps (sched_step ll n) (at_s t S_Unlock (s\<lparr>srt := r, plock := Some t\<rparr>)) (s\<lparr>srt := r\<rparr>)"
proof -
  have "sched_step ll n (at_s t S_Unlock (s\<lparr>srt := r, plock := Some t\<rparr>)) (s\<lparr>srt := r, plock := None, spc := (spc s)(t := S_Out)\<rparr>)"
    using sched_unlock [of "at_s t S_Unlock (s\<lparr>srt := r, plock := Some t\<rparr>)" t ll n] by simp
  moreover have "(spc s)(t := S_Out) = spc s" using assms(1) by (simp add: fun_upd_idem)
  then have "s\<lparr>srt := r, plock := None, spc := (spc s)(t := S_Out)\<rparr> = s\<lparr>srt := r\<rparr>" using assms(2) by (cases s) simp
  ultimately show ?thesis by (metis steps.intros)
qed

text \<open>What is left of \<^verbatim>\<open>schedule_global\<close> once the lock is taken: with no parked worker the driver is woken, else the first one is notified.\<close>

lemma pop_none_steps:
  assumes "spc s t = S_Out" "plock s = None" "pop (parked_workers r) = Inr (Slot_None, parked_workers r)"
  shows "\<exists>r'. unpark_loop r = Some (Inr r') \<and>
    steps (sched_step ll n) (at_s t S_Pop (s\<lparr>srt := r, plock := Some t\<rparr>)) (s\<lparr>srt := r'\<rparr>)"
proof -
  let ?popping = "at_s t S_Pop (s\<lparr>srt := r, plock := Some t\<rparr>)"
  let ?r = "r\<lparr>parked_workers := parked_workers r, io_wakes := io_wakes r + 1\<rparr>"
  have "sched_step ll n ?popping (at_s t S_Unlock (s\<lparr>srt := ?r, plock := Some t\<rparr>))"
    using pop_other [of ?popping t Slot_None "parked_workers r" ll n] assms(3) by (cases s) simp
  then have "steps (sched_step ll n) ?popping (s\<lparr>srt := ?r\<rparr>)"
    using unlock_steps [OF assms(1,2), of ll n ?r] by (rule steps_more)
  moreover have "unpark_loop r = Some (Inr ?r)" using assms(3) by (subst unpark_loop.simps) simp
  ultimately show ?thesis by blast
qed

lemma pop_some_steps:
  assumes "spc s t = S_Out" "plock s = None" "pop (parked_workers r) = Inr (Slot_Ready i, m)"
    and "workers r = Some ws" "i < length ws" "parker (ws ! i) = Some Parked"
  shows "\<exists>r'. unpark_loop r = Some (Inr r') \<and>
    steps (sched_step ll n) (at_s t S_Pop (s\<lparr>srt := r, plock := Some t\<rparr>)) (s\<lparr>srt := r'\<rparr>)"
proof -
  let ?popping = "at_s t S_Pop (s\<lparr>srt := r, plock := Some t\<rparr>)"
  let ?r = "r\<lparr>parked_workers := m, workers := Some (notify_worker i ws)\<rparr>"
  let ?notify = "at_s t (S_Notify i) (s\<lparr>srt := r\<lparr>parked_workers := m\<rparr>, plock := Some t\<rparr>)"
  have "sched_step ll n ?popping ?notify" using pop_ready [of ?popping t i m ll n] assms(3) by (cases s) simp
  moreover have "sched_step ll n ?notify (at_s t S_Unlock (s\<lparr>srt := ?r, plock := Some t\<rparr>))"
    using notify_parked [of ?notify t i ws ll n] assms(4,6) by (cases s) simp
  ultimately have "steps (sched_step ll n) ?popping (s\<lparr>srt := ?r\<rparr>)"
    using unlock_steps [OF assms(1,2), of ll n ?r] by (meson steps.intros)
  moreover have "unpark_loop r = Some (Inr ?r)"
    using assms(3-6) by (subst unpark_loop.simps) (simp add: notify_worker_def)
  ultimately show ?thesis by blast
qed

text \<open>The start of a runtime of one worker, and that runtime with a task that was just scheduled.\<close>

lemma sched_init_reaches: "sched_reaches list_queue [] 1 (sched_init [] 1)"
  by (rule reaches_start) (simp add: sched_start_def)

lemma pushed_reaches:
  "\<exists>s. sched_reaches list_queue [] 1 s \<and> spc s = (\<lambda>_. S_Out) \<and> \<not> skipped s \<and> global_queue (srt s) = [5]"
proof -
  let ?i = "sched_init [] 1 :: nat list sched"
  let ?q = "push_global list_queue 5 (srt ?i)"
  let ?r = "?q\<lparr>parked_workers := parked_workers ?q, io_wakes := io_wakes ?q + 1\<rparr>"
  let ?p = "at_s 0 S_Pop (?i\<lparr>srt := ?q, plock := Some 0\<rparr>)"
  have i: "spc ?i = (\<lambda>_. S_Out)" "plock ?i = None" "parked_workers (srt ?i) = parked_workers ?q" "\<not> skipped ?i" "global_queue ?q = [5]"
    by (simp_all add: sched_init_def push_global_def new_runtime_def list_queue_def)
  have "sched_step list_queue 1 ?i (at_s 0 S_Queued (?i\<lparr>srt := ?q\<rparr>))" by (rule sched_push) (simp add: sched_init_def)
  moreover have "sched_step list_queue 1 (at_s 0 S_Queued (?i\<lparr>srt := ?q\<rparr>)) ?p"
    using sched_lock [of "at_s 0 S_Queued (?i\<lparr>srt := ?q\<rparr>)" 0 list_queue 1] i(2) by (cases ?i) simp
  moreover have "pop (parked_workers ?q) = Inr (Slot_None, parked_workers ?q)"
    by (rule sm.deq_none) (simp_all add: sched_init_def push_global_def new_runtime_def new_map_ok)
  then have "sched_step list_queue 1 ?p (at_s 0 S_Unlock (?i\<lparr>srt := ?r, plock := Some 0\<rparr>))"
    using pop_other [of ?p 0 Slot_None "parked_workers ?q" list_queue 1] by (cases ?i) simp
  ultimately have "steps (sched_step list_queue 1) ?i (?i\<lparr>srt := ?r\<rparr>)"
    using unlock_steps [of ?i 0 list_queue 1 ?r] i by (meson steps.intros)
  from reaches_steps [OF this sched_init_reaches] show ?thesis using i by (intro exI [of _ "?i\<lparr>srt := ?r\<rparr>"]) simp
qed

subsection \<open>A run of two workers\<close>

text \<open>
  Two workers, the first of which stands in the poll of the driver, and one scheduling thread, by what matters of their states: where the second worker and the
  thread stand, the lock, the queues, the workers, and the notifications the second worker has consumed.
\<close>

definition duo :: "wpc \<Rightarrow> spc \<Rightarrow> nat option \<Rightarrow> nat list \<Rightarrow> slot_map \<Rightarrow> worker list \<Rightarrow> nat \<Rightarrow> bool \<Rightarrow> nat list sched \<Rightarrow> bool" where
  "duo wp a pl q m ws used sp s \<longleftrightarrow> sched_reaches list_queue [] 2 s \<and> wpc s 0 = W_Poll \<and> wpc s 1 = wp \<and> spc s 0 = a \<and>
     (\<forall>t > 0. spc s t = S_Out) \<and> plock s = pl \<and> iolock s = Some 0 \<and> elems (local_queue (exec s 1)) = [] \<and> worker_index (exec s 1) = 1 \<and>
     global_queue (srt s) = q \<and> parked_workers (srt s) = m \<and> workers (srt s) = Some ws \<and> returned s 1 = used \<and> spurious s = sp \<and> \<not> torn s"

lemma duo_step:
  assumes "duo wp a pl q m ws k sp s" "sched_step list_queue 2 s s'"
    and "wpc s' 0 = W_Poll" "wpc s' 1 = wp'" "spc s' 0 = a'" "\<forall>t > 0. spc s' t = S_Out" "plock s' = pl'" "iolock s' = Some 0"
    and "elems (local_queue (exec s' 1)) = []" "worker_index (exec s' 1) = 1" "global_queue (srt s') = q'" "parked_workers (srt s') = m'"
    and "workers (srt s') = Some ws'" "returned s' 1 = k'" "spurious s' = sp'" "\<not> torn s'"
  shows "\<exists>s'. duo wp' a' pl' q' m' ws' k' sp' s'"
  using assms unfolding duo_def by (blast intro: reaches_step)

abbreviation awake :: "nat \<Rightarrow> worker" where
  "awake k \<equiv> \<lparr>parker = None, notifies = k\<rparr>"

abbreviation asleep :: "nat \<Rightarrow> worker" where
  "asleep k \<equiv> \<lparr>parker = Some Parked, notifies = k\<rparr>"

lemma duo_start: "\<exists>s. duo W_Loop S_Out None [] (new_map 2) [awake 0, awake 0] 0 False s"
proof -
  let ?i = "sched_init [] 2 :: nat list sched"
  obtain t e1 r1 where n: "next_task list_queue (count ?i 0 + 1) (exec ?i 0) (srt ?i) = (t, e1, r1)" by (metis prod_cases3)
  have q: "elems (local_queue (exec ?i 0)) = []" "global_queue (srt ?i) = []"
    by (simp_all add: sched_init_def with_capacity_def new_runtime_def)
  note N = next_task_lists [OF q(1) n] and F = next_task_frame [OF n]
  let ?s1 = "at_w 0 W_Idle (?i\<lparr>count := (count ?i)(0 := count ?i 0 + 1), exec := (exec ?i)(0 := e1), srt := r1, skipped := False\<rparr>)"
  let ?s2 = "at_w 0 W_Poll (?s1\<lparr>iolock := Some 0\<rparr>)"
  have "sched_reaches list_queue [] 2 ?i" by (rule reaches_start) (simp add: sched_start_def)
  moreover have "sched_step list_queue 2 ?i ?s1" using n N(1) q(2) by (intro loop_empty) (simp_all add: sched_init_def)
  moreover have "sched_step list_queue 2 ?s1 ?s2" by (rule io_lock) (simp_all add: sched_init_def)
  ultimately have "sched_reaches list_queue [] 2 ?s2" by (blast intro: reaches_step)
  moreover have "workers (srt ?i) = Some [awake 0, awake 0]" "parked_workers (srt ?i) = new_map 2"
    by (simp_all add: sched_init_def new_runtime_def new_worker_def upt_rec)
  ultimately show ?thesis using N(3) q F by (intro exI [of _ ?s2]) (simp add: duo_def sched_init_def with_capacity_def)
qed

lemma duo_choose:
  assumes "duo W_Loop a pl q m ws k sp s" "length q \<le> 1"
  shows "\<exists>s'. duo (if q = [] then W_Idle else W_Run) a pl [] m ws k sp s'"
proof -
  obtain t e1 r1 where n: "next_task list_queue (count s 1 + 1) (exec s 1) (srt s) = (t, e1, r1)" by (metis prod_cases3)
  have q: "elems (local_queue (exec s 1)) = []" "length (global_queue (srt s)) \<le> 1" "global_queue (srt s) = q"
    using assms by (simp_all add: duo_def)
  note N = next_task_lists [OF q(1) n q(2)] and F = next_task_frame [OF n]
  show ?thesis
  proof (cases q)
    case Nil
    have "sched_step list_queue 2 s (at_w 1 W_Idle (s\<lparr>count := (count s)(1 := count s 1 + 1), exec := (exec s)(1 := e1), srt := r1, skipped := False\<rparr>))"
      using assms(1) n N(1) q(3) Nil by (intro loop_empty) (simp_all add: duo_def)
    then show ?thesis by (rule duo_step [OF assms(1)]) (use assms(1) N F Nil in \<open>simp_all add: duo_def\<close>)
  next
    case (Cons x xs)
    have "sched_step list_queue 2 s (at_w 1 W_Run (s\<lparr>count := (count s)(1 := count s 1 + 1), exec := (exec s)(1 := e1), srt := r1\<rparr>))"
      using assms(1) n N(1) q(3) Cons by (intro loop_take [where x = x]) (simp_all add: duo_def)
    then show ?thesis by (rule duo_step [OF assms(1)]) (use assms(1) N F Cons in \<open>simp_all add: duo_def\<close>)
  qed
qed

lemma duo_parks:
  assumes "duo W_Loop a pl [] m [x, awake j] k sp s" "push 1 m = Inr m1"
  shows "\<exists>s'. duo W_Wait a pl [] m1 [x, asleep j] k sp s'"
proof -
  obtain s1 where s1: "duo W_Idle a pl [] m [x, awake j] k sp s1" using duo_choose [OF assms(1)] by auto
  have "\<exists>s'. duo W_Park a pl [] m [x, awake j] k sp s'"
    by (rule duo_step [OF s1 io_busy [of 1]]) (use s1 in \<open>simp_all add: duo_def\<close>)
  then obtain s2 where s2: "duo W_Park a pl [] m [x, awake j] k sp s2" ..
  have "park (worker_index (exec s2 1)) (srt s2) = Inr ((srt s2)\<lparr>parked_workers := m1, workers := Some [x, asleep j]\<rparr>)"
    using s2 assms(2) by (simp add: duo_def park_def)
  from park_worker [OF _ _ this, of 2 list_queue] show ?thesis
    by (rule duo_step [OF s2]) (use s2 in \<open>simp_all add: duo_def\<close>)
qed

lemma duo_returns:
  "duo W_Wait a pl q m [x, asleep k] k sp s \<Longrightarrow> \<exists>s'. duo W_Loop a pl q m [x, awake k] k True s'"
  "duo W_Wait a pl q m [x, awake (Suc k)] k sp s \<Longrightarrow> \<exists>s'. duo W_Loop a pl q m [x, awake (Suc k)] (Suc k) sp s'"
proof goal_cases
  case 1
  show ?case by (rule duo_step [OF 1 spurious_return [of 1 _ _ "[x, asleep k]"]]) (use 1 in \<open>simp_all add: duo_def wait_returns_def\<close>)
next
  case 2
  show ?case by (rule duo_step [OF 2 wait_return [of 1 _ _ "[x, awake (Suc k)]"]]) (use 2 in \<open>simp_all add: duo_def wait_returns_def\<close>)
qed

lemma duo_schedules:
  assumes "duo wp S_Out None [] m ws k sp s"
  shows "\<exists>s'. duo wp S_Pop (Some 0) [y] m ws k sp s'"
proof -
  have "\<exists>s'. duo wp S_Queued None [y] m ws k sp s'"
    by (rule duo_step [OF assms sched_push [of s 0]]) (use assms in \<open>simp_all add: duo_def push_global_def list_queue_def\<close>)
  then obtain s1 where s1: "duo wp S_Queued None [y] m ws k sp s1" ..
  show ?thesis by (rule duo_step [OF s1 sched_lock [of s1 0]]) (use s1 in \<open>simp_all add: duo_def\<close>)
qed

lemma duo_pops:
  assumes "duo wp S_Pop pl q m ws k sp s" "pop m = Inr (Slot_Ready i, m1)"
  shows "\<exists>s'. duo wp (S_Notify i) pl q m1 ws k sp s'"
  by (rule duo_step [OF assms(1) pop_ready [of s 0 i m1]]) (use assms in \<open>simp_all add: duo_def\<close>)

lemma duo_notifies:
  assumes "duo wp (S_Notify 1) pl q m [x, asleep j] k sp s"
  shows "\<exists>s'. duo wp S_Out None q m [x, awake (Suc j)] k sp s'"
proof -
  have "\<exists>s'. duo wp S_Unlock pl q m [x, awake (Suc j)] k sp s'"
    by (rule duo_step [OF assms notify_parked [of s 0 1 "[x, asleep j]"]]) (use assms in \<open>simp_all add: duo_def notify_worker_def\<close>)
  then obtain s1 where s1: "duo wp S_Unlock pl q m [x, awake (Suc j)] k sp s1" ..
  show ?thesis by (rule duo_step [OF s1 sched_unlock [of s1 0]]) (use s1 in \<open>simp_all add: duo_def\<close>)
qed

text \<open>The slots of two workers after the second parked once, and after it parked again while it was queued.\<close>

lemma duo_slots:
  "push 1 (new_map 2) = Inr \<lparr>tail = 2, head = 1, slots = [3, 3, 1]\<rparr>"
  "push 1 \<lparr>tail = 2, head = 1, slots = [3, 3, 1]\<rparr> = Inr \<lparr>tail = 2, head = 1, slots = [3, 1, 1]\<rparr>"
  "pop \<lparr>tail = 2, head = 1, slots = [3, 3, 1]\<rparr> = Inr (Slot_Ready 1, \<lparr>tail = 2, head = 2, slots = [3, 2, 3]\<rparr>)"
  "pop \<lparr>tail = 2, head = 1, slots = [3, 1, 1]\<rparr> = Inr (Slot_Ready 1, \<lparr>tail = 1, head = 1, slots = [3, 1, 1]\<rparr>)"
  "pop \<lparr>tail = 1, head = 1, slots = [3, 1, 1]\<rparr> = Inr (Slot_Ready 1, \<lparr>tail = 1, head = 1, slots = [3, 1, 1]\<rparr>)"
  by (simp_all add: push_def pop_def pop_from_def new_map_def numeral_eq_Suc Let_def)

lemma notifying_reached:
  "\<exists>s. sched_reaches list_queue [] 2 s \<and> wpc s 0 = W_Poll \<and> wpc s 1 = W_Wait \<and> spc s 0 = S_Notify 1 \<and> \<not> spurious s"
proof -
  obtain s where "duo W_Wait S_Out None [] \<lparr>tail = 2, head = 1, slots = [3, 3, 1]\<rparr> [awake 0, asleep 0] 0 False s"
    using duo_start duo_parks [OF _ duo_slots(1)] by blast
  then obtain s where "duo W_Wait S_Pop (Some 0) [5] \<lparr>tail = 2, head = 1, slots = [3, 3, 1]\<rparr> [awake 0, asleep 0] 0 False s"
    using duo_schedules by blast
  with duo_pops [OF this duo_slots(3)] show ?thesis unfolding duo_def by blast
qed

lemma spinning_reached:
  "\<exists>s. duo W_Run S_Pop (Some 0) [6] \<lparr>tail = 1, head = 1, slots = [3, 1, 1]\<rparr> [awake 0, awake 1] 1 True s"
proof -
  obtain s where "duo W_Loop S_Out None [] \<lparr>tail = 2, head = 1, slots = [3, 3, 1]\<rparr> [awake 0, awake 0] 0 True s"
    using duo_start duo_parks [OF _ duo_slots(1)] duo_returns(1) by blast
  then obtain s where "duo W_Wait S_Out None [] \<lparr>tail = 2, head = 1, slots = [3, 1, 1]\<rparr> [awake 0, asleep 0] 0 True s"
    using duo_parks [OF _ duo_slots(2)] by blast
  then obtain s where "duo W_Wait (S_Notify 1) (Some 0) [5] \<lparr>tail = 1, head = 1, slots = [3, 1, 1]\<rparr> [awake 0, asleep 0] 0 True s"
    using duo_schedules [where y = 5] duo_pops [OF _ duo_slots(4)] by blast
  then obtain s where "duo W_Loop S_Out None [5] \<lparr>tail = 1, head = 1, slots = [3, 1, 1]\<rparr> [awake 0, awake (Suc 0)] (Suc 0) True s"
    using duo_notifies duo_returns(2) by blast
  then obtain s where "duo W_Run S_Out None [] \<lparr>tail = 1, head = 1, slots = [3, 1, 1]\<rparr> [awake 0, awake (Suc 0)] (Suc 0) True s"
    using duo_choose by fastforce
  then show ?thesis using duo_schedules [where y = 6] by auto
qed

text \<open>A scheduling thread that pops the index of a worker that is not parked, from a queue in which this index follows itself.\<close>

definition spinning :: "'q sched \<Rightarrow> bool" where
  "spinning s \<longleftrightarrow> parked_workers (srt s) = \<lparr>tail = 1, head = 1, slots = [3, 1, 1]\<rparr> \<and> (\<exists>x y. workers (srt s) = Some [x, y] \<and> parker y = None) \<and>
     (spc s 0 = S_Pop \<or> spc s 0 = S_Notify 1) \<and> plock s = Some 0 \<and> (\<forall>t > 0. \<not> popping (spc s t)) \<and>
     (\<forall>w < 2. wpc s w \<noteq> W_Park \<and> wpc s w \<noteq> W_Wait)"

lemma spinning_step:
  assumes "spinning s" "sched_step ll 2 s s'" "\<not> torn s'" "\<forall>w < 2. wpc s' w \<noteq> W_Park"
  shows "spinning s'"
proof -
  have sole: "t = 0" if "popping (spc s t)" for t using assms(1) that by (auto simp: spinning_def)
  have zero: "spc s 0 \<noteq> S_Out" "spc s 0 \<noteq> S_Queued" using assms(1) by (auto simp: spinning_def)
  show ?thesis using assms(2)
  proof cases
    case (loop_take w x e1 r1)
    with next_task_frame [OF loop_take(4)] assms(1) show ?thesis by (auto simp: spinning_def)
  next
    case (loop_empty w e1 r1)
    with next_task_frame [OF loop_empty(4)] assms(1) show ?thesis by (auto simp: spinning_def)
  next
    case (sched_push t x)
    then have "t > 0" using zero by (cases t) auto
    with sched_push assms(1) show ?thesis by (auto simp: spinning_def push_global_def)
  next
    case (sched_skip t)
    then have "t > 0" using zero by (cases t) auto
    with sched_skip assms(1) show ?thesis by (auto simp: spinning_def)
  next
    case (pop_ready t i m)
    then have "t = 0" using sole by simp
    with pop_ready assms(1) duo_slots(5) show ?thesis by (auto simp: spinning_def)
  next
    case (pop_other t slot m)
    with assms(1) duo_slots(5) sole [of t] show ?thesis by (auto simp: spinning_def)
  next
    case (notify_parked t i ws)
    with assms(1) sole [of t] show ?thesis by (auto simp: spinning_def)
  next
    case (notify_stale t i ws)
    with assms(1) sole [of t] show ?thesis by (auto simp: spinning_def)
  next
    case (sched_unlock t)
    with assms(1) sole [of t] show ?thesis by (auto simp: spinning_def)
  qed (use assms(1,3,4) in \<open>auto simp: spinning_def push_global_def\<close>)
qed

lemma spinning_steps:
  assumes "steps (\<lambda>a b. sched_step ll 2 a b \<and> \<not> torn b \<and> (\<forall>w < 2. wpc b w \<noteq> W_Park)) s s'" "spinning s"
  shows "spinning s'"
  using assms by (induction rule: steps.induct) (auto intro: spinning_step)

subsection \<open>Properties\<close>

text \<open>
  C14: For any number of workers and scheduling threads, under every interleaving of their steps,
  spurious returns of the condition variables included: when no thread is inside schedule_global,
  none has found the lock of the parked workers taken since a worker last found the global queue
  empty, and the global queue holds a task, then some worker will look at the queue before it waits
  (it is choosing or running a task, handles events, has been notified, or has a wake-up of the
  driver outstanding).
\<close>

theorem no_task_is_stranded:
  assumes "linked_list_spec ll items" "items q0 = []" "sched_reaches ll q0 n s"
    and "\<forall>t. spc s t = S_Out" "\<not> skipped s" "items (global_queue (srt s)) \<noteq> []"
  shows "\<exists>w < n. attentive s w"
  using reachable_inv(6) [OF assms(1-3)] assms(4-6) by (simp add: attended_def)

theorem no_task_is_stranded_witness:
  "\<exists>s. sched_reaches list_queue [] 1 s \<and> global_queue (srt s) = [5] \<and> (\<exists>w < 1. attentive s w)"
proof -
  obtain s where s: "sched_reaches list_queue [] 1 s" "spc s = (\<lambda>_. S_Out)" "\<not> skipped s" "global_queue (srt s) = [5]"
    using pushed_reaches by blast
  from no_task_is_stranded [OF list_queue_ok _ s(1)] s show ?thesis by auto
qed

text \<open>
  C15: Under every interleaving, spurious returns of the condition variables included, some worker
  is neither parked nor about to park, so the driver is always served; a waiting worker whose parked
  mark was removed has been notified; and the worker a thread is about to notify exists and, as long
  as no wait on a condition variable has returned spuriously, is marked as parked and is waiting.
\<close>

theorem some_worker_never_parks:
  assumes "linked_list_spec ll items" "items q0 = []" "sched_reaches ll q0 n s"
  shows "(\<exists>w < n. wpc s w \<noteq> W_Park \<and> wpc s w \<noteq> W_Wait) \<and>
    (\<forall>w < n. wpc s w = W_Wait \<longrightarrow> parker (the_worker s w) = None \<longrightarrow> signalled s w) \<and>
    (\<forall>t i. spc s t = S_Notify i \<longrightarrow> i < n \<and> (spurious s \<or> parker (the_worker s i) = Some Parked \<and> wpc s i = W_Wait))"
  using reachable_inv(2,3,5) [OF assms] by (auto simp: served_def parking_ok_def notify_ok_def)

theorem some_worker_never_parks_witness:
  "\<exists>s. sched_reaches list_queue [] 2 s \<and> spc s 0 = S_Notify 1 \<and> \<not> spurious s \<and> (\<exists>w < 2. wpc s w \<noteq> W_Park \<and> wpc s w \<noteq> W_Wait) \<and>
     parker (the_worker s 1) = Some Parked \<and> wpc s 1 = W_Wait"
proof -
  obtain s where s: "sched_reaches list_queue [] 2 s" "spc s 0 = S_Notify 1" "\<not> spurious s" using notifying_reached by blast
  from some_worker_never_parks [OF list_queue_ok _ s(1)] s show ?thesis by (intro exI [of _ s]) auto
qed

text \<open>
  C16: There is an execution with one worker and two schedulers after which a task lies in the
  global queue, no thread is inside schedule_global, and the only worker waits in the poll of the
  driver with no wake-up outstanding: the second scheduler left because the first still held the
  lock of the parked workers, although the worker it had woken was already waiting again.
\<close>

theorem lock_race_strands_task:
  "\<exists>s. sched_reaches list_queue [] 1 s \<and> (\<forall>t. spc s t = S_Out) \<and> plock s = None \<and>
     global_queue (srt s) = [6] \<and> wpc s 0 = W_Poll \<and> \<not> attentive s 0 \<and> \<not> spurious s"
proof -
  have "sched_reaches list_queue [] 1 (sched_init [] 1)" by (rule reaches_start) (simp add: sched_start_def)
  then have "race W_Loop S_Out S_Out None None [] 0 0 (sched_init [] 1)"
    by (simp add: race_def sched_init_def new_runtime_def)
  then obtain s where "race W_Loop S_Unlock S_Out (Some 0) None [5] 1 0 s"
    using race_thread_moves(1,3) race_pop by (metis One_nat_def add_0 plus_1_eq_Suc wpc.distinct)
  then obtain s where "race W_Poll S_Unlock S_Out (Some 0) (Some 0) [] 1 0 s" using race_worker_moves(1-4) by metis
  then obtain s where "race W_Poll S_Unlock S_Out (Some 0) (Some 0) [] 1 1 s" using race_worker_moves(2,4-6) by metis
  then obtain s where "race W_Poll S_Out S_Out None (Some 0) [6] 1 1 s" using race_thread_moves(2,4,5) by metis
  then have s: "sched_reaches list_queue [] 1 s" "spc s 0 = S_Out" "spc s 1 = S_Out" "\<forall>t > 1. spc s t = S_Out" "plock s = None"
    "global_queue (srt s) = [6]" "wpc s 0 = W_Poll" "io_wakes (srt s) = 1" "polled s = 1" "\<not> spurious s"
    by (simp_all add: race_def)
  have "spc s t = S_Out" for t using s(2-4) by (cases t; cases "t = 1") auto
  then show ?thesis using s by (intro exI [of _ s]) (simp add: attentive_def)
qed

text \<open>
  C17: As long as no wait on a condition variable has returned spuriously: in every reachable state
  where the lock of the parked workers is free, the sequential schedule_global returns, and its
  effect on the runtime is that of a run of the interleaved steps of one thread.
\<close>

theorem schedule_global_is_steps:
  assumes "linked_list_spec ll items" "items q0 = []" "sched_reaches ll q0 n s" "spc s t = S_Out" "plock s = None" "\<not> spurious s"
  shows "\<exists>r. (\<forall>w. schedule_global ll True x (w\<lparr>rt := srt s\<rparr>) = Some (Inr (w\<lparr>rt := r\<rparr>))) \<and> steps (sched_step ll n) s (s\<lparr>srt := r\<rparr>)"
proof -
  note I = reachable_inv [OF assms(1-3)]
  from I(1) assms(6) obtain ws where ws: "workers (srt s) = Some ws" "length ws = n" "workers_ok (srt s) ws" "the_worker s = (!) ws"
    by (auto elim: runtime_okE)
  let ?pushed = "push_global ll x (srt s)"
  let ?popping = "at_s t S_Pop (s\<lparr>srt := ?pushed, plock := Some t\<rparr>)"
  have r0: "workers_ok ?pushed ws" "parked_workers ?pushed = parked_workers (srt s)" "workers ?pushed = Some ws"
    using ws by simp (simp_all add: push_global_def ws)
  have parked: "is_parked ws i" if "i \<in> set (contents (parked_workers ?pushed))" for i
    using that I(2) assms(6) r0(2) ws(4) by (simp add: parking_ok_def is_parked_def)
  have "sched_step ll n s (at_s t S_Queued (s\<lparr>srt := ?pushed\<rparr>))" by (rule sched_push [OF assms(4)])
  moreover have "sched_step ll n (at_s t S_Queued (s\<lparr>srt := ?pushed\<rparr>)) ?popping"
    using sched_lock [of "at_s t S_Queued (s\<lparr>srt := ?pushed\<rparr>)" t ll n] assms(5) by (cases s) simp
  ultimately have start: "steps (sched_step ll n) s ?popping" by (blast intro: steps.intros)
  have "\<exists>r. unpark_loop ?pushed = Some (Inr r) \<and> steps (sched_step ll n) ?popping (s\<lparr>srt := r\<rparr>)"
  proof (cases "contents (parked_workers ?pushed)")
    case Nil
    show ?thesis by (rule pop_none_steps [OF assms(4,5) sm.deq_none [OF workers_okD(2) [OF r0(1)] Nil]])
  next
    case (Cons i rest)
    obtain m where p: "pop (parked_workers ?pushed) = Inr (Slot_Ready i, m)" using sm.deq_some [OF workers_okD(2) [OF r0(1)] Cons] by blast
    have "parker (ws ! i) = Some Parked" "i < length ws" using parked [of i] workers_okD(4) [OF r0(1), of i] Cons by (simp_all add: is_parked_def)
    then show ?thesis by (intro pop_some_steps [OF assms(4,5) p r0(3)])
  qed
  then obtain r where "unpark_loop ?pushed = Some (Inr r)" "steps (sched_step ll n) s (s\<lparr>srt := r\<rparr>)"
    using steps_trans [OF start] by blast
  then show ?thesis by (intro exI [of _ r]) (simp add: schedule_global_def)
qed

theorem schedule_global_is_steps_witness:
  "\<exists>s r. sched_reaches list_queue [] 2 s \<and> wpc s 1 = W_Wait \<and> steps (sched_step list_queue 2) s (s\<lparr>srt := r\<rparr>) \<and>
     (\<forall>w :: (nat, nat, nat, nat list) world. schedule_global list_queue True 5 (w\<lparr>rt := srt s\<rparr>) = Some (Inr (w\<lparr>rt := r\<rparr>)))"
proof -
  obtain s0 where "duo W_Loop S_Out None [] (new_map 2) [awake 0, awake 0] 0 False s0" using duo_start ..
  from duo_parks [OF this duo_slots(1)] obtain s where
    "duo W_Wait S_Out None [] \<lparr>tail = 2, head = 1, slots = [3, 3, 1]\<rparr> [awake 0, asleep 0] 0 False s" ..
  then have s: "sched_reaches list_queue [] 2 s" "wpc s 1 = W_Wait" "spc s 0 = S_Out" "plock s = None" "\<not> spurious s"
    by (simp_all add: duo_def)
  obtain r where "steps (sched_step list_queue 2) s (s\<lparr>srt := r\<rparr>)"
    "\<forall>w :: (nat, nat, nat, nat list) world. schedule_global list_queue True 5 (w\<lparr>rt := srt s\<rparr>) = Some (Inr (w\<lparr>rt := r\<rparr>))"
    using schedule_global_is_steps [OF list_queue_ok _ s(1,3,4,5)] by auto
  with s(1,2) show ?thesis by (intro exI [of _ s] exI [of _ r] conjI)
qed

text \<open>
  C24: A wait that returns spuriously lets a worker queue its index twice: there is an execution
  with two workers in which a thread in schedule_global, holding the lock of the parked workers,
  pops that index from a queue that links it to itself while the worker runs a task; it can go round
  its loop for ever, and as long as no worker goes to park it leaves the loop in no execution.
\<close>

theorem spurious_wake_spins_scheduler:
  "\<exists>s s1. sched_reaches list_queue [] 2 s \<and> \<not> torn s \<and> wpc s 0 = W_Poll \<and> wpc s 1 = W_Run \<and> plock s = Some 0 \<and> global_queue (srt s) = [6] \<and>
     spc s 0 = S_Pop \<and> spc s1 0 = S_Notify 1 \<and> sched_step list_queue 2 s s1 \<and> sched_step list_queue 2 s1 s \<and>
     {(plock u, spc u 0) | u. steps (\<lambda>a b. sched_step list_queue 2 a b \<and> \<not> torn b \<and> {W_Park} \<inter> wpc b ` {..<2} = {}) s u}
       = {Some 0} \<times> {S_Pop, S_Notify 1}"
proof -
  let ?m = "\<lparr>tail = 1, head = 1, slots = [3, 1, 1]\<rparr>"
  let ?R = "\<lambda>a b. sched_step list_queue 2 a b \<and> \<not> torn b \<and> {W_Park} \<inter> wpc b ` {..<2} = {}"
  have "({W_Park} \<inter> wpc b ` {..<2} = {}) \<longleftrightarrow> (\<forall>w < 2. wpc b w \<noteq> W_Park)" for b :: "nat list sched" by force
  then have R: "?R = (\<lambda>a b. sched_step list_queue 2 a b \<and> \<not> torn b \<and> (\<forall>w < 2. wpc b w \<noteq> W_Park))" by simp
  obtain s where d: "duo W_Run S_Pop (Some 0) [6] ?m [awake 0, awake 1] 1 True s" using spinning_reached by blast
  then have s: "sched_reaches list_queue [] 2 s" "\<not> torn s" "wpc s 0 = W_Poll" "wpc s 1 = W_Run" "plock s = Some 0" "global_queue (srt s) = [6]"
    "spc s 0 = S_Pop" "parked_workers (srt s) = ?m" "workers (srt s) = Some [awake 0, awake 1]" "\<forall>t > 0. spc s t = S_Out"
    by (simp_all add: duo_def)
  let ?s1 = "at_s 0 (S_Notify 1) (s\<lparr>srt := (srt s)\<lparr>parked_workers := ?m\<rparr>\<rparr>)"
  have same: "(srt s)\<lparr>parked_workers := ?m\<rparr> = srt s" using s(8) by (cases "srt s") simp
  have a: "sched_step list_queue 2 s ?s1" using s(7,8) duo_slots(5) by (intro pop_ready) simp_all
  have "sched_step list_queue 2 ?s1 (at_s 0 S_Pop ?s1)" using s(9) by (intro notify_stale [where i = 1 and ws = "[awake 0, awake 1]"]) simp_all
  moreover have "at_s 0 S_Pop ?s1 = s" unfolding same using s(7) by (cases s) (auto simp: fun_eq_iff)
  ultimately have b: "sched_step list_queue 2 ?s1 s" by simp
  have sp: "spinning s" using s by (auto simp: spinning_def less_2_cases_iff)
  have "(plock u, spc u 0) \<in> {Some 0} \<times> {S_Pop, S_Notify 1}" if "steps ?R s u" for u
    using spinning_steps [OF that [unfolded R] sp] by (auto simp: spinning_def)
  moreover have "steps ?R s s" "steps ?R s ?s1"
    using a s(2-4) by (auto simp: less_2_cases_iff lessThan_Suc numeral_eq_Suc intro!: steps.intros(1) steps_more [OF _ steps_refl])
  then have "{Some 0} \<times> {S_Pop, S_Notify 1} \<subseteq> {(plock u, spc u 0) | u. steps ?R s u}"
    using s(5,7) by force
  ultimately have "{(plock u, spc u 0) | u. steps ?R s u} = {Some 0} \<times> {S_Pop, S_Notify 1}" by blast
  with s a b show ?thesis by (intro exI [of _ s] exI [of _ ?s1]) simp
qed

end
