(* ===== verification/Driver_Failure.thy ===== *)
theory Driver_Failure
  imports Sched_Conc Driver
begin

text \<open>
  The workers of \<^verbatim>\<open>Sched_Conc\<close> together with the driver they poll: the mutex around the driver with its poison flag, the driver
  and its slab, and the threads that have ended in a panic. A worker that found no task tries the lock (\<^verbatim>\<open>src/src/lib.rs\<close>):
  it polls when the lock is free, and takes a lock that is held and one that is poisoned for the same and parks. The poll is
  \<open>poll_timeout\<close> of \<^verbatim>\<open>Driver\<close> on whatever the operating system returns: when it panics, the guard is dropped during the
  unwinding, which releases the lock and poisons the mutex, and the thread of the worker ends. Everything else the workers and the schedulers do
  is a step of \<^verbatim>\<open>Sched_Conc\<close>. Tasks may change the slab at any time.
\<close>

text \<open>
  A worker that has died stays where it was, in its poll. \<open>os_failed\<close> and \<open>polls\<close> are history: whether the operating
  system has ever returned an error other than \<^verbatim>\<open>Interrupted\<close>, and how often the driver was polled.
\<close>

record ('q, 'p) fsched =
  base :: "'q sched"
  iodriver :: io_driver
  io_slab :: 'p
  poisoned :: bool
  dead :: "nat set"
  os_failed :: bool
  polls :: nat

definition failing_init :: "'q \<Rightarrow> nat \<Rightarrow> 'p \<Rightarrow> ('q, 'p) fsched" where
  "failing_init q0 n p0 = \<lparr>base = sched_init q0 n, iodriver = new_driver, io_slab = p0, poisoned = False, dead = {}, os_failed = False, polls = 0\<rparr>"

definition unexpected :: "io_error + unit \<Rightarrow> bool" where
  "unexpected res \<longleftrightarrow> (case res of Inl e \<Rightarrow> kind e \<noteq> Interrupted | Inr _ \<Rightarrow> False)"

text \<open>What is left when \<open>poll_timeout\<close> has ended in worker \<open>w\<close>.\<close>

definition after_poll :: "nat \<Rightarrow> panic + io_driver \<times> 'p \<times> 'w list \<Rightarrow> ('q, 'p) fsched \<Rightarrow> ('q, 'p) fsched" where
  "after_poll w r f = (case r of
       Inl _ \<Rightarrow> f\<lparr>base := (base f)\<lparr>iolock := None\<rparr>, poisoned := True, dead := insert w (dead f)\<rparr>
     | Inr (d1, p1, wakers) \<Rightarrow> f\<lparr>base := at_w w W_Events ((base f)\<lparr>polled := io_wakes (srt (base f))\<rparr>), iodriver := d1, io_slab := p1\<rparr>)"

inductive failing_step ::
    "('p, ('l, 'w) scheduled_io) pool_ops \<Rightarrow> ('l, 'c, 'm, 'w) pin_list \<Rightarrow> 'q linked_list_ops \<Rightarrow> nat \<Rightarrow> ('q, 'p) fsched \<Rightarrow> ('q, 'p) fsched \<Rightarrow> bool"
  for po :: "('p, ('l, 'w) scheduled_io) pool_ops" and pl :: "('l, 'c, 'm, 'w) pin_list" and ll :: "'q linked_list_ops" and n :: nat where
  other_step: "sched_step ll n (base f) s' \<Longrightarrow> (\<forall>w. wpc (base f) w = W_Idle \<or> wpc (base f) w = W_Poll \<longrightarrow> wpc s' w = wpc (base f) w) \<Longrightarrow>
    failing_step po pl ll n f (f\<lparr>base := s'\<rparr>)"
| try_lock_ok: "w < n \<Longrightarrow> wpc (base f) w = W_Idle \<Longrightarrow> iolock (base f) = None \<Longrightarrow> \<not> poisoned f \<Longrightarrow>
    failing_step po pl ll n f (f\<lparr>base := at_w w W_Poll ((base f)\<lparr>iolock := Some w\<rparr>)\<rparr>)"
| try_lock_err: "w < n \<Longrightarrow> wpc (base f) w = W_Idle \<Longrightarrow> iolock (base f) \<noteq> None \<or> poisoned f \<Longrightarrow>
    failing_step po pl ll n f (f\<lparr>base := at_w w W_Park (base f)\<rparr>)"
| poll_driver: "w < n \<Longrightarrow> w \<notin> dead f \<Longrightarrow> wpc (base f) w = W_Poll \<Longrightarrow> poll_timeout po pl res events (iodriver f) (io_slab f) = Some r \<Longrightarrow>
    failing_step po pl ll n f (after_poll w r (f\<lparr>os_failed := os_failed f \<or> unexpected res, polls := polls f + 1\<rparr>))"
| slab_changes: "failing_step po pl ll n f (f\<lparr>io_slab := p\<rparr>)"

definition failing_start :: "'q \<Rightarrow> nat \<Rightarrow> ('q, 'p) fsched \<Rightarrow> bool" where
  "failing_start q0 n f \<longleftrightarrow> 0 < n \<and> n < 2 ^ 64 \<and> (\<exists>p0. f = failing_init q0 n p0)"

abbreviation failing_reaches ::
    "('p, ('l, 'w) scheduled_io) pool_ops \<Rightarrow> ('l, 'c, 'm, 'w) pin_list \<Rightarrow> 'q linked_list_ops \<Rightarrow> 'q \<Rightarrow> nat \<Rightarrow> ('q, 'p) fsched \<Rightarrow> bool" where
  "failing_reaches po pl ll q0 n \<equiv> reaches (failing_start q0 n) (failing_step po pl ll n)"

subsection \<open>The invariant\<close>

text \<open>The lock is held by the live worker that polls or handles events; a poisoned mutex is free, and somebody died of it.\<close>

definition driver_ok :: "nat \<Rightarrow> ('q, 'p) fsched \<Rightarrow> bool" where
  "driver_ok n f \<longleftrightarrow>
     (\<forall>w < n. w \<notin> dead f \<longrightarrow> (wpc (base f) w = W_Poll \<or> wpc (base f) w = W_Events \<longleftrightarrow> iolock (base f) = Some w)) \<and>
     (\<forall>w. iolock (base f) = Some w \<longrightarrow> w < n \<and> w \<notin> dead f) \<and> (\<forall>w \<in> dead f. w < n \<and> wpc (base f) w = W_Poll)"

definition poison_ok :: "('q, 'p) fsched \<Rightarrow> bool" where
  "poison_ok f \<longleftrightarrow> (poisoned f \<longrightarrow> iolock (base f) = None \<and> dead f \<noteq> {}) \<and> (os_failed f \<longrightarrow> poisoned f)"

text \<open>A step of the scheduler that keeps every worker off the driver leaves its lock alone, but for the end of a round of events.\<close>

lemma other_locks:
  assumes "sched_step ll n s s'" "\<forall>w. wpc s w = W_Idle \<or> wpc s w = W_Poll \<longrightarrow> wpc s' w = wpc s w"
  shows "(\<forall>w. wpc s' w = W_Poll \<longleftrightarrow> wpc s w = W_Poll) \<and>
    (iolock s' = iolock s \<and> (\<forall>w. wpc s' w = W_Events \<longleftrightarrow> wpc s w = W_Events) \<or>
     iolock s' = None \<and> (\<exists>v < n. wpc s v = W_Events \<and> (\<forall>w. wpc s' w = W_Events \<longleftrightarrow> wpc s w = W_Events \<and> w \<noteq> v)))"
  using assms(1)
proof cases
  case (io_lock w)
  then show ?thesis using assms(2) by (auto dest!: spec [of _ w])
next
  case (poll_return w)
  then show ?thesis using assms(2) by (auto dest!: spec [of _ w])
qed auto

lemma poll_timeout_panics:
  assumes "poll_timeout po pl res events d p = Some r" "unexpected res"
  shows "\<exists>e. r = Inl e"
  using assms by (auto simp: poll_timeout_def unexpected_def Let_def split: sum.splits if_splits)

lemma driver_ok_step:
  assumes "failing_step po pl ll n f g" "driver_ok n f"
  shows "driver_ok n g"
  using assms(1)
proof cases
  case (other_step s')
  have dead: "wpc (base f) w \<noteq> W_Events" if "w \<in> dead f" for w using assms(2) that by (auto simp: driver_ok_def)
  note L = other_locks [OF other_step(2,3)]
  have P: "wpc s' w = W_Poll \<longleftrightarrow> wpc (base f) w = W_Poll" for w using L by blast
  consider "iolock s' = iolock (base f)" "\<And>w. wpc s' w = W_Events \<longleftrightarrow> wpc (base f) w = W_Events"
    | v where "iolock s' = None" "v < n" "wpc (base f) v = W_Events" "\<And>w. wpc s' w = W_Events \<longleftrightarrow> wpc (base f) w = W_Events \<and> w \<noteq> v"
    using L by blast
  then show ?thesis
  proof cases
    case 1
    then have "driver_ok n g = driver_ok n f" by (simp add: other_step(1) driver_ok_def P)
    with assms(2) show ?thesis by simp
  next
    case (2 v)
    then have "iolock (base f) = Some v" using assms(2) dead [of v] by (auto simp: driver_ok_def)
    with 2 P show ?thesis using assms(2) by (auto simp: other_step(1) driver_ok_def)
  qed
next
  case (poll_driver w res events r)
  then have "iolock (base f) = Some w" using assms(2) by (auto simp: driver_ok_def)
  with poll_driver assms(2) show ?thesis by (auto simp: driver_ok_def after_poll_def split: sum.splits)
qed (use assms(2) in \<open>auto simp: driver_ok_def\<close>)

lemma poison_ok_step:
  assumes "failing_step po pl ll n f g" "driver_ok n f" "poison_ok f"
  shows "poison_ok g"
  using assms(1)
proof cases
  case (other_step s')
  from other_locks [OF other_step(2,3)] assms(3) show ?thesis by (auto simp: other_step(1) poison_ok_def)
next
  case (poll_driver w res events r)
  then have "iolock (base f) = Some w" using assms(2) by (auto simp: driver_ok_def)
  with poll_driver poll_timeout_panics [OF poll_driver(5)] assms(3) show ?thesis
    by (auto simp: poison_ok_def after_poll_def split: sum.splits)
qed (use assms(3) in \<open>auto simp: poison_ok_def\<close>)

lemma failing_start_ok:
  assumes "failing_start q0 n f"
  shows "driver_ok n f" "poison_ok f"
  using assms by (auto simp: failing_start_def failing_init_def sched_init_def driver_ok_def poison_ok_def)

interpretation fs: transition_system "failing_start q0 n" "failing_step po pl ll n" "\<lambda>f. driver_ok n f \<and> poison_ok f" for q0 n po pl ll
  by unfold_locales (blast intro: failing_start_ok, blast intro: driver_ok_step poison_ok_step)

text \<open>A poisoned driver is left alone.\<close>

lemma poisoned_step:
  assumes "failing_step po pl ll n f g" "driver_ok n f" "poison_ok f" "poisoned f"
  shows "poisoned g \<and> polls g = polls f \<and> dead g = dead f"
  using assms(1)
proof cases
  case (poll_driver w res events r)
  then have "iolock (base f) = Some w" using assms(2) by (auto simp: driver_ok_def)
  with assms(3,4) show ?thesis by (simp add: poison_ok_def)
qed (use assms(4) in auto)

lemma poisoned_steps:
  "steps (failing_step po pl ll n) f g \<Longrightarrow> driver_ok n f \<Longrightarrow> poison_ok f \<Longrightarrow> poisoned f \<Longrightarrow>
    poisoned g \<and> polls g = polls f \<and> dead g = dead f \<and> driver_ok n g \<and> poison_ok g"
proof (induction rule: steps.induct)
  case (steps_more f f1 g)
  from poisoned_step [OF steps_more(1) steps_more.prems] driver_ok_step [OF steps_more(1)] poison_ok_step [OF steps_more(1)]
  show ?case using steps_more by simp
qed simp

text \<open>As long as no poll has panicked, these are executions of the scheduler as \<^verbatim>\<open>Sched_Conc\<close> has it.\<close>

lemma unpoisoned_step:
  assumes "failing_step po pl ll n f g" "\<not> poisoned g"
  shows "\<not> poisoned f \<and> (base g = base f \<or> sched_step ll n (base f) (base g))"
  using assms(1)
proof cases
  case (poll_driver w res events r)
  then show ?thesis using assms(2) sched_step.poll_return [of w n "base f" ll] by (auto simp: after_poll_def split: sum.splits)
next
  case (try_lock_ok w)
  then show ?thesis using sched_step.io_lock [of w n "base f" ll] by simp
next
  case (try_lock_err w)
  then show ?thesis using assms(2) sched_step.io_busy [of w n "base f" ll] by simp
qed (use assms(2) in auto)

lemma failing_is_sched:
  assumes "failing_reaches po pl ll q0 n f" "\<not> poisoned f"
  shows "sched_reaches ll q0 n (base f)"
  using assms
proof (induction rule: reaches.induct)
  case (reaches_start f)
  then show ?case by (auto simp: failing_start_def failing_init_def sched_start_def intro: reaches.intros)
next
  case (reaches_step f g)
  with unpoisoned_step [OF reaches_step(2)] show ?case by (metis reaches.reaches_step)
qed

subsection \<open>A run\<close>

text \<open>
  Two workers, the first of which has died in its poll, and one thread that schedules, by what matters of their states: where the
  second worker and the thread stand, the lock of the parked workers, the global queue, the parked workers.
\<close>

definition failed ::
    "('p, ('l, 'w) scheduled_io) pool_ops \<Rightarrow> ('l, 'c, 'm, 'w) pin_list \<Rightarrow>
     wpc \<Rightarrow> spc \<Rightarrow> nat option \<Rightarrow> nat list \<Rightarrow> slot_map \<Rightarrow> worker list \<Rightarrow> (nat list, 'p) fsched \<Rightarrow> bool" where
  "failed po pl wp a lk q m ws f \<longleftrightarrow> failing_reaches po pl list_queue [] 2 f \<and> os_failed f \<and> dead f = {0} \<and> poisoned f \<and>
     wpc (base f) 0 = W_Poll \<and> wpc (base f) 1 = wp \<and> spc (base f) 0 = a \<and> (\<forall>t > 0. spc (base f) t = S_Out) \<and> plock (base f) = lk \<and>
     elems (local_queue (exec (base f) 1)) = [] \<and> worker_index (exec (base f) 1) = 1 \<and> global_queue (srt (base f)) = q \<and>
     parked_workers (srt (base f)) = m \<and> workers (srt (base f)) = Some ws \<and> returned (base f) 1 = 0 \<and> \<not> skipped (base f) \<and> \<not> spurious (base f)"

lemma failed_step:
  assumes "failed po pl wp a lk q m ws f" "failing_step po pl list_queue 2 f (f\<lparr>base := s'\<rparr>)" "wpc s' 0 = W_Poll" "wpc s' 1 = wp'" "spc s' 0 = a'"
    and "\<forall>t > 0. spc s' t = S_Out" "plock s' = lk'" "elems (local_queue (exec s' 1)) = []" "worker_index (exec s' 1) = 1" "global_queue (srt s') = q'"
    and "parked_workers (srt s') = m'" "workers (srt s') = Some ws'" "returned s' 1 = 0" "\<not> skipped s'" "\<not> spurious s'"
  shows "\<exists>f'. failed po pl wp' a' lk' q' m' ws' f'"
  by (rule exI [of _ "f\<lparr>base := s'\<rparr>"]) (use assms in \<open>auto simp: failed_def intro: reaches_step\<close>)

lemma failed_out: "failed po pl wp S_Out lk q m ws f \<Longrightarrow> spc (base f) t = S_Out"
  by (cases t) (simp_all add: failed_def)

text \<open>The first worker reaches its poll, and the poll fails.\<close>

lemma failed_start:
  fixes po :: "('p, ('l, 'w) scheduled_io) pool_ops" and pl :: "('l, 'c, 'm, 'w) pin_list"
  shows "\<exists>f. failed po pl W_Loop S_Out None [] (new_map 2) [awake 0, awake 0] f"
proof -
  let ?i = "failing_init [] 2 undefined :: (nat list, 'p) fsched"
  let ?s = "base ?i"
  obtain t e1 r1 where n: "next_task list_queue (count ?s 0 + 1) (exec ?s 0) (srt ?s) = (t, e1, r1)" by (metis prod_cases3)
  have q: "elems (local_queue (exec ?s 0)) = []" "global_queue (srt ?s) = []"
    by (simp_all add: failing_init_def sched_init_def with_capacity_def new_runtime_def)
  note N = next_task_lists [OF q(1) n] and F = next_task_frame [OF n]
  let ?s1 = "at_w 0 W_Idle (?s\<lparr>count := (count ?s)(0 := count ?s 0 + 1), exec := (exec ?s)(0 := e1), srt := r1, skipped := False\<rparr>)"
  let ?f1 = "?i\<lparr>base := ?s1\<rparr>"
  let ?f2 = "?f1\<lparr>base := at_w 0 W_Poll (?s1\<lparr>iolock := Some 0\<rparr>)\<rparr>"
  let ?e = "Inl (Io_Error Other_Error []) :: io_error + unit"
  let ?f3 = "after_poll 0 (Inl Unexpected_Error :: panic + io_driver \<times> 'p \<times> 'w list) (?f2\<lparr>os_failed := os_failed ?f2 \<or> unexpected ?e, polls := polls ?f2 + 1\<rparr>)"
  have "failing_reaches po pl list_queue [] 2 ?i" by (rule reaches_start) (auto simp: failing_start_def)
  moreover have "sched_step list_queue 2 ?s ?s1" using n N(1) q(2) by (intro loop_empty) (simp_all add: failing_init_def sched_init_def)
  then have "failing_step po pl list_queue 2 ?i ?f1" by (rule other_step) (simp add: failing_init_def sched_init_def)
  moreover have "failing_step po pl list_queue 2 ?f1 ?f2" using try_lock_ok [of 0 2 ?f1 po pl list_queue] by (simp add: failing_init_def sched_init_def)
  moreover have "failing_step po pl list_queue 2 ?f2 ?f3"
    by (rule poll_driver [where res = ?e and events = "[]"]) (simp_all add: failing_init_def poll_timeout_def Let_def)
  ultimately have "failing_reaches po pl list_queue [] 2 ?f3" by (blast intro: reaches_step)
  moreover have "workers (srt ?s) = Some [awake 0, awake 0]" "parked_workers (srt ?s) = new_map 2"
    by (simp_all add: failing_init_def sched_init_def new_runtime_def new_worker_def upt_rec)
  ultimately show ?thesis using N(3) q F
    by (intro exI [of _ ?f3]) (simp add: failed_def after_poll_def unexpected_def failing_init_def sched_init_def with_capacity_def)
qed

lemma failed_idles:
  assumes "failed po pl W_Loop a lk [] m ws f"
  shows "\<exists>f'. failed po pl W_Idle a lk [] m ws f'"
proof -
  let ?s = "base f"
  obtain t e1 r1 where n: "next_task list_queue (count ?s 1 + 1) (exec ?s 1) (srt ?s) = (t, e1, r1)" by (metis prod_cases3)
  have q: "elems (local_queue (exec ?s 1)) = []" "global_queue (srt ?s) = []" "wpc ?s 1 = W_Loop" using assms by (simp_all add: failed_def)
  note N = next_task_lists [OF q(1) n] and F = next_task_frame [OF n]
  let ?s' = "at_w 1 W_Idle (?s\<lparr>count := (count ?s)(1 := count ?s 1 + 1), exec := (exec ?s)(1 := e1), srt := r1, skipped := False\<rparr>)"
  have "sched_step list_queue 2 ?s ?s'" using n N(1) q(2,3) by (intro loop_empty) simp_all
  then have "failing_step po pl list_queue 2 f (f\<lparr>base := ?s'\<rparr>)" by (rule other_step) (use q(3) in auto)
  then show ?thesis by (rule failed_step [OF assms]) (use assms N F q(2) in \<open>simp_all add: failed_def\<close>)
qed

lemma failed_pushes:
  assumes "failed po pl wp S_Out None [] (new_map 2) ws f"
  shows "\<exists>f'. failed po pl wp S_Out None [x] (new_map 2) ws f'"
proof -
  have "\<exists>f'. failed po pl wp S_Queued None [x] (new_map 2) ws f'"
    by (rule failed_step [OF assms other_step [OF sched_push [of _ 0]]])
      (use assms in \<open>simp_all add: failed_def push_global_def list_queue_def\<close>)
  then obtain f1 where f1: "failed po pl wp S_Queued None [x] (new_map 2) ws f1" ..
  have "\<exists>f'. failed po pl wp S_Pop (Some 0) [x] (new_map 2) ws f'"
    by (rule failed_step [OF f1 other_step [OF sched_lock [of _ 0]]]) (use f1 in \<open>simp_all add: failed_def\<close>)
  then obtain f2 where f2: "failed po pl wp S_Pop (Some 0) [x] (new_map 2) ws f2" ..
  have p: "pop (parked_workers (srt (base f2))) = Inr (Slot_None, new_map 2)"
    using f2 by (simp add: failed_def new_map_def pop_def numeral_eq_Suc)
  have "\<exists>f'. failed po pl wp S_Unlock (Some 0) [x] (new_map 2) ws f'"
    by (rule failed_step [OF f2 other_step [OF pop_other [OF _ p, of 0]]]) (use f2 in \<open>simp_all add: failed_def\<close>)
  then obtain f3 where f3: "failed po pl wp S_Unlock (Some 0) [x] (new_map 2) ws f3" ..
  show ?thesis by (rule failed_step [OF f3 other_step [OF sched_unlock [of _ 0]]]) (use f3 in \<open>simp_all add: failed_def\<close>)
qed

lemma failed_parks:
  assumes "failed po pl W_Idle a lk q m [x, awake j] f" "push 1 m = Inr m1"
  shows "\<exists>f'. failed po pl W_Wait a lk q m1 [x, asleep j] f'"
proof -
  have "\<exists>f'. failed po pl W_Park a lk q m [x, awake j] f'"
    by (rule failed_step [OF assms(1) try_lock_err [of 1]]) (use assms(1) in \<open>simp_all add: failed_def\<close>)
  then obtain f1 where f1: "failed po pl W_Park a lk q m [x, awake j] f1" ..
  let ?s = "base f1"
  have "park (worker_index (exec ?s 1)) (srt ?s) = Inr ((srt ?s)\<lparr>parked_workers := m1, workers := Some [x, asleep j]\<rparr>)"
    using f1 assms(2) by (simp add: failed_def park_def)
  note park = park_worker [OF _ _ this, of 2 list_queue]
  show ?thesis by (rule failed_step [OF f1 other_step [OF park]]) (use f1 in \<open>simp_all add: failed_def\<close>)
qed

text \<open>As long as nobody schedules and no wait returns spuriously, the waiting worker and the dead one stay where they are.\<close>

lemma stranded_step:
  assumes "failed po pl W_Wait S_Out None q m [x, asleep 0] f" "failing_step po pl list_queue 2 a b" "spc (base b) = (\<lambda>_. S_Out)" "\<not> spurious (base b)"
    and "base a = base f" "dead a = dead f"
  shows "base b = base f \<and> dead b = dead f"
proof -
  have f: "wpc (base f) 0 = W_Poll" "wpc (base f) 1 = W_Wait" "dead f = {0}" "workers (srt (base f)) = Some [x, asleep 0]"
    "returned (base f) 1 = 0" "\<not> spurious (base f)" "\<And>t. spc (base f) t = S_Out"
    using assms(1) failed_out [OF assms(1)] by (simp_all add: failed_def)
  have np: "wpc (base f) w \<noteq> W_Loop" "wpc (base f) w \<noteq> W_Run" "wpc (base f) w \<noteq> W_Idle" "wpc (base f) w \<noteq> W_Events"
    "wpc (base f) w \<noteq> W_Park" "wpc (base f) w = W_Wait \<longleftrightarrow> w = 1" if "w < 2" for w using that f(1,2) by (auto simp: less_2_cases_iff)
  show ?thesis using assms(2)
  proof cases
    case (other_step s')
    have "spc s' = (\<lambda>_. S_Out)" using assms(3) other_step(1) by simp
    from other_step(2) [unfolded assms(5)] have False
    proof cases
      case (sched_push t y)
      then show False using \<open>spc s' = (\<lambda>_. S_Out)\<close> by (auto dest: fun_cong [of _ _ t])
    next
      case (poll_return w)
      then show False using other_step(3) f(1) assms(5) by auto
    next
      case (spurious_return w ws)
      then show False using assms(4) other_step(1) by simp
    next
      case (wait_return w ws)
      then have "ws = [x, asleep 0]" "w = 1" using np(6) f(4) by simp_all
      then show False using wait_return f(5) by simp
    next
      case (overlap m)
      then show False using f(6) by simp
    qed (use f(7) np(1-5) in simp_all)
    then show ?thesis ..
  next
    case (poll_driver w res events r)
    then have "w = 1" using f(3) assms(6) by (auto simp: less_2_cases_iff)
    with poll_driver(4) show ?thesis using f(2) assms(5) by simp
  qed (use assms(5,6) np in simp_all)
qed

lemma stranded_steps:
  assumes "steps (\<lambda>a b. failing_step po pl list_queue 2 a b \<and> spc (base b) = (\<lambda>_. S_Out) \<and> \<not> spurious (base b)) a b"
    and "failed po pl W_Wait S_Out None q m [x, asleep 0] f"
  shows "base a = base f \<Longrightarrow> dead a = dead f \<Longrightarrow> base b = base f"
  using assms(1) by (induction rule: steps.induct) (use stranded_step [OF assms(2)] in blast)+

subsection \<open>Properties\<close>

text \<open>
  C18: When a poll of the operating system has failed with an error other than Interrupted, a worker
  has ended in the panic of poll_timeout and the mutex of the driver is poisoned; from then on,
  under every interleaving, no other worker dies of it, the driver is never polled again, and no
  live worker is in a poll or handles its events.
\<close>

theorem driver_failure_stops_io:
  assumes "failing_reaches po pl ll q0 n f" "os_failed f" "steps (failing_step po pl ll n) f g"
  shows "poisoned g \<and> (\<exists>w < n. w \<in> dead g) \<and> dead g = dead f \<and> polls g = polls f \<and>
    (\<forall>v < n. v \<notin> dead g \<longrightarrow> wpc (base g) v \<noteq> W_Poll \<and> wpc (base g) v \<noteq> W_Events)"
proof -
  have f: "driver_ok n f" "poison_ok f" using fs.invar_reaches [OF assms(1)] by simp_all
  then have "poisoned f" using assms(2) by (simp add: poison_ok_def)
  from poisoned_steps [OF assms(3) f this] have g: "poisoned g" "polls g = polls f" "dead g = dead f" "driver_ok n g" "poison_ok g" by simp_all
  then have "iolock (base g) = None" "dead g \<noteq> {}" by (simp_all add: poison_ok_def)
  with g show ?thesis by (auto simp: driver_ok_def)
qed

theorem driver_failure_stops_io_witness:
  "\<exists>f :: (nat list, ((nat, nat) waiter list, nat) scheduled_io option list) fsched.
     failing_reaches slab list_pin_list list_queue [] 2 f \<and> os_failed f \<and> dead f = {0} \<and> wpc (base f) 1 = W_Loop \<and> (\<exists>w < 2. w \<in> dead f)"
proof -
  obtain f :: "(nat list, ((nat, nat) waiter list, nat) scheduled_io option list) fsched"
    where f: "failed slab list_pin_list W_Loop S_Out None [] (new_map 2) [awake 0, awake 0] f" using failed_start by blast
  note F = f [unfolded failed_def]
  have r: "failing_reaches slab list_pin_list list_queue [] 2 f" "os_failed f" using F by simp_all
  from driver_failure_stops_io [OF r steps_refl] have "\<exists>w < 2. w \<in> dead f" by simp
  with F show ?thesis by (intro exI [of _ f]) simp
qed

text \<open>
  C19: There is an execution with two workers in which, after such a failure, a task lies in the
  global queue, no thread is inside schedule_global, no thread has left because of a taken lock, and
  the other worker waits without having been notified; whatever happens next, the workers and the
  queues stay so until another task is scheduled or the wait returns spuriously.
\<close>

theorem driver_failure_strands_task:
  "\<exists>f. failing_reaches po pl list_queue [] 2 f \<and> os_failed f \<and> dead f = {0} \<and> plock (base f) = None \<and> \<not> skipped (base f) \<and>
     global_queue (srt (base f)) = [5] \<and> wpc (base f) 1 = W_Wait \<and> \<not> signalled (base f) 1 \<and> spc (base f) = (\<lambda>_. S_Out) \<and>
     {base g | g. steps (\<lambda>a b. failing_step po pl list_queue 2 a b \<and> spc (base b) = (\<lambda>_. S_Out) \<and> \<not> spurious (base b)) f g} = {base f}"
proof -
  let ?m = "\<lparr>tail = 2, head = 1, slots = [3, 3, 1]\<rparr>"
  let ?R = "\<lambda>a b. failing_step po pl list_queue 2 a b \<and> spc (base b) = (\<lambda>_. S_Out) \<and> \<not> spurious (base b)"
  obtain f0 where "failed po pl W_Loop S_Out None [] (new_map 2) [awake 0, awake 0] f0" using failed_start ..
  from failed_idles [OF this] obtain f1 where "failed po pl W_Idle S_Out None [] (new_map 2) [awake 0, awake 0] f1" ..
  from failed_pushes [OF this] obtain f2 where "failed po pl W_Idle S_Out None [5] (new_map 2) [awake 0, awake 0] f2" ..
  from failed_parks [OF this duo_slots(1)] obtain f where f: "failed po pl W_Wait S_Out None [5] ?m [awake 0, asleep 0] f" ..
  have out: "spc (base f) = (\<lambda>_. S_Out)" using failed_out [OF f] by (simp add: fun_eq_iff)
  have "base g = base f" if "steps ?R f g" for g
    using stranded_steps [OF that f] by simp
  then have "{base g | g. steps ?R f g} = {base f}" using steps_refl [of ?R f] by blast
  moreover have "\<not> signalled (base f) 1" using f by (simp add: failed_def signalled_def the_worker_def)
  ultimately show ?thesis using f out by (intro exI [of _ f]) (simp add: failed_def)
qed

end
