(* ===== verification/IO_Conc.thy ===== *)
theory IO_Conc
  imports Scheduled_IO
begin

text \<open>
  One \<^verbatim>\<open>ScheduledIo\<close> of \<^verbatim>\<open>src/src/io/mod.rs\<close> under interleaving: the driver that records events and wakes, a task that polls
  for each direction, any number of \<^verbatim>\<open>Readiness\<close> futures, and any number of threads that clear the readiness of an event
  they have seen. Each load and each compare-exchange of the readiness word, each acquisition of the lock of the waiters, each
  access of the slots and of the list under it and each wake of a task is one step. The list of waiters is what
  \<open>pin_list_spec\<close> describes. A poll or a future that returns an event is back outside; the thread that later clears this
  event is one that has seen it at that moment. The atomics are sequentially consistent here.
\<close>

datatype io_thread = L_Driver | L_Poller direction | L_Future nat

datatype 'w dpc =
    D_Idle
  | D_Load ready              \<comment> \<open>an event was delivered, before the load of the word\<close>
  | D_Cas ready usize         \<comment> \<open>before the compare-exchange\<close>
  | D_Lock ready              \<comment> \<open>the event is recorded, before the lock of the waiters\<close>
  | D_List ready "'w list"    \<comment> \<open>holds the lock, walks the list with the wakers it has collected\<close>
  | D_Full ready "'w list"    \<comment> \<open>the array was full: has released the lock, wakes, will continue\<close>
  | D_Fire "'w list"          \<comment> \<open>at the end of the list: has released the lock, wakes\<close>

datatype 'w ppc =
    P_Out
  | P_Load 'w                 \<comment> \<open>before the first load\<close>
  | P_Lock 'w                 \<comment> \<open>not ready, before the lock\<close>
  | P_Store 'w                \<comment> \<open>holds the lock, before the waker is stored\<close>
  | P_Reload 'w               \<comment> \<open>holds the lock, before the second load\<close>
  | P_Pending 'w              \<comment> \<open>the poll returned Pending\<close>

datatype 'w fpc =
    F_Out
  | F_Load 'w
  | F_Lock 'w
  | F_Reload 'w               \<comment> \<open>holds the lock\<close>
  | F_Push 'w                 \<comment> \<open>holds the lock, not ready at the second load\<close>
  | F_Wait 'w                 \<comment> \<open>state Waiting, before the lock\<close>
  | F_Check 'w                \<comment> \<open>state Waiting, holds the lock\<close>
  | F_Pending 'w              \<comment> \<open>the poll returned Pending\<close>
  | F_Done                    \<comment> \<open>state Done, before the load\<close>

datatype cpc =
    C_Out
  | C_Event ready_event       \<comment> \<open>has seen an event\<close>
  | C_Cas ready_event usize   \<comment> \<open>clearing it, before the compare-exchange\<close>

text \<open>
  \<open>rounds\<close> counts the rounds of the driver: its tick is their number modulo 256. The rest is history: the round in which the
  last event was recorded; for a clearing thread that has seen an event, the round in which that event was recorded, which may lie
  well before the one in which the thread saw it; and whether the waker of a pending poll was woken. The driver increments its
  tick before it first polls, so that the code has no events in round 0; the steps allow them too.
\<close>

record 'w io_conc =
  sched_io :: "((nat, 'w) waiter list, 'w) scheduled_io"
  wlock :: "io_thread option"
  dpc :: "'w dpc"
  rounds :: nat
  ppc :: "direction \<Rightarrow> 'w ppc"
  fpc :: "nat \<Rightarrow> 'w fpc"
  cpc :: "nat \<Rightarrow> cpc"
  recorded :: nat
  observed :: "nat \<Rightarrow> nat option"
  pwoken :: "direction \<Rightarrow> bool"
  fwoken :: "nat \<Rightarrow> bool"

definition io_init :: "'w io_conc" where
  "io_init =
     \<lparr>sched_io = default_scheduled_io [], wlock = None, dpc = D_Idle, rounds = 0, ppc = (\<lambda>_. P_Out), fpc = (\<lambda>_. F_Out),
      cpc = (\<lambda>_. C_Out), recorded = 0, observed = (\<lambda>_. None), pwoken = (\<lambda>_. False), fwoken = (\<lambda>_. False)\<rparr>"

abbreviation word :: "'w io_conc \<Rightarrow> usize" where
  "word s \<equiv> readiness (sched_io s)"

abbreviation set_word :: "usize \<Rightarrow> 'w io_conc \<Rightarrow> 'w io_conc" where
  "set_word x s \<equiv> s\<lparr>sched_io := (sched_io s)\<lparr>readiness := x\<rparr>\<rparr>"

abbreviation waiting :: "'w io_conc \<Rightarrow> (nat, 'w) waiter list" where
  "waiting s \<equiv> waiter_list (sched_io s)"

abbreviation set_waiting :: "(nat, 'w) waiter list \<Rightarrow> 'w io_conc \<Rightarrow> 'w io_conc" where
  "set_waiting l s \<equiv> s\<lparr>sched_io := (sched_io s)\<lparr>waiter_list := l\<rparr>\<rparr>"

abbreviation at_d :: "'w dpc \<Rightarrow> 'w io_conc \<Rightarrow> 'w io_conc" where
  "at_d c s \<equiv> s\<lparr>dpc := c\<rparr>"

abbreviation at_p :: "direction \<Rightarrow> 'w ppc \<Rightarrow> 'w io_conc \<Rightarrow> 'w io_conc" where
  "at_p d c s \<equiv> s\<lparr>ppc := (ppc s)(d := c)\<rparr>"

abbreviation at_f :: "nat \<Rightarrow> 'w fpc \<Rightarrow> 'w io_conc \<Rightarrow> 'w io_conc" where
  "at_f j c s \<equiv> s\<lparr>fpc := (fpc s)(j := c)\<rparr>"

abbreviation at_c :: "nat \<Rightarrow> cpc \<Rightarrow> 'w io_conc \<Rightarrow> 'w io_conc" where
  "at_c t c s \<equiv> s\<lparr>cpc := (cpc s)(t := c)\<rparr>"

definition fire :: "'w \<Rightarrow> 'w io_conc \<Rightarrow> 'w io_conc" where
  "fire w s = s\<lparr>pwoken := (\<lambda>d. pwoken s d \<or> ppc s d = P_Pending w), fwoken := (\<lambda>j. fwoken s j \<or> fpc s j = F_Pending w)\<rparr>"

definition without_closed :: "ready \<Rightarrow> ready" where
  "without_closed r = sub (sub r READ_CLOSED) WRITE_CLOSED"

inductive io_step :: "(nat \<Rightarrow> interest) \<Rightarrow> 'w io_conc \<Rightarrow> 'w io_conc \<Rightarrow> bool" for fi :: "nat \<Rightarrow> interest" where
  next_round: "dpc s = D_Idle \<Longrightarrow> io_step fi s (s\<lparr>rounds := rounds s + 1\<rparr>)"
| deliver: "dpc s = D_Idle \<Longrightarrow> io_step fi s (at_d (D_Load (from_mio e)) s)"
| driver_load: "dpc s = D_Load r \<Longrightarrow> io_step fi s (at_d (D_Cas r (word s)) s)"
| driver_cas: "dpc s = D_Cas r cur \<Longrightarrow> word s = cur \<Longrightarrow>
    next_readiness (Tick_Set (of_nat (rounds s))) (\<lambda>c. bitor c r) cur = Inr (Some y) \<Longrightarrow>
    io_step fi s (at_d (D_Lock r) (set_word y (s\<lparr>recorded := rounds s\<rparr>)))"
| driver_retry: "dpc s = D_Cas r cur \<Longrightarrow> word s \<noteq> cur \<Longrightarrow> io_step fi s (at_d (D_Cas r (word s)) s)"
| wake_lock: "dpc s = D_Lock r \<Longrightarrow> wlock s = None \<Longrightarrow>
    io_step fi s (at_d (D_List r (slot_wakers r (sched_io s))) (s\<lparr>wlock := Some L_Driver, sched_io := clear_slots r (sched_io s)\<rparr>))"
| wake_take: "dpc s = D_List r ws \<Longrightarrow> length ws \<noteq> WAKERS_CAP \<Longrightarrow> waiting s = x # rest \<Longrightarrow> satisfies r (waiter_interest x) \<Longrightarrow>
    io_step fi s (at_d (D_List r (ws @ [waiter_waker x])) (set_waiting rest s))"
| wake_spin: "dpc s = D_List r ws \<Longrightarrow> length ws \<noteq> WAKERS_CAP \<Longrightarrow> waiting s = x # rest \<Longrightarrow> \<not> satisfies r (waiter_interest x) \<Longrightarrow>
    io_step fi s s"
| wake_full: "dpc s = D_List r ws \<Longrightarrow> length ws = WAKERS_CAP \<Longrightarrow> io_step fi s (at_d (D_Full r ws) (s\<lparr>wlock := None\<rparr>))"
| wake_end: "dpc s = D_List r ws \<Longrightarrow> length ws \<noteq> WAKERS_CAP \<Longrightarrow> waiting s = [] \<Longrightarrow>
    io_step fi s (at_d (D_Fire ws) (s\<lparr>wlock := None\<rparr>))"
| fire_full: "dpc s = D_Full r (w # ws) \<Longrightarrow> io_step fi s (at_d (D_Full r ws) (fire w s))"
| wake_relock: "dpc s = D_Full r [] \<Longrightarrow> wlock s = None \<Longrightarrow> io_step fi s (at_d (D_List r []) (s\<lparr>wlock := Some L_Driver\<rparr>))"
| fire_last: "dpc s = D_Fire (w # ws) \<Longrightarrow> io_step fi s (at_d (D_Fire ws) (fire w s))"
| wake_done: "dpc s = D_Fire [] \<Longrightarrow> io_step fi s (at_d D_Idle s)"
| poll_start: "ppc s d = P_Out \<or> ppc s d = P_Pending v \<Longrightarrow> io_step fi s (at_p d (P_Load w) s)"
| poll_ready: "ppc s d = P_Load w \<Longrightarrow> load_fields (word s) = Inr (t, r, sd) \<Longrightarrow> \<not> (is_empty (bitand (direction_mask d) r) \<and> \<not> sd) \<Longrightarrow>
    io_step fi s (at_p d P_Out s)"
| poll_empty: "ppc s d = P_Load w \<Longrightarrow> load_fields (word s) = Inr (t, r, sd) \<Longrightarrow> is_empty (bitand (direction_mask d) r) \<and> \<not> sd \<Longrightarrow>
    io_step fi s (at_p d (P_Lock w) s)"
| poll_lock: "ppc s d = P_Lock w \<Longrightarrow> wlock s = None \<Longrightarrow> io_step fi s (at_p d (P_Store w) (s\<lparr>wlock := Some (L_Poller d)\<rparr>))"
| poll_store: "ppc s d = P_Store w \<Longrightarrow> io_step fi s (at_p d (P_Reload w) (s\<lparr>sched_io := store_waker d w (sched_io s)\<rparr>))"
| poll_reload_ready: "ppc s d = P_Reload w \<Longrightarrow> load_fields (word s) = Inr (t, r, sd) \<Longrightarrow> sd \<or> \<not> is_empty (bitand (direction_mask d) r) \<Longrightarrow>
    io_step fi s (at_p d P_Out (s\<lparr>wlock := None\<rparr>))"
| poll_pending: "ppc s d = P_Reload w \<Longrightarrow> load_fields (word s) = Inr (t, r, sd) \<Longrightarrow> \<not> (sd \<or> \<not> is_empty (bitand (direction_mask d) r)) \<Longrightarrow>
    io_step fi s (at_p d (P_Pending w) (s\<lparr>wlock := None, pwoken := (pwoken s)(d := False)\<rparr>))"
| fut_start: "fpc s j = F_Out \<Longrightarrow> io_step fi s (at_f j (F_Load w) s)"
| fut_ready: "fpc s j = F_Load w \<Longrightarrow> load_fields (word s) = Inr (t, r, sd) \<Longrightarrow> \<not> is_empty (intersection r (fi j)) \<or> sd \<Longrightarrow>
    io_step fi s (at_f j F_Out s)"
| fut_empty: "fpc s j = F_Load w \<Longrightarrow> load_fields (word s) = Inr (t, r, sd) \<Longrightarrow> \<not> (\<not> is_empty (intersection r (fi j)) \<or> sd) \<Longrightarrow>
    io_step fi s (at_f j (F_Lock w) s)"
| fut_lock: "fpc s j = F_Lock w \<Longrightarrow> wlock s = None \<Longrightarrow> io_step fi s (at_f j (F_Reload w) (s\<lparr>wlock := Some (L_Future j)\<rparr>))"
| fut_reload_ready: "fpc s j = F_Reload w \<Longrightarrow> load_fields (word s) = Inr (t, r, sd) \<Longrightarrow>
    \<not> is_empty (intersection (if sd then READY_ALL else r) (fi j)) \<or> sd \<Longrightarrow>
    io_step fi s (at_f j F_Out (s\<lparr>wlock := None\<rparr>))"
| fut_reload_empty: "fpc s j = F_Reload w \<Longrightarrow> load_fields (word s) = Inr (t, r, sd) \<Longrightarrow>
    \<not> (\<not> is_empty (intersection (if sd then READY_ALL else r) (fi j)) \<or> sd) \<Longrightarrow>
    io_step fi s (at_f j (F_Push w) s)"
| fut_push: "fpc s j = F_Push w \<Longrightarrow>
    io_step fi s (at_f j (F_Wait w) (set_waiting ((j, w, fi j) # waiting s) (s\<lparr>wlock := None\<rparr>)))"
| fut_again: "fpc s j = F_Pending v \<Longrightarrow> io_step fi s (at_f j (F_Wait w) s)"
| fut_check: "fpc s j = F_Wait w \<Longrightarrow> wlock s = None \<Longrightarrow> io_step fi s (at_f j (F_Check w) (s\<lparr>wlock := Some (L_Future j)\<rparr>))"
| fut_pending: "fpc s j = F_Check w \<Longrightarrow> j \<in> fst ` set (waiting s) \<Longrightarrow>
    io_step fi s (at_f j (F_Pending w) (set_waiting (map (\<lambda>(m, v, i). (m, if m = j then w else v, i)) (waiting s))
      (s\<lparr>wlock := None, fwoken := (fwoken s)(j := False)\<rparr>)))"
| fut_removed: "fpc s j = F_Check w \<Longrightarrow> j \<notin> fst ` set (waiting s) \<Longrightarrow> io_step fi s (at_f j F_Done (s\<lparr>wlock := None\<rparr>))"
| fut_done: "fpc s j = F_Done \<Longrightarrow> io_step fi s (at_f j F_Out s)"
| observe: "cpc s c = C_Out \<Longrightarrow> load_fields (word s) = Inr (t, r, sd) \<Longrightarrow>
    io_step fi s (at_c c (C_Event \<lparr>ev_tick = t, ev_ready = bitand m r, is_shutdown = sd\<rparr>) (s\<lparr>observed := (observed s)(c := Some (recorded s))\<rparr>))"
| keep: "cpc s c = C_Event ev \<Longrightarrow> io_step fi s (at_c c C_Out s)"
| clear_load: "cpc s c = C_Event ev \<Longrightarrow> io_step fi s (at_c c (C_Cas ev (word s)) s)"
| clear_stale: "cpc s c = C_Cas ev cur \<Longrightarrow>
    next_readiness (Tick_Clear (ev_tick ev)) (\<lambda>x. sub x (without_closed (ev_ready ev))) cur = Inr None \<Longrightarrow> io_step fi s (at_c c C_Out s)"
| clear_cas: "cpc s c = C_Cas ev cur \<Longrightarrow> word s = cur \<Longrightarrow>
    next_readiness (Tick_Clear (ev_tick ev)) (\<lambda>x. sub x (without_closed (ev_ready ev))) cur = Inr (Some y) \<Longrightarrow>
    io_step fi s (at_c c C_Out (set_word y s))"
| clear_retry: "cpc s c = C_Cas ev cur \<Longrightarrow> word s \<noteq> cur \<Longrightarrow>
    next_readiness (Tick_Clear (ev_tick ev)) (\<lambda>x. sub x (without_closed (ev_ready ev))) cur = Inr (Some y) \<Longrightarrow>
    io_step fi s (at_c c (C_Cas ev (word s)) s)"

abbreviation io_reaches :: "(nat \<Rightarrow> interest) \<Rightarrow> 'w io_conc \<Rightarrow> bool" where
  "io_reaches fi \<equiv> reaches (\<lambda>s. s = io_init) (io_step fi)"

subsection \<open>The invariant\<close>

text \<open>None of the flags is set in a readiness word.\<close>

definition quiet :: "flag set \<Rightarrow> usize \<Rightarrow> bool" where
  "quiet fs x \<longleftrightarrow> flags (from_usize x) \<inter> fs = {}"

fun event_ready :: "'w dpc \<Rightarrow> ready option" where
  "event_ready (D_Load r) = Some r"
| "event_ready (D_Cas r _) = Some r"
| "event_ready (D_Lock r) = Some r"
| "event_ready (D_List r _) = Some r"
| "event_ready (D_Full r _) = Some r"
| "event_ready _ = None"

text \<open>The wakers the driver has collected and not yet woken.\<close>

fun collected :: "'w dpc \<Rightarrow> 'w list" where
  "collected (D_List r ws) = ws"
| "collected (D_Full r ws) = ws"
| "collected (D_Fire ws) = ws"
| "collected _ = []"

text \<open>The driver will still look at the slot of a direction, at a waiter in the list.\<close>

fun will_take :: "direction \<Rightarrow> 'w dpc \<Rightarrow> bool" where
  "will_take d (D_Lock r) \<longleftrightarrow> flags r \<inter> flags (direction_mask d) \<noteq> {}"
| "will_take d _ \<longleftrightarrow> False"

fun will_walk :: "interest \<Rightarrow> 'w dpc \<Rightarrow> bool" where
  "will_walk i (D_Lock r) \<longleftrightarrow> satisfies r i"
| "will_walk i (D_List r _) \<longleftrightarrow> satisfies r i"
| "will_walk i (D_Full r _) \<longleftrightarrow> satisfies r i"
| "will_walk i _ \<longleftrightarrow> False"

definition word_ok :: "'w io_conc \<Rightarrow> bool" where
  "word_ok s \<longleftrightarrow> tick_of (word s) = of_nat (recorded s) \<and> \<not> shutdown_of (word s) \<and> recorded s \<le> rounds s \<and>
     (\<forall>r. event_ready (dpc s) = Some r \<longrightarrow> valid r)"

definition clears_ok :: "'w io_conc \<Rightarrow> bool" where
  "clears_ok s \<longleftrightarrow> (\<forall>c ev. cpc s c = C_Event ev \<or> (\<exists>cur. cpc s c = C_Cas ev cur) \<longrightarrow>
     (\<exists>k. observed s c = Some k \<and> ev_tick ev = of_nat k \<and> k \<le> recorded s))"

text \<open>Who holds the lock of the waiters.\<close>

fun d_holds :: "'w dpc \<Rightarrow> bool" where
  "d_holds (D_List r ws) = True" | "d_holds _ = False"

fun p_holds :: "'w ppc \<Rightarrow> bool" where
  "p_holds (P_Store w) = True" | "p_holds (P_Reload w) = True" | "p_holds _ = False"

fun f_holds :: "'w fpc \<Rightarrow> bool" where
  "f_holds (F_Reload w) = True" | "f_holds (F_Push w) = True" | "f_holds (F_Check w) = True" | "f_holds _ = False"

definition wlock_ok :: "'w io_conc \<Rightarrow> bool" where
  "wlock_ok s \<longleftrightarrow> (wlock s = Some L_Driver \<longleftrightarrow> d_holds (dpc s)) \<and> (\<forall>d. wlock s = Some (L_Poller d) \<longleftrightarrow> p_holds (ppc s d)) \<and>
     (\<forall>j. wlock s = Some (L_Future j) \<longleftrightarrow> f_holds (fpc s j))"

definition polls_ok :: "'w io_conc \<Rightarrow> bool" where
  "polls_ok s \<longleftrightarrow> (\<forall>d w. (ppc s d = P_Reload w \<longrightarrow> waker_slot d (sched_io s) = Some w) \<and>
     (ppc s d = P_Pending w \<longrightarrow> \<not> pwoken s d \<longrightarrow> w \<in> set (collected (dpc s)) \<or>
        waker_slot d (sched_io s) = Some w \<and> (quiet (flags (direction_mask d)) (word s) \<or> will_take d (dpc s))))"

text \<open>A future whose node may be in the list.\<close>

fun enlisted :: "'w fpc \<Rightarrow> bool" where
  "enlisted (F_Wait w) = True" | "enlisted (F_Check w) = True" | "enlisted (F_Pending w) = True" | "enlisted _ = False"

definition nodes_ok :: "(nat \<Rightarrow> interest) \<Rightarrow> 'w io_conc \<Rightarrow> bool" where
  "nodes_ok fi s \<longleftrightarrow> (\<forall>j w i. (j, w, i) \<in> set (waiting s) \<longrightarrow> i = fi j \<and> enlisted (fpc s j))"

definition futures_ok :: "(nat \<Rightarrow> interest) \<Rightarrow> 'w io_conc \<Rightarrow> bool" where
  "futures_ok fi s \<longleftrightarrow>
     (\<forall>j w i. (j, w, i) \<in> set (waiting s) \<longrightarrow> quiet (flags (from_interest i)) (word s) \<or> will_walk i (dpc s)) \<and>
     (\<forall>j w. fpc s j = F_Push w \<longrightarrow> quiet (flags (from_interest (fi j))) (word s) \<or> will_walk (fi j) (dpc s)) \<and>
     (\<forall>j w. fpc s j = F_Pending w \<longrightarrow> \<not> fwoken s j \<longrightarrow> w \<in> set (collected (dpc s)) \<or> (j, w, fi j) \<in> set (waiting s))"

subsection \<open>Every step keeps the invariant\<close>

lemma set_view:
  assumes "next_readiness (Tick_Set t) (\<lambda>c. bitor c r) cur = Inr (Some y)" "valid r"
  shows "flags (from_usize y) = flags (from_usize cur) \<union> flags r" "tick_of y = t" "\<not> shutdown_of y"
proof -
  have v: "valid (bitor (from_usize cur) r)" using assms(2) by (simp add: flag_simps)
  have "y = packed_word t (generation_of cur) (bitor (from_usize cur) r)" using assms(1) by (simp add: word_simps)
  with packed_word_view [OF generation_of_fits v] show "flags (from_usize y) = flags (from_usize cur) \<union> flags r" "tick_of y = t" "\<not> shutdown_of y"
    by (simp_all add: flag_simps)
qed

lemma clear_view:
  assumes "next_readiness (Tick_Clear t) (\<lambda>x. sub x m) cur = Inr (Some y)"
  shows "flags (from_usize y) = flags (from_usize cur) - flags m" "tick_of y = t" "tick_of cur = t" "\<not> shutdown_of y"
proof -
  have v: "valid (sub (from_usize cur) m)" by (simp add: flag_simps)
  show t: "tick_of cur = t" using assms by (simp add: word_simps split: if_splits)
  with assms have "y = packed_word t (generation_of cur) (sub (from_usize cur) m)" by (simp add: word_simps)
  with packed_word_view [OF generation_of_fits v] show "flags (from_usize y) = flags (from_usize cur) - flags m" "tick_of y = t" "\<not> shutdown_of y"
    by (simp_all add: flag_simps)
qed

lemma fire_frame [simp]:
  "sched_io (fire w s) = sched_io s" "wlock (fire w s) = wlock s" "dpc (fire w s) = dpc s" "rounds (fire w s) = rounds s" "ppc (fire w s) = ppc s"
  "fpc (fire w s) = fpc s" "cpc (fire w s) = cpc s" "recorded (fire w s) = recorded s" "observed (fire w s) = observed s"
  by (simp_all add: fire_def)

lemma clear_slots_frame [simp]:
  "readiness (clear_slots r x) = readiness x" "waiter_list (clear_slots r x) = waiter_list x"
  by (simp_all add: clear_slots_def)

lemma store_waker_other: "d \<noteq> d' \<Longrightarrow> waker_slot d' (store_waker d w x) = waker_slot d' x"
  by (cases d; cases d') (auto simp: waker_slot_def store_waker_def split: option.splits)

lemma slots_taken:
  assumes "valid r" "waker_slot d x = Some w"
  shows "if flags r \<inter> flags (direction_mask d) \<noteq> {} then w \<in> set (slot_wakers r x) else waker_slot d (clear_slots r x) = Some w"
  using assms by (cases d) (auto simp: waker_slot_def clear_slots_def slot_wakers_def flag_simps)

lemma word_ok_step:
  assumes "io_step fi s s'" "word_ok s" "clears_ok s"
  shows "word_ok s'"
  using assms(1)
proof cases
  case (driver_cas r cur y)
  then have "valid r" using assms(2) by (simp add: word_ok_def)
  with set_view [OF driver_cas(4)] assms(2) driver_cas show ?thesis by (simp add: word_ok_def)
next
  case (clear_cas c ev cur y)
  with clear_view [OF clear_cas(4)] assms(2) show ?thesis by (simp add: word_ok_def)
qed (use assms(2) in \<open>auto simp: word_ok_def\<close>)

lemma clears_ok_step:
  assumes "io_step fi s s'" "word_ok s" "clears_ok s"
  shows "clears_ok s'"
  using assms(1)
proof cases
  case (driver_cas r cur y)
  then show ?thesis using assms(2,3) by (fastforce simp: clears_ok_def word_ok_def)
next
  case (observe c t r sd m)
  then show ?thesis using assms(2,3) by (auto simp: clears_ok_def word_ok_def word_simps)
qed (use assms(3) in \<open>auto simp: clears_ok_def split: if_splits\<close>)

lemma wlock_ok_step:
  assumes "io_step fi s s'" "wlock_ok s"
  shows "wlock_ok s'"
proof -
  have D: "wlock s = Some L_Driver \<longleftrightarrow> d_holds (dpc s)" and P: "\<And>d. wlock s = Some (L_Poller d) \<longleftrightarrow> p_holds (ppc s d)"
    and F: "\<And>j. wlock s = Some (L_Future j) \<longleftrightarrow> f_holds (fpc s j)"
    using assms(2) by (simp_all add: wlock_ok_def)
  show ?thesis using assms(1)
  proof cases
    case (poll_start d v w)
    then show ?thesis using D P F P [of d] by (auto simp: wlock_ok_def)
  next
    case (poll_reload_ready d w t r sd)
    then have "wlock s = Some (L_Poller d)" using P [of d] by simp
    with poll_reload_ready show ?thesis by (auto simp: wlock_ok_def D [symmetric] P [symmetric] F [symmetric])
  next
    case (poll_pending d w t r sd)
    then have "wlock s = Some (L_Poller d)" using P [of d] by simp
    with poll_pending show ?thesis by (auto simp: wlock_ok_def D [symmetric] P [symmetric] F [symmetric])
  next
    case (fut_reload_ready j w t r sd)
    then have "wlock s = Some (L_Future j)" using F [of j] by simp
    with fut_reload_ready show ?thesis by (auto simp: wlock_ok_def D [symmetric] P [symmetric] F [symmetric])
  next
    case (fut_push j w)
    then have "wlock s = Some (L_Future j)" using F [of j] by simp
    with fut_push show ?thesis by (auto simp: wlock_ok_def D [symmetric] P [symmetric] F [symmetric])
  next
    case (fut_pending j w)
    then have "wlock s = Some (L_Future j)" using F [of j] by simp
    with fut_pending show ?thesis by (auto simp: wlock_ok_def D [symmetric] P [symmetric] F [symmetric])
  next
    case (fut_removed j w)
    then have "wlock s = Some (L_Future j)" using F [of j] by simp
    with fut_removed show ?thesis by (auto simp: wlock_ok_def D [symmetric] P [symmetric] F [symmetric])
  qed (use D P F in \<open>auto simp: wlock_ok_def\<close>)
qed


lemma waker_slot_frame [simp]:
  "waker_slot d (x\<lparr>waiter_list := l\<rparr>) = waker_slot d x" "waker_slot d (x\<lparr>readiness := y\<rparr>) = waker_slot d x"
  by (simp_all add: waker_slot_def split: direction.splits)

text \<open>The driver that takes the lock collects the slots its readiness covers.\<close>

lemma polls_ok_locked:
  assumes "wlock_ok s" "polls_ok s" "dpc s = D_Lock r" "wlock s = None" "valid r"
  shows "polls_ok (at_d (D_List r (slot_wakers r (sched_io s))) (s\<lparr>wlock := Some L_Driver, sched_io := clear_slots r (sched_io s)\<rparr>))"
proof -
  have W: "\<And>d w. ppc s d = P_Pending w \<Longrightarrow> \<not> pwoken s d \<Longrightarrow> w \<in> set (collected (dpc s)) \<or>
      waker_slot d (sched_io s) = Some w \<and> (quiet (flags (direction_mask d)) (word s) \<or> will_take d (dpc s))"
    using assms(2) by (auto simp: polls_ok_def)
  have "\<not> p_holds (ppc s d)" for d using assms(1,4) by (simp add: wlock_ok_def)
  then have "ppc s d \<noteq> P_Reload w" for d w by (metis p_holds.simps)
  moreover have "w \<in> set (slot_wakers r (sched_io s)) \<or> waker_slot d (clear_slots r (sched_io s)) = Some w \<and> quiet (flags (direction_mask d)) (word s)"
    if "ppc s d = P_Pending w" "\<not> pwoken s d" for d w
    using W [OF that] slots_taken [OF assms(5), of d "sched_io s" w] assms(3) by (auto split: if_splits)
  ultimately show ?thesis by (simp add: polls_ok_def)
qed

lemma polls_ok_step:
  assumes "io_step fi s s'" "word_ok s" "wlock_ok s" "polls_ok s"
  shows "polls_ok s'"
proof -
  have R: "\<And>d w. ppc s d = P_Reload w \<Longrightarrow> waker_slot d (sched_io s) = Some w"
    and W: "\<And>d w. ppc s d = P_Pending w \<Longrightarrow> \<not> pwoken s d \<Longrightarrow> w \<in> set (collected (dpc s)) \<or>
        waker_slot d (sched_io s) = Some w \<and> (quiet (flags (direction_mask d)) (word s) \<or> will_take d (dpc s))"
    using assms(4) by (auto simp: polls_ok_def)
  show ?thesis using assms(1)
  proof cases
    case (driver_cas r cur y)
    then have "valid r" using assms(2) by (simp add: word_ok_def)
    note V = set_view [OF driver_cas(4) this]
    have "quiet fs y \<or> flags r \<inter> fs \<noteq> {}" if "quiet fs (word s)" for fs using that V(1) driver_cas(3) by (auto simp: quiet_def)
    then show ?thesis using R W driver_cas(1,2) by (fastforce simp: polls_ok_def)
  next
    case (wake_lock r)
    then have "valid r" using assms(2) by (simp add: word_ok_def)
    with wake_lock polls_ok_locked [OF assms(3,4)] show ?thesis by simp
  next
    case (clear_cas c ev cur y)
    note V = clear_view [OF clear_cas(4)]
    have "quiet fs y" if "quiet fs (word s)" for fs using that V(1) clear_cas(3) by (auto simp: quiet_def)
    then show ?thesis using R W clear_cas(1) by (simp add: polls_ok_def) blast
  next
    case (poll_store d w)
    have "waker_slot d' (store_waker d w (sched_io s)) = (if d' = d then Some w else waker_slot d' (sched_io s))" for d'
      using store_waker_other [of d d' w "sched_io s"] by auto
    then show ?thesis using poll_store R W by (auto simp: polls_ok_def split: if_splits)
  next
    case (poll_pending d w t r sd)
    have "quiet (flags (direction_mask d)) (word s)"
      using poll_pending(3,4) is_empty_masked [of d "word s"] by (auto simp: word_simps quiet_def)
    then show ?thesis using poll_pending R W by (auto simp: polls_ok_def split: if_splits)
  next
    case (fire_full r w ws)
    then show ?thesis using R W by (auto simp: polls_ok_def fire_def)
  next
    case (fire_last w ws)
    then show ?thesis using R W by (auto simp: polls_ok_def fire_def)
  qed (use R W in \<open>auto simp: polls_ok_def split: if_splits\<close>)
qed

lemma nodes_ok_step:
  assumes "io_step fi s s'" "nodes_ok fi s"
  shows "nodes_ok fi s'"
proof -
  have N: "\<And>j w i. (j, w, i) \<in> set (waiting s) \<Longrightarrow> i = fi j" "\<And>j w i. (j, w, i) \<in> set (waiting s) \<Longrightarrow> enlisted (fpc s j)"
    using assms(2) by (auto simp: nodes_ok_def)
  show ?thesis using assms(1)
  proof cases
    case (wake_take r ws x rest)
    then have "y \<in> set (waiting s)" if "y \<in> set rest" for y using that by simp
    then show ?thesis using N wake_take(1) by (simp add: nodes_ok_def) blast
  next
    case (fut_removed j w)
    then have "\<And>w i. (j, w, i) \<notin> set (waiting s)" by force
    then show ?thesis using N fut_removed by (auto simp: nodes_ok_def)
  qed (use N in \<open>auto simp: nodes_ok_def dest: N split: if_splits\<close>)
qed

lemma is_empty_intersection: "is_empty (intersection (from_usize x) i) \<longleftrightarrow> quiet (flags (from_interest i)) x"
  by (simp add: is_empty_iff flag_simps quiet_def)

text \<open>A waiting future that finds its node listed stores the waker it was polled with.\<close>

lemma futures_ok_pending:
  assumes "nodes_ok fi s" "futures_ok fi s" "j \<in> fst ` set (waiting s)"
  shows "futures_ok fi (at_f j (F_Pending w) (set_waiting (map (\<lambda>(m, v, i). (m, if m = j then w else v, i)) (waiting s))
    (s\<lparr>wlock := None, fwoken := (fwoken s)(j := False)\<rparr>)))" (is "futures_ok fi ?s'")
proof -
  define M where "M = set (waiting ?s')"
  have M: "M = (\<lambda>(m, v, i). (m, if m = j then w else v, i)) ` set (waiting s)" unfolding M_def by simp
  obtain v i where v: "(j, v, i) \<in> set (waiting s)" using assms(3) by auto
  have old: "\<exists>v. (k, v, i) \<in> set (waiting s)" if "(k, u, i) \<in> M" for k u i using that by (force simp: M split: if_splits)
  have "(j, w, fi j) \<in> M" using v assms(1) unfolding M nodes_ok_def by force
  moreover have "(k, u, i) \<in> M" if "(k, u, i) \<in> set (waiting s)" "k \<noteq> j" for k u i using that unfolding M by force
  moreover have "word ?s' = word s" "dpc ?s' = dpc s" "fpc ?s' = (fpc s)(j := F_Pending w)" "fwoken ?s' = (fwoken s)(j := False)"
    by simp_all
  ultimately show ?thesis using old assms(2) unfolding futures_ok_def M_def [symmetric] by (simp split: if_splits) blast
qed

lemma futures_ok_step:
  assumes "io_step fi s s'" "word_ok s" "wlock_ok s" "nodes_ok fi s" "futures_ok fi s"
  shows "futures_ok fi s'"
proof -
  have E: "\<And>j w i. (j, w, i) \<in> set (waiting s) \<Longrightarrow> quiet (flags (from_interest i)) (word s) \<or> will_walk i (dpc s)"
    and Q: "\<And>j w. fpc s j = F_Push w \<Longrightarrow> quiet (flags (from_interest (fi j))) (word s) \<or> will_walk (fi j) (dpc s)"
    and W: "\<And>j w. fpc s j = F_Pending w \<Longrightarrow> \<not> fwoken s j \<Longrightarrow> w \<in> set (collected (dpc s)) \<or> (j, w, fi j) \<in> set (waiting s)"
    using assms(5) unfolding futures_ok_def by blast+
  have Lk: "\<And>j. wlock s = Some (L_Future j) \<longleftrightarrow> f_holds (fpc s j)" and Dk: "wlock s = Some L_Driver \<longleftrightarrow> d_holds (dpc s)"
    using assms(3) by (simp_all add: wlock_ok_def)
  show ?thesis using assms(1)
  proof cases
    case (driver_cas r cur y)
    then have v: "valid r" using assms(2) by (simp add: word_ok_def)
    note V = set_view [OF driver_cas(4) v]
    have "quiet (flags (from_interest i)) (word s') \<or> satisfies r i" if "quiet (flags (from_interest i)) (word s)" for i
      using that V(1) satisfies_iff [OF v, of i] driver_cas by (auto simp: quiet_def)
    then show ?thesis using E Q W driver_cas by (fastforce simp: futures_ok_def)
  next
    case (clear_cas c ev cur y)
    note V = clear_view [OF clear_cas(4)]
    have "quiet fs y" if "quiet fs (word s)" for fs using that V(1) clear_cas(3) by (auto simp: quiet_def)
    then show ?thesis using E Q W clear_cas(1) by (simp add: futures_ok_def) blast
  next
    case (wake_take r ws x rest)
    then show ?thesis using E Q W by (fastforce simp: futures_ok_def)
  next
    case (wake_end r ws)
    have "fpc s j \<noteq> F_Push w" for j w using Lk [of j] Dk wake_end(2) by auto
    then show ?thesis using E Q W wake_end by (auto simp: futures_ok_def)
  next
    case (fut_reload_empty j w t r sd)
    then have "quiet (flags (from_interest (fi j))) (word s)"
      using is_empty_intersection [of "word s" "fi j"] by (auto simp: word_simps)
    then show ?thesis using E Q W fut_reload_empty by (simp add: futures_ok_def) blast
  next
    case (fut_pending j w)
    then show ?thesis using futures_ok_pending [OF assms(4,5)] by simp
  next
    case (fire_full r w ws)
    then show ?thesis using E Q W by (simp add: futures_ok_def fire_def) blast
  next
    case (fire_last w ws)
    then show ?thesis using E Q W by (simp add: futures_ok_def fire_def) blast
  next
    case (wake_lock r)
    then show ?thesis using E Q W by (simp add: futures_ok_def)
  qed (use E Q W in \<open>fastforce simp: futures_ok_def split: if_splits\<close>)+
qed


definition io_inv :: "(nat \<Rightarrow> interest) \<Rightarrow> 'w io_conc \<Rightarrow> bool" where
  "io_inv fi s \<longleftrightarrow> word_ok s \<and> clears_ok s \<and> wlock_ok s \<and> polls_ok s \<and> nodes_ok fi s \<and> futures_ok fi s"

lemma io_inv_init: "io_inv fi io_init"
  by (simp add: io_inv_def word_ok_def clears_ok_def wlock_ok_def polls_ok_def nodes_ok_def futures_ok_def io_init_def
      default_scheduled_io_def tick_of_def shutdown_of_def)

interpretation ioc: transition_system "\<lambda>s. s = io_init" "io_step fi" "io_inv fi" for fi
proof unfold_locales
  show "io_inv fi s" if "s = io_init" for s :: "'a io_conc" using that io_inv_init by simp
  show "io_inv fi t" if "io_inv fi s" "io_step fi s t" for s t :: "'a io_conc"
    using that word_ok_step clears_ok_step wlock_ok_step polls_ok_step nodes_ok_step futures_ok_step unfolding io_inv_def by metis
qed

lemma io_reachable:
  assumes "io_reaches fi s"
  shows "word_ok s" "clears_ok s" "wlock_ok s" "polls_ok s" "nodes_ok fi s" "futures_ok fi s"
  using ioc.invar_reaches [OF assms] by (simp_all add: io_inv_def)

lemma tick_eq:
  assumes "(of_nat a :: u8) = of_nat b" "b \<le> a" "a < b + 256"
  shows "a = b"
proof -
  have "unat (of_nat a :: u8) = unat (of_nat b :: u8)" using assms(1) by simp
  then have "a mod 256 = b mod 256" by (simp add: unat_of_nat)
  then obtain k where "a = b + 256 * k" using assms(2) by (metis mod_eq_nat1E)
  with assms(3) show ?thesis by (cases k) simp_all
qed

subsection \<open>Runs of one thread\<close>

lemma fire_others: "ppc s d = P_Pending w \<Longrightarrow> pwoken (fire w s) d" "pwoken s d \<Longrightarrow> pwoken (fire v s) d"
  "fpc s j = F_Pending w \<Longrightarrow> fwoken (fire w s) j" "fwoken s j \<Longrightarrow> fwoken (fire v s) j"
  by (simp_all add: fire_def)

text \<open>What the driver leaves alone while it wakes.\<close>

definition same_polls :: "'w io_conc \<Rightarrow> 'w io_conc \<Rightarrow> bool" where
  "same_polls s s' \<longleftrightarrow> rounds s' = rounds s \<and> ppc s' = ppc s \<and> fpc s' = fpc s \<and> cpc s' = cpc s \<and> recorded s' = recorded s \<and>
     observed s' = observed s \<and> (\<forall>d. pwoken s d \<longrightarrow> pwoken s' d) \<and> (\<forall>j. fwoken s j \<longrightarrow> fwoken s' j)"

definition woken_all :: "'w set \<Rightarrow> 'w io_conc \<Rightarrow> bool" where
  "woken_all ws s \<longleftrightarrow> (\<forall>w \<in> ws. (\<forall>d. ppc s d = P_Pending w \<longrightarrow> pwoken s d) \<and> (\<forall>j. fpc s j = F_Pending w \<longrightarrow> fwoken s j))"

lemma same_polls_trans: "same_polls s t \<Longrightarrow> same_polls t u \<Longrightarrow> same_polls s u"
  by (simp add: same_polls_def)

lemma woken_all_mono: "woken_all ws s \<Longrightarrow> same_polls s t \<Longrightarrow> woken_all ws t"
  by (auto simp: same_polls_def woken_all_def)

lemma fire_same: "same_polls s (fire w s)" "woken_all {w} (fire w s)"
  by (auto simp: same_polls_def woken_all_def fire_def)

lemma fire_steps:
  assumes "\<And>v vs s. dpc s = D (v # vs) \<Longrightarrow> io_step fi s (at_d (D vs) (fire v s))" "dpc s = D ws"
  shows "\<exists>s'. steps (io_step fi) s s' \<and> dpc s' = D [] \<and> sched_io s' = sched_io s \<and> wlock s' = wlock s \<and> same_polls s s' \<and> woken_all (set ws) s'"
  using assms(2)
proof (induction ws arbitrary: s)
  case Nil
  then show ?case by (intro exI [of _ s]) (auto simp: same_polls_def woken_all_def intro: steps.intros)
next
  case (Cons w ws)
  let ?s = "at_d (D ws) (fire w s)"
  have a: "same_polls s ?s" "woken_all {w} ?s" using fire_same(1) [of s w] fire_same(2) [of w s] by (simp_all add: same_polls_def woken_all_def)
  obtain s' where s': "steps (io_step fi) ?s s'" "dpc s' = D []" "sched_io s' = sched_io ?s" "wlock s' = wlock ?s" "same_polls ?s s'" "woken_all (set ws) s'"
    using Cons.IH [of ?s] by auto
  have "woken_all (set (w # ws)) s'" using s'(5,6) woken_all_mono [OF a(2) s'(5)] by (simp add: woken_all_def)
  then show ?case using s' steps_more [OF assms(1) [OF Cons.prems] s'(1)] same_polls_trans [OF a(1) s'(5)]
    by (intro exI [of _ s']) simp
qed

text \<open>A full array is fired with the lock released, then the walk goes on; an empty list ends it.\<close>

lemma full_steps:
  assumes "dpc s = D_List r ws" "length ws = WAKERS_CAP"
  shows "\<exists>v. steps (io_step fi) s (at_d (D_List r []) (v\<lparr>wlock := Some L_Driver\<rparr>)) \<and> sched_io v = sched_io s \<and> same_polls s v \<and> woken_all (set ws) v"
proof -
  let ?u = "at_d (D_Full r ws) (s\<lparr>wlock := None\<rparr>)"
  have u: "io_step fi s ?u" using assms by (rule wake_full)
  obtain v where v: "steps (io_step fi) ?u v" "dpc v = D_Full r []" "sched_io v = sched_io s" "wlock v = None" "same_polls ?u v" "woken_all (set ws) v"
    using fire_steps [where D = "D_Full r" and s = ?u and ws = ws and fi = fi, OF fire_full] by auto
  have "steps (io_step fi) s (at_d (D_List r []) (v\<lparr>wlock := Some L_Driver\<rparr>))"
    using u v(1) wake_relock [OF v(2,4)] by (meson steps_more steps_refl steps_trans)
  moreover have "same_polls s v" using v(5) by (simp add: same_polls_def)
  ultimately show ?thesis using v(3,6) by blast
qed

lemma end_steps:
  assumes "dpc s = D_List r ws" "length ws \<noteq> WAKERS_CAP" "waiting s = []"
  shows "\<exists>s'. steps (io_step fi) s s' \<and> dpc s' = D_Idle \<and> wlock s' = None \<and> sched_io s' = (sched_io s)\<lparr>waiter_list := []\<rparr> \<and> same_polls s s' \<and>
    woken_all (set ws) s'"
proof -
  let ?u = "at_d (D_Fire ws) (s\<lparr>wlock := None\<rparr>)"
  have u: "io_step fi s ?u" using assms by (rule wake_end)
  obtain v where v: "steps (io_step fi) ?u v" "dpc v = D_Fire []" "sched_io v = sched_io s" "wlock v = None" "same_polls ?u v" "woken_all (set ws) v"
    using fire_steps [where D = D_Fire and s = ?u and ws = ws and fi = fi, OF fire_last] by auto
  let ?x = "at_d D_Idle v"
  have "steps (io_step fi) s ?x" using u v(1) wake_done [OF v(2)] by (meson steps_more steps_refl steps_trans)
  moreover have "same_polls s ?x" "woken_all (set ws) ?x" using v(5,6) by (simp_all add: same_polls_def woken_all_def)
  moreover have "sched_io s = (sched_io s)\<lparr>waiter_list := []\<rparr>" using assms(3) by (cases "sched_io s") simp
  ultimately show ?thesis using v(3,4) by (intro exI [of _ ?x]) simp
qed

lemma walk_steps:
  assumes "dpc s = D_List r ws" "length ws \<le> WAKERS_CAP" "wlock s = Some L_Driver" "\<forall>x \<in> set (waiting s). satisfies r (waiter_interest x)"
  shows "\<exists>s'. steps (io_step fi) s s' \<and> dpc s' = D_Idle \<and> wlock s' = None \<and> sched_io s' = (sched_io s)\<lparr>waiter_list := []\<rparr> \<and> same_polls s s' \<and>
    woken_all (set ws \<union> waiter_waker ` set (waiting s)) s'"
  using assms
proof (induction "2 * length (waiting s) + (if length ws = WAKERS_CAP then 1 else 0)" arbitrary: s ws rule: less_induct)
  case less
  consider "length ws = WAKERS_CAP" | "length ws \<noteq> WAKERS_CAP" "waiting s = []" | y ys where "length ws \<noteq> WAKERS_CAP" "waiting s = y # ys"
    by (meson neq_Nil_conv)
  then show ?case
  proof cases
    case 1
    obtain v where v: "steps (io_step fi) s (at_d (D_List r []) (v\<lparr>wlock := Some L_Driver\<rparr>))" "sched_io v = sched_io s" "same_polls s v" "woken_all (set ws) v"
      using full_steps [OF less.prems(1) 1] by blast
    let ?x = "at_d (D_List r []) (v\<lparr>wlock := Some L_Driver\<rparr>)"
    have "2 * length (waiting ?x) + (if length [] = WAKERS_CAP then 1 else 0) < 2 * length (waiting s) + (if length ws = WAKERS_CAP then 1 else 0)"
      using v(2) 1 by (simp add: WAKERS_CAP_def)
    from less.hyps [OF this] obtain s' where s': "steps (io_step fi) ?x s'" "dpc s' = D_Idle" "wlock s' = None"
      "sched_io s' = (sched_io s)\<lparr>waiter_list := []\<rparr>" "same_polls ?x s'" "woken_all (waiter_waker ` set (waiting s)) s'"
      using less.prems v(2) by auto
    have sp: "same_polls v s'" using s'(5) by (simp add: same_polls_def)
    have "woken_all (set ws \<union> waiter_waker ` set (waiting s)) s'"
      using s'(6) woken_all_mono [OF v(4) sp] unfolding woken_all_def by blast
    then show ?thesis using s' same_polls_trans [OF v(3) sp] steps_trans [OF v(1) s'(1)] by blast
  next
    case 2
    with end_steps [OF less.prems(1)] show ?thesis by simp
  next
    case (3 y ys)
    let ?u = "at_d (D_List r (ws @ [waiter_waker y])) (set_waiting ys s)"
    have u: "io_step fi s ?u" using less.prems(1,4) 3 by (intro wake_take) auto
    have "2 * length (waiting ?u) + (if length (ws @ [waiter_waker y]) = WAKERS_CAP then 1 else 0) < 2 * length (waiting s) + (if length ws = WAKERS_CAP then 1 else 0)"
      using 3 by simp
    from less.hyps [OF this] obtain s' where s': "steps (io_step fi) ?u s'" "dpc s' = D_Idle" "wlock s' = None"
      "sched_io s' = (sched_io ?u)\<lparr>waiter_list := []\<rparr>" "same_polls ?u s'"
      "woken_all (set (ws @ [waiter_waker y]) \<union> waiter_waker ` set ys) s'"
      using less.prems 3 by auto
    have "woken_all (set ws \<union> waiter_waker ` set (waiting s)) s'" using s'(6) 3 by (simp add: insert_commute)
    moreover have "same_polls s s'" using s'(5) by (simp add: same_polls_def)
    ultimately show ?thesis using s' steps_more [OF u s'(1)] by (intro exI [of _ s']) simp
  qed
qed


lemma event_steps:
  assumes "dpc s = D_Idle" "wlock s = None" "\<forall>x \<in> set (waiting s). satisfies (from_mio e) (waiter_interest x)"
  shows "\<exists>s' sio1 woken. steps (io_step fi) s s' \<and> set_readiness (Tick_Set (of_nat (rounds s))) (\<lambda>c. bitor c (from_mio e)) (sched_io s) = Inr sio1 \<and>
    wake list_pin_list (from_mio e) sio1 = Some (Inr (sched_io s', woken)) \<and> dpc s' = D_Idle \<and> wlock s' = None \<and>
    same_polls (s\<lparr>recorded := rounds s\<rparr>) s' \<and> woken_all (set woken) s' \<and> readiness (sched_io s') = readiness sio1"
proof -
  let ?r = "from_mio e"
  obtain y where y: "next_readiness (Tick_Set (of_nat (rounds s))) (\<lambda>c. bitor c ?r) (word s) = Inr (Some y)"
    by (simp add: word_simps)
  let ?a = "at_d (D_Load ?r) s"
  let ?b = "at_d (D_Cas ?r (word s)) ?a"
  let ?c = "at_d (D_Lock ?r) (set_word y (?b\<lparr>recorded := rounds ?b\<rparr>))"
  let ?d = "at_d (D_List ?r (slot_wakers ?r (sched_io ?c))) (?c\<lparr>wlock := Some L_Driver, sched_io := clear_slots ?r (sched_io ?c)\<rparr>)"
  have a: "io_step fi s ?a" by (rule deliver [OF assms(1)])
  have b: "io_step fi ?a ?b" using driver_load [of ?a ?r fi] by simp
  have c: "io_step fi ?b ?c" using y by (intro driver_cas [where cur = "word s"]) simp_all
  have d: "io_step fi ?c ?d" using assms(2) by (intro wake_lock) simp_all
  have l: "dpc ?d = D_List ?r (slot_wakers ?r (sched_io ?c))" "length (slot_wakers ?r (sched_io ?c)) \<le> WAKERS_CAP" "wlock ?d = Some L_Driver"
    "\<forall>x \<in> set (waiting ?d). satisfies ?r (waiter_interest x)"
    using slot_wakers_short [of ?r "sched_io ?c"] assms(3) by simp_all
  obtain s' where s': "steps (io_step fi) ?d s'" "dpc s' = D_Idle" "wlock s' = None" "sched_io s' = (sched_io ?d)\<lparr>waiter_list := []\<rparr>" "same_polls ?d s'"
    "woken_all (set (slot_wakers ?r (sched_io ?c)) \<union> waiter_waker ` set (waiting ?d)) s'"
    using walk_steps [OF l] by blast
  have set: "set_readiness (Tick_Set (of_nat (rounds s))) (\<lambda>c. bitor c ?r) (sched_io s) = Inr (sched_io ?c)"
    using y by (simp add: set_readiness_def)
  obtain x where x: "wake list_pin_list ?r (sched_io ?c) = Some (Inr (x, slot_wakers ?r (sched_io ?c) @ map waiter_waker (waiting ?c)))"
    "waiter_list x = []" "reader x = reader (sched_io ?d)" "writer x = writer (sched_io ?d)" "readiness x = readiness (sched_io ?c)"
    using wake_all [OF list_pin_list_spec, of "sched_io ?c" ?r] assms(3) by (auto simp: clear_slots_def)
  have "sched_io s' = x" using s'(4) x(2-5) by simp
  with x(1) have w: "wake list_pin_list ?r (sched_io ?c) = Some (Inr (sched_io s', slot_wakers ?r (sched_io ?c) @ map waiter_waker (waiting ?c)))" by simp
  have "steps (io_step fi) s s'" using a b c d s'(1) by (meson steps_more)
  moreover have "same_polls (s\<lparr>recorded := rounds s\<rparr>) s'" using s'(5) by (simp add: same_polls_def)
  moreover have "woken_all (set (slot_wakers ?r (sched_io ?c) @ map waiter_waker (waiting ?c))) s'" using s'(6) by simp
  moreover have "readiness (sched_io s') = readiness (sched_io ?c)" using s'(4) by simp
  ultimately show ?thesis using set w s'(2,3) by blast
qed

lemma poll_readiness_total: "\<exists>res x1. poll_readiness w d x = Inr (res, x1)"
  by (simp add: poll_readiness_def poll_readiness_loads_def word_simps Let_def)

lemma poll_steps:
  assumes "ppc s d = P_Out \<or> ppc s d = P_Pending v" "wlock s = None" "poll_readiness w d (sched_io s) = Inr (res, sio1)"
  shows "\<exists>s'. steps (io_step fi) s s' \<and> sched_io s' = sio1 \<and> ppc s' = (ppc s)(d := if res = Poll_Pending then P_Pending w else P_Out) \<and>
    wlock s' = None \<and> dpc s' = dpc s \<and> (res = Poll_Pending \<longrightarrow> \<not> pwoken s' d)"
proof -
  let ?e = "\<lambda>x. is_empty (bitand (direction_mask d) (from_usize x)) \<and> \<not> shutdown_of x"
  let ?a = "at_p d (P_Load w) s"
  have a: "io_step fi s ?a" by (rule poll_start [OF assms(1)])
  show ?thesis
  proof (cases "?e (word s)")
    case False
    then have r: "res \<noteq> Poll_Pending" "sio1 = sched_io s" using assms(3)
      by (auto simp: poll_readiness_def poll_readiness_loads_def word_simps Let_def split: if_splits)
    have "io_step fi ?a (at_p d P_Out ?a)" using False by (intro poll_ready [where w = w]) (simp_all add: word_simps)
    with a have "steps (io_step fi) s (at_p d P_Out ?a)" by (meson steps.intros)
    then show ?thesis using r assms(2) by (intro exI [of _ "at_p d P_Out ?a"]) simp
  next
    case True
    then have r: "res = Poll_Pending" "sio1 = store_waker d w (sched_io s)" using assms(3)
      by (auto simp: poll_readiness_def poll_readiness_loads_def word_simps Let_def split: if_splits)
    let ?b = "at_p d (P_Lock w) ?a"
    let ?c = "at_p d (P_Store w) (?b\<lparr>wlock := Some (L_Poller d)\<rparr>)"
    let ?f = "at_p d (P_Reload w) (?c\<lparr>sched_io := store_waker d w (sched_io ?c)\<rparr>)"
    let ?g = "at_p d (P_Pending w) (?f\<lparr>wlock := None, pwoken := (pwoken ?f)(d := False)\<rparr>)"
    have "io_step fi ?a ?b" using True by (intro poll_empty) (simp_all add: word_simps)
    moreover have "io_step fi ?b ?c" using assms(2) by (intro poll_lock) simp_all
    moreover have "io_step fi ?c ?f" by (intro poll_store) simp
    moreover have "io_step fi ?f ?g" using True by (intro poll_pending [OF _ load_fields_total]) simp_all
    ultimately have "steps (io_step fi) s ?g" using a by (meson steps.intros)
    then show ?thesis using r by (intro exI [of _ ?g]) simp
  qed
qed

subsection \<open>A tick that comes around\<close>

text \<open>States between two events of a source nobody waits for.\<close>

definition calm :: "(nat \<Rightarrow> interest) \<Rightarrow> 'w io_conc \<Rightarrow> bool" where
  "calm fi s \<longleftrightarrow> io_reaches fi s \<and> dpc s = D_Idle \<and> wlock s = None \<and> waiting s = []"

lemma calm_init: "calm fi io_init"
  by (simp add: calm_def io_init_def default_scheduled_io_def reaches_start)

lemma calm_rounds:
  assumes "calm fi s"
  shows "calm fi (s\<lparr>rounds := rounds s + n\<rparr>)"
proof (induction n)
  case 0
  then show ?case using assms by simp
next
  case (Suc n)
  let ?s = "s\<lparr>rounds := rounds s + n\<rparr>"
  have "io_step fi ?s (?s\<lparr>rounds := rounds ?s + 1\<rparr>)" using Suc by (intro next_round) (simp add: calm_def)
  then show ?case using Suc by (auto simp: calm_def intro: reaches_step)
qed

lemma calm_event:
  fixes s :: "'w io_conc"
  assumes "calm fi s"
  shows "\<exists>s' :: 'w io_conc. calm fi s' \<and> rounds s' = rounds s \<and> recorded s' = rounds s \<and> cpc s' = cpc s \<and> observed s' = observed s \<and>
    flags (from_usize (word s')) = flags (from_usize (word s)) \<union> flags (from_mio e) \<and> tick_of (word s') = of_nat (rounds s)"
proof -
  obtain s' x woken where s': "steps (io_step fi) s s'" "set_readiness (Tick_Set (of_nat (rounds s))) (\<lambda>c. bitor c (from_mio e)) (sched_io s) = Inr x"
    "wake list_pin_list (from_mio e) x = Some (Inr (sched_io s', woken))" "dpc s' = D_Idle" "wlock s' = None" "same_polls (s\<lparr>recorded := rounds s\<rparr>) s'"
    "readiness (sched_io s') = readiness x"
    using event_steps [of s e fi] assms by (auto simp: calm_def)
  have x: "next_readiness (Tick_Set (of_nat (rounds s))) (\<lambda>c. bitor c (from_mio e)) (word s) = Inr (Some (readiness x))" "waiter_list x = []"
    using s'(2) assms by (auto simp: set_readiness_def word_simps calm_def)
  note V = set_view [OF x(1) valid_from_mio]
  have "waiting s' = []" using wake_all [OF list_pin_list_spec, of x "from_mio e"] s'(3) x(2) by auto
  moreover have "io_reaches fi s'" using reaches_steps [OF s'(1)] assms by (simp add: calm_def)
  ultimately show ?thesis using s'(4-7) V(1,2) by (intro exI [of _ s']) (simp add: calm_def same_polls_def)
qed

lemma clear_run:
  "\<exists>(s :: 'w io_conc) s' c ev. io_reaches fi s \<and> io_step fi s s' \<and> dpc s = D_Idle \<and> cpc s c = C_Cas ev (word s) \<and> cpc s' c = C_Out \<and>
     observed s c = Some 1 \<and> recorded s = 1 + 256 * k \<and> rounds s = recorded s \<and> (\<forall>b. cpc s b \<noteq> C_Out \<longrightarrow> b = c) \<and>
     Readable \<in> flags (ev_ready ev) \<and> Readable \<in> flags (from_usize (word s)) \<and> Readable \<notin> flags (from_usize (word s'))"
proof -
  let ?e = "\<lparr>token = 0, ev_readable = True, ev_writable = False, ev_read_closed = False, ev_write_closed = False\<rparr>"
  have "f \<in> flags (from_mio ?e) \<longleftrightarrow> f = Readable" for f by (cases f) (simp_all add: flag_simps)
  then have e: "flags (from_mio ?e) = {Readable}" by blast
  have i: "calm fi ((io_init :: 'w io_conc)\<lparr>rounds := 1\<rparr>)" using calm_rounds [OF calm_init, of fi 1] by (simp add: io_init_def)
  obtain s1 :: "'w io_conc" where s1: "calm fi s1" "rounds s1 = 1" "recorded s1 = 1" "cpc s1 = (\<lambda>_. C_Out)"
    "Readable \<in> flags (from_usize (word s1))" "tick_of (word s1) = 1"
    using calm_event [OF i, of ?e] e by (auto simp: io_init_def)
  let ?ev = "\<lparr>ev_tick = tick_of (word s1), ev_ready = bitand (direction_mask Read) (from_usize (word s1)), is_shutdown = shutdown_of (word s1)\<rparr>"
  let ?s2 = "at_c 0 (C_Event ?ev) (s1\<lparr>observed := (observed s1)(0 := Some (recorded s1))\<rparr>)"
  have "io_step fi s1 ?s2" using s1(4) by (intro observe) (simp_all add: word_simps)
  then have "calm fi ?s2" using s1(1) by (auto simp: calm_def intro: reaches_step)
  from calm_event [OF calm_rounds [OF this, of "256 * k"], of ?e] obtain s3 :: "'w io_conc" where s3: "calm fi s3" "rounds s3 = recorded s3"
    "\<forall>b. cpc s3 b \<noteq> C_Out \<longrightarrow> b = 0" "recorded s3 = 1 + 256 * k" "cpc s3 0 = C_Event ?ev" "observed s3 0 = Some 1"
    "Readable \<in> flags (from_usize (word s3))" "tick_of (word s3) = of_nat (1 + 256 * k)"
    using e s1(2-4) by auto
  let ?s4 = "at_c 0 (C_Cas ?ev (word s3)) s3"
  have s4: "io_reaches fi ?s4" using s3(1) clear_load [OF s3(5)] by (auto simp: calm_def intro: reaches_step)
  have "(256 :: u8) = 0" by simp
  then have "(256 :: u8) * of_nat k = 0" by (metis mult_zero_left)
  then have "tick_of (word s3) = tick_of (word s1)" using s3(8) s1(6) by simp
  then obtain y where y: "next_readiness (Tick_Clear (ev_tick ?ev)) (\<lambda>x. sub x (without_closed (ev_ready ?ev))) (word s3) = Inr (Some y)"
    by (simp add: word_simps)
  have st: "io_step fi ?s4 (at_c 0 C_Out (set_word y ?s4))" using y by (intro clear_cas [where ev = ?ev]) simp_all
  have f: "Readable \<notin> flags (from_usize y)" "Readable \<in> flags (ev_ready ?ev)" using clear_view(1) [OF y] s1(5)
    by (auto simp: without_closed_def flag_simps)
  show ?thesis using st f s4 s3
    by (intro exI [of _ ?s4] exI [of _ "at_c 0 C_Out (set_word y ?s4)"] exI [of _ 0] exI [of _ ?ev]) (simp add: calm_def)
qed

lemma pending_poll_reached: "\<exists>s :: nat io_conc. io_reaches fi s \<and> dpc s = D_Idle \<and> ppc s Read = P_Pending 7 \<and> \<not> pwoken s Read"
proof -
  have "poll_readiness 7 Read (sched_io (io_init :: nat io_conc)) = Inr (Poll_Pending, store_waker Read 7 (sched_io io_init))"
    by (simp add: poll_readiness_pending_iff poll_readiness_def io_init_def default_scheduled_io_def from_usize_def flags_def shutdown_of_def flag_simps)
  moreover have i: "ppc (io_init :: nat io_conc) Read = P_Out \<or> ppc (io_init :: nat io_conc) Read = P_Pending 0"
    "wlock (io_init :: nat io_conc) = None" "dpc (io_init :: nat io_conc) = D_Idle" by (simp_all add: io_init_def)
  ultimately obtain s :: "nat io_conc" where
    "steps (io_step fi) io_init s" "dpc s = D_Idle" "ppc s Read = P_Pending 7" "\<not> pwoken s Read"
    using poll_steps [OF i(1,2), of 7 Poll_Pending _ fi] by auto
  then show ?thesis using reaches_steps [of "io_step fi" io_init s "\<lambda>s. s = io_init"] by (auto intro: reaches_start)
qed

subsection \<open>Properties\<close>

text \<open>
  C9: Under every interleaving of the driver, the polls of both directions, the readiness futures
  and the threads that clear readiness: whenever the driver handles no event, a pending poll that
  was not woken still has its waker in its slot and the word shows no readiness for its direction,
  and a pending future that was not woken is still in the list with its waker and the word shows
  nothing of its interest.
\<close>

theorem no_io_wakeup_is_lost:
  assumes "io_reaches fi s" "dpc s = D_Idle"
  shows "(\<forall>d w. ppc s d = P_Pending w \<longrightarrow> \<not> pwoken s d \<longrightarrow>
      waker_slot d (sched_io s) = Some w \<and> is_empty (bitand (direction_mask d) (from_usize (word s)))) \<and>
    (\<forall>j w. fpc s j = F_Pending w \<longrightarrow> \<not> fwoken s j \<longrightarrow>
      (j, w, fi j) \<in> set (waiting s) \<and> is_empty (intersection (from_usize (word s)) (fi j)))"
proof (intro conjI allI impI)
  note I = io_reachable [OF assms(1)]
  show "waker_slot d (sched_io s) = Some w" "is_empty (bitand (direction_mask d) (from_usize (word s)))"
    if "ppc s d = P_Pending w" "\<not> pwoken s d" for d w
    using I(4) that assms(2) by (auto simp: polls_ok_def is_empty_masked quiet_def)
  show "(j, w, fi j) \<in> set (waiting s)" if "fpc s j = F_Pending w" "\<not> fwoken s j" for j w
    using I(6) that assms(2) by (auto simp: futures_ok_def)
  then show "is_empty (intersection (from_usize (word s)) (fi j))" if "fpc s j = F_Pending w" "\<not> fwoken s j" for j w
    using I(6) that assms(2) unfolding futures_ok_def is_empty_intersection by fastforce
qed

theorem no_io_wakeup_is_lost_witness:
  "\<exists>s :: nat io_conc. io_reaches (\<lambda>_. Interest_READABLE) s \<and> ppc s Read = P_Pending 7 \<and> waker_slot Read (sched_io s) = Some 7"
proof -
  obtain s :: "nat io_conc" where s: "io_reaches (\<lambda>_. Interest_READABLE) s" "dpc s = D_Idle" "ppc s Read = P_Pending 7" "\<not> pwoken s Read"
    using pending_poll_reached by blast
  from no_io_wakeup_is_lost [OF s(1,2)] s(3,4) have "waker_slot Read (sched_io s) = Some 7" by blast
  with s show ?thesis by blast
qed

text \<open>
  C10: Under every interleaving flags leave the readiness word only by the exchange of a thread that
  clears an event it has seen, only flags of that event, never the closed ones, and, while fewer
  than 256 rounds of the driver have passed since that event was recorded, only if no event was
  recorded in a later round.
\<close>

theorem clear_keeps_later_event:
  assumes "io_reaches fi s" "io_step fi s s'" "\<not> flags (from_usize (word s)) \<subseteq> flags (from_usize (word s'))"
  shows "\<exists>c ev k. cpc s c = C_Cas ev (word s) \<and> cpc s' c = C_Out \<and> observed s c = Some k \<and>
    flags (from_usize (word s)) - flags (from_usize (word s')) \<subseteq> flags (ev_ready ev) - {ReadClosed, WriteClosed} \<and>
    (rounds s < k + 256 \<longrightarrow> recorded s = k)"
  using assms(2)
proof cases
  case (driver_cas r cur y)
  then have "valid r" using io_reachable(1) [OF assms(1)] by (simp add: word_ok_def)
  from set_view(1) [OF driver_cas(4) this] driver_cas assms(3) show ?thesis by auto
next
  case (clear_cas c ev cur y)
  note V = clear_view [OF clear_cas(4)] and I = io_reachable [OF assms(1)]
  obtain k where k: "observed s c = Some k" "ev_tick ev = of_nat k" "k \<le> recorded s" "recorded s \<le> rounds s"
    using I(1,2) clear_cas(2) unfolding word_ok_def clears_ok_def by blast
  then have "of_nat (recorded s) = (of_nat k :: u8)" using V(3) I(1) clear_cas(3) by (simp add: word_ok_def)
  then have "recorded s = k" if "rounds s < k + 256" using tick_eq k that by simp
  moreover have "flags (without_closed (ev_ready ev)) = flags (ev_ready ev) - {ReadClosed, WriteClosed}"
    by (auto simp: without_closed_def flag_simps)
  ultimately show ?thesis using clear_cas V(1) k(1) by (intro exI [of _ c] exI [of _ ev] exI [of _ k]) auto
qed (use assms(3) in auto)

theorem clear_keeps_later_event_witness:
  "\<exists>(s :: nat io_conc) s' c. io_step (\<lambda>_. Interest_READABLE) s s' \<and> cpc s' c = C_Out \<and> observed s c = Some (recorded s) \<and>
     Readable \<in> flags (from_usize (word s)) \<and> Readable \<notin> flags (from_usize (word s'))"
proof -
  obtain s s' :: "nat io_conc" and c where s: "io_reaches (\<lambda>_. Interest_READABLE) s" "io_step (\<lambda>_. Interest_READABLE) s s'"
    "rounds s = recorded s" "recorded s = 1" "observed s c = Some 1" "\<forall>b. cpc s b \<noteq> C_Out \<longrightarrow> b = c"
    "Readable \<in> flags (from_usize (word s))" "Readable \<notin> flags (from_usize (word s'))"
    using clear_run [where ?'w = nat and fi = "\<lambda>_. Interest_READABLE" and k = 0] by auto
  from clear_keeps_later_event [OF s(1,2)] s(7,8) obtain b ev k where
    "cpc s b = C_Cas ev (word s)" "cpc s' b = C_Out" "observed s b = Some k" "rounds s < k + 256 \<longrightarrow> recorded s = k" by blast
  with s show ?thesis by (metis cpc.distinct(3))
qed


text \<open>
  C13: Recording an event and waking the waiters, and a poll of a direction, as the sequential model
  has them, are runs of the interleaved steps when nobody interferes, and the polls and futures
  whose wakers are reported as woken are woken.
\<close>

theorem io_operations_are_steps:
  assumes "dpc s = D_Idle" "wlock s = None" "\<forall>x \<in> set (waiting s). satisfies (from_mio e) (waiter_interest x)"
    and "ppc s d = P_Out \<or> ppc s d = P_Pending v"
  shows "(\<exists>s' sio1 woken. steps (io_step fi) s s' \<and>
      set_readiness (Tick_Set (of_nat (rounds s))) (\<lambda>c. bitor c (from_mio e)) (sched_io s) = Inr sio1 \<and>
      wake list_pin_list (from_mio e) sio1 = Some (Inr (sched_io s', woken)) \<and> dpc s' = D_Idle \<and> wlock s' = None \<and>
      (\<forall>d w. ppc s d = P_Pending w \<and> w \<in> set woken \<longrightarrow> ppc s' d = P_Pending w \<and> pwoken s' d) \<and>
      (\<forall>j w. fpc s j = F_Pending w \<and> w \<in> set woken \<longrightarrow> fpc s' j = F_Pending w \<and> fwoken s' j)) \<and>
    (\<exists>s' res. steps (io_step fi) s s' \<and> poll_readiness w d (sched_io s) = Inr (res, sched_io s') \<and> wlock s' = None \<and>
      ppc s' d = (if res = Poll_Pending then P_Pending w else P_Out))"
proof
  obtain s' sio1 woken where "steps (io_step fi) s s'" "set_readiness (Tick_Set (of_nat (rounds s))) (\<lambda>c. bitor c (from_mio e)) (sched_io s) = Inr sio1"
    "wake list_pin_list (from_mio e) sio1 = Some (Inr (sched_io s', woken))" "dpc s' = D_Idle" "wlock s' = None"
    "same_polls (s\<lparr>recorded := rounds s\<rparr>) s'" "woken_all (set woken) s'"
    using event_steps [OF assms(1-3)] by blast
  then show "\<exists>s' sio1 woken. steps (io_step fi) s s' \<and>
      set_readiness (Tick_Set (of_nat (rounds s))) (\<lambda>c. bitor c (from_mio e)) (sched_io s) = Inr sio1 \<and>
      wake list_pin_list (from_mio e) sio1 = Some (Inr (sched_io s', woken)) \<and> dpc s' = D_Idle \<and> wlock s' = None \<and>
      (\<forall>d w. ppc s d = P_Pending w \<and> w \<in> set woken \<longrightarrow> ppc s' d = P_Pending w \<and> pwoken s' d) \<and>
      (\<forall>j w. fpc s j = F_Pending w \<and> w \<in> set woken \<longrightarrow> fpc s' j = F_Pending w \<and> fwoken s' j)"
    unfolding same_polls_def woken_all_def by (intro exI [of _ s'] exI [of _ sio1] exI [of _ woken]) auto
  obtain res sio2 where p: "poll_readiness w d (sched_io s) = Inr (res, sio2)"
    using poll_readiness_total [of w d "sched_io s"] by blast
  from poll_steps [OF assms(4,2) p] show "\<exists>s' res. steps (io_step fi) s s' \<and> poll_readiness w d (sched_io s) = Inr (res, sched_io s') \<and> wlock s' = None \<and>
      ppc s' d = (if res = Poll_Pending then P_Pending w else P_Out)"
    using p by fastforce
qed

theorem io_operations_are_steps_witness:
  "\<exists>s' res. steps (io_step (\<lambda>_. Interest_READABLE)) (io_init :: nat io_conc) s' \<and>
     poll_readiness 7 Read (sched_io (io_init :: nat io_conc)) = Inr (res, sched_io s') \<and> wlock s' = None"
proof -
  have i: "dpc (io_init :: nat io_conc) = D_Idle" "wlock (io_init :: nat io_conc) = None"
    "\<forall>x \<in> set (waiting (io_init :: nat io_conc)). satisfies (from_mio e) (waiter_interest x)"
    "ppc (io_init :: nat io_conc) Read = P_Out \<or> ppc (io_init :: nat io_conc) Read = P_Pending 0" for e
    by (simp_all add: io_init_def default_scheduled_io_def)
  from io_operations_are_steps [OF i, where w = 7] show ?thesis by blast
qed

end
