(* ===== verification/IO_Progress.thy ===== *)
theory IO_Progress
  imports IO_Conc
begin

text \<open>
  No deadlock among the threads of \<^verbatim>\<open>IO_Conc\<close>: how far each is from the end of its operation, and that some thread that is inside one
  can always get closer, unless the driver looks at a waiter that does not want its event; then it holds the lock of the waiters for ever.
\<close>

text \<open>
  The rank of the driver depends on the readiness word, since a compare-exchange with an old value has to be repeated, and on the number of
  waiters in the list.
\<close>

fun d_rank :: "usize \<Rightarrow> nat \<Rightarrow> 'w dpc \<Rightarrow> nat" where
  "d_rank x n D_Idle = 0"
| "d_rank x n (D_Load r) = 73 + 4 * n"
| "d_rank x n (D_Cas r cur) = (if x = cur then 71 else 72) + 4 * n"
| "d_rank x n (D_Lock r) = 70 + 4 * n"
| "d_rank x n (D_List r ws) = 2 + 2 * length ws + 4 * n"
| "d_rank x n (D_Full r ws) = 3 + length ws + 4 * n"
| "d_rank x n (D_Fire ws) = 1 + length ws"

fun p_rank :: "'w ppc \<Rightarrow> nat" where
  "p_rank (P_Load w) = 4" | "p_rank (P_Lock w) = 3" | "p_rank (P_Store w) = 2" | "p_rank (P_Reload w) = 1" | "p_rank _ = 0"

fun f_rank :: "'w fpc \<Rightarrow> nat" where
  "f_rank (F_Load w) = 7" | "f_rank (F_Lock w) = 6" | "f_rank (F_Reload w) = 5" | "f_rank (F_Push w) = 4" | "f_rank (F_Wait w) = 3"
| "f_rank (F_Check w) = 2" | "f_rank F_Done = 1" | "f_rank _ = 0"

fun c_rank :: "usize \<Rightarrow> cpc \<Rightarrow> nat" where
  "c_rank x C_Out = 0" | "c_rank x (C_Event ev) = 3" | "c_rank x (C_Cas ev cur) = (if x = cur then 1 else 2)"

abbreviation driver_rank :: "'w io_conc \<Rightarrow> nat" where
  "driver_rank s \<equiv> d_rank (word s) (length (waiting s)) (dpc s)"

text \<open>Some thread takes a step that brings it closer to the end of its operation, and the others stay where they are.\<close>

definition advances :: "'w io_conc \<Rightarrow> 'w io_conc \<Rightarrow> bool" where
  "advances s s' \<longleftrightarrow>
     driver_rank s' < driver_rank s \<and> ppc s' = ppc s \<and> fpc s' = fpc s \<and> cpc s' = cpc s \<or>
     (\<exists>d p. dpc s' = dpc s \<and> ppc s' = (ppc s)(d := p) \<and> p_rank p < p_rank (ppc s d) \<and> fpc s' = fpc s \<and> cpc s' = cpc s) \<or>
     (\<exists>j p. dpc s' = dpc s \<and> ppc s' = ppc s \<and> fpc s' = (fpc s)(j := p) \<and> f_rank p < f_rank (fpc s j) \<and> cpc s' = cpc s) \<or>
     (\<exists>c p. dpc s' = dpc s \<and> ppc s' = ppc s \<and> fpc s' = fpc s \<and> cpc s' = (cpc s)(c := p) \<and> c_rank (word s') p < c_rank (word s) (cpc s c))"

lemma driver_moves:
  "io_step fi s s' \<Longrightarrow> driver_rank s' < driver_rank s \<Longrightarrow> ppc s' = ppc s \<Longrightarrow> fpc s' = fpc s \<Longrightarrow> cpc s' = cpc s \<Longrightarrow> \<exists>s'. io_step fi s s' \<and> advances s s'"
  by (auto simp: advances_def)

lemma poller_moves:
  "io_step fi s s' \<Longrightarrow> dpc s' = dpc s \<Longrightarrow> ppc s' = (ppc s)(d := p) \<Longrightarrow> p_rank p < p_rank (ppc s d) \<Longrightarrow> fpc s' = fpc s \<Longrightarrow> cpc s' = cpc s \<Longrightarrow>
   \<exists>s'. io_step fi s s' \<and> advances s s'"
  unfolding advances_def by blast

lemma future_moves:
  "io_step fi s s' \<Longrightarrow> dpc s' = dpc s \<Longrightarrow> ppc s' = ppc s \<Longrightarrow> fpc s' = (fpc s)(j := p) \<Longrightarrow> f_rank p < f_rank (fpc s j) \<Longrightarrow> cpc s' = cpc s \<Longrightarrow>
   \<exists>s'. io_step fi s s' \<and> advances s s'"
  unfolding advances_def by blast

lemma clear_moves:
  "io_step fi s s' \<Longrightarrow> dpc s' = dpc s \<Longrightarrow> ppc s' = ppc s \<Longrightarrow> fpc s' = fpc s \<Longrightarrow> cpc s' = (cpc s)(c := p) \<Longrightarrow>
   c_rank (word s') p < c_rank (word s) (cpc s c) \<Longrightarrow> \<exists>s'. io_step fi s s' \<and> advances s s'"
  unfolding advances_def by blast

lemma walk_advances:
  assumes "dpc s = D_List r ws" "\<forall>x \<in> set (waiting s). satisfies r (waiter_interest x)"
  shows "\<exists>s'. io_step fi s s' \<and> advances s s'"
proof (cases "length ws = WAKERS_CAP")
  case True
  then show ?thesis using driver_moves [OF wake_full [OF assms(1) True]] assms(1) by (simp add: WAKERS_CAP_def)
next
  case False
  show ?thesis
  proof (cases "waiting s")
    case Nil
    then show ?thesis using driver_moves [OF wake_end [OF assms(1) False Nil]] assms(1) by simp
  next
    case (Cons x rest)
    then have "satisfies r (waiter_interest x)" using assms(2) by simp
    from driver_moves [OF wake_take [OF assms(1) False Cons this]] assms(1) Cons show ?thesis by simp
  qed
qed

lemma fire_advances:
  assumes "dpc s = D_Full r ws \<and> wlock s = None \<or> dpc s = D_Fire ws"
  shows "\<exists>s'. io_step fi s s' \<and> advances s s'"
proof (cases ws)
  case Nil
  then show ?thesis using assms driver_moves [OF wake_relock [of s r]] driver_moves [OF wake_done [of s]] by auto
next
  case (Cons w vs)
  then show ?thesis using assms driver_moves [OF fire_full [of s r w vs]] driver_moves [OF fire_last [of s w vs]] by auto
qed

lemma driver_advances:
  assumes "dpc s \<noteq> D_Idle" "wlock s = None \<or> d_holds (dpc s)" "\<forall>r. event_ready (dpc s) = Some r \<longrightarrow> (\<forall>x \<in> set (waiting s). satisfies r (waiter_interest x))"
  shows "\<exists>s'. io_step fi s s' \<and> advances s s'"
proof (cases "dpc s")
  case (D_Load r)
  then show ?thesis using driver_moves [OF driver_load [OF D_Load]] by simp
next
  case (D_Cas r cur)
  obtain y where "next_readiness (Tick_Set (of_nat (rounds s))) (\<lambda>c. bitor c r) cur = Inr (Some y)" by (simp add: word_simps)
  then show ?thesis using driver_moves [OF driver_cas [OF D_Cas]] driver_moves [OF driver_retry [OF D_Cas]] D_Cas
    by (cases "word s = cur") simp_all
next
  case (D_Lock r)
  then show ?thesis using driver_moves [OF wake_lock [OF D_Lock]] assms(2) slot_wakers_short [of r "sched_io s"] by (simp add: WAKERS_CAP_def)
next
  case (D_List r ws)
  then show ?thesis using walk_advances assms(3) by auto
next
  case (D_Full r ws)
  then show ?thesis using fire_advances [of s r ws] assms(2) by simp
next
  case (D_Fire ws)
  then show ?thesis using fire_advances [of s _ ws] by simp
qed (use assms(1) in simp)

lemma poller_advances:
  assumes "p_rank (ppc s d) \<noteq> 0" "wlock s = None \<or> p_holds (ppc s d)"
  shows "\<exists>s'. io_step fi s s' \<and> advances s s'"
proof -
  obtain t r sd where l: "load_fields (word s) = Inr (t, r, sd)" by (simp add: word_simps)
  show ?thesis
  proof (cases "ppc s d")
    case (P_Load w)
    then show ?thesis using poller_moves [OF poll_ready [OF P_Load l]] poller_moves [OF poll_empty [OF P_Load l]] by fastforce
  next
    case (P_Lock w)
    then show ?thesis using assms(2) poller_moves [OF poll_lock [OF P_Lock]] by simp
  next
    case (P_Store w)
    then show ?thesis using poller_moves [OF poll_store [OF P_Store]] by simp
  next
    case (P_Reload w)
    then show ?thesis using poller_moves [OF poll_reload_ready [OF P_Reload l]] poller_moves [OF poll_pending [OF P_Reload l]] by fastforce
  qed (use assms(1) in simp_all)
qed

lemma future_advances:
  assumes "f_rank (fpc s j) \<noteq> 0" "wlock s = None \<or> f_holds (fpc s j)"
  shows "\<exists>s'. io_step fi s s' \<and> advances s s'"
proof -
  obtain t r sd where l: "load_fields (word s) = Inr (t, r, sd)" by (simp add: word_simps)
  show ?thesis
  proof (cases "fpc s j")
    case (F_Load w)
    then show ?thesis using future_moves [OF fut_ready [OF F_Load l]] future_moves [OF fut_empty [OF F_Load l]] by fastforce
  next
    case (F_Lock w)
    then show ?thesis using assms(2) future_moves [OF fut_lock [OF F_Lock]] by simp
  next
    case (F_Reload w)
    then show ?thesis using future_moves [OF fut_reload_ready [OF F_Reload l]] future_moves [OF fut_reload_empty [OF F_Reload l]] by fastforce
  next
    case (F_Push w)
    then show ?thesis using future_moves [OF fut_push [OF F_Push]] by simp
  next
    case (F_Wait w)
    then show ?thesis using assms(2) future_moves [OF fut_check [OF F_Wait]] by simp
  next
    case (F_Check w)
    then show ?thesis using future_moves [OF fut_pending [OF F_Check]] future_moves [OF fut_removed [OF F_Check]] by fastforce
  next
    case F_Done
    then show ?thesis using future_moves [OF fut_done [OF F_Done]] by simp
  qed (use assms(1) in simp_all)
qed

lemma clear_advances:
  assumes "cpc s c \<noteq> C_Out"
  shows "\<exists>s'. io_step fi s s' \<and> advances s s'"
proof (cases "cpc s c")
  case (C_Event ev)
  then show ?thesis using clear_moves [OF clear_load [OF C_Event]] by simp
next
  case (C_Cas ev cur)
  show ?thesis
  proof (cases "next_readiness (Tick_Clear (ev_tick ev)) (\<lambda>x. sub x (without_closed (ev_ready ev))) cur = Inr None")
    case True
    then show ?thesis using clear_moves [OF clear_stale [OF C_Cas True]] C_Cas by simp
  next
    case False
    then obtain y where "next_readiness (Tick_Clear (ev_tick ev)) (\<lambda>x. sub x (without_closed (ev_ready ev))) cur = Inr (Some y)"
      by (auto simp: word_simps split: if_splits)
    then show ?thesis using clear_moves [OF clear_cas [OF C_Cas]] clear_moves [OF clear_retry [OF C_Cas]] C_Cas
      by (cases "word s = cur") simp_all
  qed
qed (use assms in simp)

text \<open>
  C11: Under every interleaving, when every listed waiter wants the event the driver handles and
  some thread is inside an operation on the entry, some thread can take a step that brings it closer
  to the end of its operation while the others stay where they are: the lock of the waiters and the
  compare-exchange loops never deadlock.
\<close>

theorem io_threads_finish:
  assumes "io_reaches fi s" "\<forall>r. event_ready (dpc s) = Some r \<longrightarrow> (\<forall>x \<in> set (waiting s). satisfies r (waiter_interest x))"
    and "dpc s \<noteq> D_Idle \<or> p_rank (ppc s d) \<noteq> 0 \<or> f_rank (fpc s j) \<noteq> 0 \<or> cpc s c \<noteq> C_Out"
  shows "\<exists>s'. io_step fi s s' \<and> advances s s'"
proof -
  note L = io_reachable(3) [OF assms(1), unfolded wlock_ok_def]
  consider "wlock s = None" | "d_holds (dpc s)" | e where "p_holds (ppc s e)" | k where "f_holds (fpc s k)"
    using L by (cases "wlock s") (metis io_thread.exhaust)+
  then show ?thesis
  proof cases
    case 1
    then show ?thesis using assms(2,3) driver_advances poller_advances future_advances clear_advances by metis
  next
    case 2
    then show ?thesis using driver_advances [OF _ _ assms(2)] by (cases "dpc s") auto
  next
    case (3 e)
    then show ?thesis using poller_advances [of s e] by (cases "ppc s e") auto
  next
    case (4 k)
    then show ?thesis using future_advances [of s k] by (cases "fpc s k") auto
  qed
qed

theorem io_threads_finish_witness:
  "\<exists>s'. io_step (\<lambda>_. Interest_READABLE) (at_d (D_Load READABLE) (io_init :: nat io_conc)) s' \<and> advances (at_d (D_Load READABLE) (io_init :: nat io_conc)) s'"
proof -
  let ?s = "at_d (D_Load (from_mio \<lparr>token = 0, ev_readable = True, ev_writable = False, ev_read_closed = False, ev_write_closed = False\<rparr>)) (io_init :: nat io_conc)"
  have "from_mio \<lparr>token = 0, ev_readable = True, ev_writable = False, ev_read_closed = False, ev_write_closed = False\<rparr> = READABLE"
    by (simp add: from_mio_def bitor_def EMPTY_def READABLE_def)
  moreover have "io_reaches (\<lambda>_. Interest_READABLE) ?s"
  proof (rule reaches_step)
    show "io_reaches (\<lambda>_. Interest_READABLE) io_init" by (rule reaches_start) simp
    show "io_step (\<lambda>_. Interest_READABLE) io_init ?s" by (rule deliver) (simp add: io_init_def)
  qed
  ultimately have "io_reaches (\<lambda>_. Interest_READABLE) (at_d (D_Load READABLE) (io_init :: nat io_conc))" by simp
  from io_threads_finish [OF this] show ?thesis by (simp add: io_init_def default_scheduled_io_def)
qed

text \<open>
  A driver that looks at a waiter which does not want the event keeps the lock of the waiters in every state that can
  follow, whatever the others do.
\<close>

theorem spinning_driver_keeps_lock:
  assumes "steps (io_step fi) s t" "io_reaches fi s" "dpc s = D_List r ws" "length ws \<noteq> WAKERS_CAP" "waiting s = x # rest" "\<not> satisfies r (waiter_interest x)"
  shows "dpc t = D_List r ws \<and> wlock t = Some L_Driver \<and> waiting t = x # rest"
  using assms
proof (induction rule: steps.induct)
  case (steps_refl s)
  then show ?case using io_reachable(3) [OF steps_refl(1)] by (simp add: wlock_ok_def)
next
  case (steps_more s t u)
  note L = io_reachable(3) [OF steps_more.prems(1)]
  have "wlock s = Some L_Driver" using L steps_more.prems(2) by (simp add: wlock_ok_def)
  then have "\<not> p_holds (ppc s e)" "\<not> f_holds (fpc s k)" for e k using L by (auto simp: wlock_ok_def)
  then have n: "ppc s e \<noteq> P_Store w" "fpc s k \<noteq> F_Push w" "fpc s k \<noteq> F_Check w" for e k w by (metis p_holds.simps(1) f_holds.simps(2,3))+
  have "dpc t = D_List r ws \<and> waiting t = x # rest"
    using steps_more.hyps(1) by (cases rule: io_step.cases) (use steps_more.prems(2-5) n in auto)
  moreover have "io_reaches fi t" using steps_more by (auto intro: reaches_step)
  ultimately show ?case using steps_more by blast
qed

end
