(* ===== verification/Startup.thy ===== *)
theory Startup
  imports Runtime
begin

text \<open>
  The start of a runtime: \<^verbatim>\<open>MTRuntime::init_workers\<close> of \<^verbatim>\<open>src/src/lib.rs\<close> interleaved with the threads it starts, up to the
  point where each has found its own entry of \<^verbatim>\<open>workers\<close> in \<^verbatim>\<open>run_forever\<close>. A started thread looks at the \<^verbatim>\<open>OnceLock\<close> and parks
  while it is empty; the main thread fills it and then unparks every worker. \<^verbatim>\<open>thread::park\<close> waits for the token of the
  thread and takes it, or returns for no reason.
\<close>

datatype mpc =
    M_Spawn nat         \<comment> \<open>in the first loop, before it starts the thread with this index\<close>
  | M_Unpark nat        \<comment> \<open>the workers are set, in the second loop\<close>
  | M_Done
  | M_Panic

datatype start_pc =
    S_Unborn
  | S_Check             \<comment> \<open>before the look at the workers\<close>
  | S_Park              \<comment> \<open>they were not set: before or inside the park\<close>
  | S_Enter             \<comment> \<open>at the start of \<^verbatim>\<open>run_forever\<close>\<close>
  | S_Loop worker       \<comment> \<open>in its loop, with its entry\<close>
  | S_Panic

record startup =
  workers_cell :: "worker list option"
  built :: "worker list"
  handles :: "executor_handle list"
  mpc :: mpc
  wthread :: "nat \<Rightarrow> start_pc"
  wtoken :: "nat \<Rightarrow> bool"

definition startup_init :: "'q mt_runtime \<Rightarrow> startup" where
  "startup_init r = \<lparr>workers_cell = workers r, built = [], handles = [], mpc = M_Spawn 0, wthread = (\<lambda>_. S_Unborn), wtoken = (\<lambda>_. False)\<rparr>"

text \<open>The steps of the main thread, which builds \<open>n\<close> workers of the runtime \<open>me\<close>.\<close>

inductive main_step :: "nat \<Rightarrow> nat \<Rightarrow> startup \<Rightarrow> startup \<Rightarrow> bool" for me :: nat and n :: nat where
  spawn_thread: "mpc s = M_Spawn i \<Longrightarrow> i < n \<Longrightarrow>
    main_step me n s (s\<lparr>wthread := (wthread s)(i := S_Check), built := built s @ [new_worker],
      handles := handles s @ [\<lparr>worker_index = of_nat i, shared = me, local_queue = with_capacity 32\<rparr>], mpc := M_Spawn (i + 1)\<rparr>)"
| set_workers: "mpc s = M_Spawn n \<Longrightarrow> workers_cell s = None \<Longrightarrow>
    main_step me n s (s\<lparr>workers_cell := Some (built s), mpc := M_Unpark 0\<rparr>)"
| set_fails: "mpc s = M_Spawn n \<Longrightarrow> workers_cell s = Some ws \<Longrightarrow> main_step me n s (s\<lparr>mpc := M_Panic\<rparr>)"
| unpark_next: "mpc s = M_Unpark i \<Longrightarrow> workers_cell s = Some ws \<Longrightarrow> i < length ws \<Longrightarrow>
    main_step me n s (s\<lparr>wtoken := (wtoken s)(i := True), mpc := M_Unpark (i + 1)\<rparr>)"
| unpark_end: "mpc s = M_Unpark i \<Longrightarrow> workers_cell s = Some ws \<Longrightarrow> \<not> i < length ws \<Longrightarrow> main_step me n s (s\<lparr>mpc := M_Done\<rparr>)"

text \<open>The steps of the thread with index \<open>i\<close>.\<close>

inductive thread_step :: "nat \<Rightarrow> startup \<Rightarrow> startup \<Rightarrow> bool" for i :: nat where
  check_set: "wthread s i = S_Check \<Longrightarrow> workers_cell s = Some ws \<Longrightarrow> thread_step i s (s\<lparr>wthread := (wthread s)(i := S_Enter)\<rparr>)"
| check_unset: "wthread s i = S_Check \<Longrightarrow> workers_cell s = None \<Longrightarrow> thread_step i s (s\<lparr>wthread := (wthread s)(i := S_Park)\<rparr>)"
| take_token: "wthread s i = S_Park \<Longrightarrow> wtoken s i \<Longrightarrow>
    thread_step i s (s\<lparr>wthread := (wthread s)(i := S_Check), wtoken := (wtoken s)(i := False)\<rparr>)"
| enter: "wthread s i = S_Enter \<Longrightarrow> workers_cell s = Some ws \<Longrightarrow> index_get ws i = Inr w \<Longrightarrow>
    thread_step i s (s\<lparr>wthread := (wthread s)(i := S_Loop w)\<rparr>)"
| enter_unset: "wthread s i = S_Enter \<Longrightarrow> workers_cell s = None \<Longrightarrow> thread_step i s (s\<lparr>wthread := (wthread s)(i := S_Panic)\<rparr>)"
| enter_range: "wthread s i = S_Enter \<Longrightarrow> workers_cell s = Some ws \<Longrightarrow> index_get ws i = Inl e \<Longrightarrow>
    thread_step i s (s\<lparr>wthread := (wthread s)(i := S_Panic)\<rparr>)"

inductive startup_step :: "nat \<Rightarrow> nat \<Rightarrow> startup \<Rightarrow> startup \<Rightarrow> bool" for me :: nat and n :: nat where
  main: "main_step me n s s' \<Longrightarrow> startup_step me n s s'"
| thread: "thread_step i s s' \<Longrightarrow> startup_step me n s s'"
| spurious_return: "wthread s i = S_Park \<Longrightarrow> startup_step me n s (s\<lparr>wthread := (wthread s)(i := S_Check)\<rparr>)"

abbreviation startup_reaches :: "nat \<Rightarrow> nat \<Rightarrow> 'q mt_runtime \<Rightarrow> startup \<Rightarrow> bool" where
  "startup_reaches me n r \<equiv> reaches (\<lambda>s. s = startup_init r) (startup_step me n)"

text \<open>
  \<^verbatim>\<open>MTRuntime::new\<close> as a whole, and \<^verbatim>\<open>thread_per_core\<close>, where \<open>cores\<close> is what the system reports.
\<close>

definition mt_new :: "nat \<Rightarrow> 'q \<Rightarrow> nat \<Rightarrow> panic + 'q mt_runtime \<times> executor_handle list" where
  "mt_new me q0 n = init_workers me n (new_runtime q0 n)"

definition thread_per_core :: "nat \<Rightarrow> 'q \<Rightarrow> 'e + nat \<Rightarrow> panic + 'q mt_runtime \<times> executor_handle list" where
  "thread_per_core me q0 cores = (case cores of Inl e \<Rightarrow> Inl Unwrap_Err | Inr n \<Rightarrow> mt_new me q0 n)"

subsection \<open>The invariant\<close>

text \<open>What the main thread has built after \<open>k\<close> rounds of its first loop.\<close>

definition built_upto :: "nat \<Rightarrow> nat \<Rightarrow> startup \<Rightarrow> bool" where
  "built_upto me k s \<longleftrightarrow> built s = map (\<lambda>i. new_worker) [0..<k] \<and>
     handles s = map (\<lambda>i. \<lparr>worker_index = of_nat i, shared = me, local_queue = with_capacity 32\<rparr>) [0..<k] \<and>
     (\<forall>i. wthread s i \<noteq> S_Unborn \<longleftrightarrow> i < k)"

definition main_ok :: "nat \<Rightarrow> nat \<Rightarrow> startup \<Rightarrow> bool" where
  "main_ok me n s \<longleftrightarrow> (case mpc s of
       M_Spawn k \<Rightarrow> k \<le> n \<and> workers_cell s = None \<and> built_upto me k s
     | M_Unpark k \<Rightarrow> k \<le> n \<and> workers_cell s = Some (built s) \<and> built_upto me n s
     | M_Done \<Rightarrow> workers_cell s = Some (built s) \<and> built_upto me n s
     | M_Panic \<Rightarrow> False)"

text \<open>The workers the main thread has unparked.\<close>

fun unparked :: "mpc \<Rightarrow> nat \<Rightarrow> bool" where
  "unparked (M_Unpark k) i \<longleftrightarrow> i < k" | "unparked M_Done i \<longleftrightarrow> True" | "unparked _ i \<longleftrightarrow> False"

definition thread_ok :: "startup \<Rightarrow> nat \<Rightarrow> bool" where
  "thread_ok s i \<longleftrightarrow> (case wthread s i of
       S_Park \<Rightarrow> unparked (mpc s) i \<longrightarrow> wtoken s i
     | S_Enter \<Rightarrow> workers_cell s \<noteq> None
     | S_Loop w \<Rightarrow> workers_cell s \<noteq> None \<and> w = new_worker
     | S_Panic \<Rightarrow> False
     | _ \<Rightarrow> True)"

definition startup_inv :: "nat \<Rightarrow> nat \<Rightarrow> startup \<Rightarrow> bool" where
  "startup_inv me n s \<longleftrightarrow> main_ok me n s \<and> (\<forall>i. thread_ok s i)"

lemma unparked_cell: "main_ok me n s \<Longrightarrow> unparked (mpc s) i \<Longrightarrow> workers_cell s \<noteq> None"
  by (cases "mpc s") (auto simp: main_ok_def)

text \<open>Steps of the threads are no births.\<close>

lemma built_upto_frame [simp]:
  "built_upto me k (s\<lparr>mpc := p\<rparr>) = built_upto me k s" "built_upto me k (s\<lparr>wtoken := q\<rparr>) = built_upto me k s"
  "built_upto me k (s\<lparr>workers_cell := c\<rparr>) = built_upto me k s"
  by (simp_all add: built_upto_def)

lemma built_upto_thread [simp]:
  "wthread s i \<noteq> S_Unborn \<Longrightarrow> x \<noteq> S_Unborn \<Longrightarrow> built_upto me k (s\<lparr>wthread := (wthread s)(i := x)\<rparr>) = built_upto me k s"
  by (auto simp: built_upto_def)

lemma built_upto_length: "built_upto me k s \<Longrightarrow> length (built s) = k"
  by (simp add: built_upto_def)

lemma built_upto_spawn:
  assumes "built_upto me k s"
  shows "built_upto me (k + 1) (s\<lparr>wthread := (wthread s)(k := S_Check), built := built s @ [new_worker],
    handles := handles s @ [\<lparr>worker_index = of_nat k, shared = me, local_queue = with_capacity 32\<rparr>], mpc := p\<rparr>)"
  using assms by (auto simp: built_upto_def less_Suc_eq)

lemma main_ok_frame:
  "wthread s i \<noteq> S_Unborn \<Longrightarrow> x \<noteq> S_Unborn \<Longrightarrow> main_ok me n (s\<lparr>wthread := (wthread s)(i := x)\<rparr>) = main_ok me n s"
  "main_ok me n (s\<lparr>wtoken := tk\<rparr>) = main_ok me n s"
  by (simp_all add: main_ok_def split: mpc.split)

lemma main_ok_step:
  assumes "startup_step me n s s'" "main_ok me n s"
  shows "main_ok me n s'"
  using assms(1)
proof cases
  case main
  then show ?thesis
  proof cases
    case (spawn_thread i)
    then show ?thesis using assms(2) built_upto_spawn [of me i s] by (simp add: main_ok_def)
  qed (use assms(2) in \<open>auto simp: main_ok_def dest: built_upto_length\<close>)
next
  case (thread i)
  then show ?thesis using assms(2) by (cases rule: thread_step.cases) (simp_all add: main_ok_frame)
next
  case (spurious_return i)
  then show ?thesis using assms(2) by (simp add: main_ok_frame)
qed

lemma entry_found:
  assumes "main_ok me n s" "wthread s i \<noteq> S_Unborn" "workers_cell s = Some ws"
  shows "index_get ws i = Inr new_worker"
proof -
  have "ws = built s" "built_upto me n s" using assms(1,3) by (auto simp: main_ok_def split: mpc.splits)
  with assms(2) show ?thesis by (auto simp: built_upto_def)
qed

lemma thread_ok_step:
  assumes "startup_step me n s s'" "main_ok me n s" "\<And>i. thread_ok s i"
  shows "thread_ok s' j"
  using assms(1)
proof cases
  case main
  then show ?thesis
  proof cases
    case (unpark_end i ws)
    then have "built_upto me n s" "i = n" using assms(2) by (auto simp: main_ok_def dest: built_upto_length)
    then have "wthread s j = S_Unborn \<or> j < i" by (auto simp: built_upto_def)
    then show ?thesis using unpark_end assms(3) [of j] by (auto simp: thread_ok_def split: start_pc.splits)
  qed (use assms(2) assms(3) [of j] in \<open>auto simp: thread_ok_def main_ok_def split: start_pc.splits\<close>)
next
  case (thread i)
  then show ?thesis
  proof cases
    case (enter ws w)
    then have "w = new_worker" using entry_found [OF assms(2), of i ws] by simp
    then show ?thesis using enter assms(3) [of j] by (auto simp: thread_ok_def split: start_pc.splits)
  next
    case (enter_range ws e)
    then show ?thesis using entry_found [OF assms(2), of i ws] by simp
  qed (use unparked_cell [OF assms(2)] assms(3) [of j] assms(3) [of i] in \<open>auto simp: thread_ok_def split: start_pc.splits\<close>)
qed (use assms(3) [of j] in \<open>auto simp: thread_ok_def split: start_pc.splits\<close>)

interpretation su: transition_system "\<lambda>s. s = startup_init r" "startup_step me n" "\<lambda>s. workers r = None \<longrightarrow> startup_inv me n s"
  for r :: "'q mt_runtime" and me n
proof unfold_locales
  show "workers r = None \<longrightarrow> startup_inv me n s" if "s = startup_init r" for s
    using that by (auto simp: startup_inv_def startup_init_def main_ok_def thread_ok_def built_upto_def)
  show "workers r = None \<longrightarrow> startup_inv me n t" if "workers r = None \<longrightarrow> startup_inv me n s" "startup_step me n s t" for s t
    using that main_ok_step [OF that(2)] thread_ok_step [OF that(2)] by (auto simp: startup_inv_def)
qed

lemma startup_reachable:
  assumes "startup_reaches me n r s" "workers r = None"
  shows "main_ok me n s" "thread_ok s i"
  using su.invar_reaches [OF assms(1)] assms(2) by (simp_all add: startup_inv_def)


subsection \<open>Progress\<close>

lemma main_finishes:
  assumes "main_ok me n s"
  shows "\<exists>s'. steps (main_step me n) s s' \<and> mpc s' = M_Done"
proof -
  have unpark: "\<exists>s'. steps (main_step me n) s s' \<and> mpc s' = M_Done" if "mpc s = M_Unpark k" "workers_cell s = Some ws" for s k ws
    using that
  proof (induction "length ws - k" arbitrary: s k)
    case 0
    then show ?case using unpark_end [OF 0(2,3)] by (fastforce intro: steps_more steps_refl)
  next
    case (Suc d)
    let ?s = "s\<lparr>wtoken := (wtoken s)(k := True), mpc := M_Unpark (k + 1)\<rparr>"
    have "main_step me n s ?s" using unpark_next [OF Suc.prems] Suc.hyps(2) by simp
    moreover have "\<exists>s'. steps (main_step me n) ?s s' \<and> mpc s' = M_Done" using Suc.hyps Suc.prems by (intro Suc.hyps(1) [of "k + 1"]) auto
    ultimately show ?case by (blast intro: steps_more)
  qed
  have spawn: "\<exists>s'. steps (main_step me n) s s' \<and> mpc s' = M_Done" if "mpc s = M_Spawn k" "k \<le> n" "workers_cell s = None" for s k
    using that
  proof (induction "n - k" arbitrary: s k)
    case 0
    let ?s = "s\<lparr>workers_cell := Some (built s), mpc := M_Unpark 0\<rparr>"
    have "main_step me n s ?s" using 0 by (intro set_workers) simp_all
    with unpark [of ?s 0] show ?case by (fastforce intro: steps_more)
  next
    case (Suc d)
    let ?s = "s\<lparr>wthread := (wthread s)(k := S_Check), built := built s @ [new_worker],
      handles := handles s @ [\<lparr>worker_index = of_nat k, shared = me, local_queue = with_capacity 32\<rparr>], mpc := M_Spawn (k + 1)\<rparr>"
    have "main_step me n s ?s" using Suc.hyps(2) Suc.prems by (intro spawn_thread) simp_all
    moreover have "\<exists>s'. steps (main_step me n) ?s s' \<and> mpc s' = M_Done" using Suc.hyps Suc.prems by (intro Suc.hyps(1) [of "k + 1"]) auto
    ultimately show ?case by (blast intro: steps_more)
  qed
  show ?thesis using assms unpark spawn by (cases "mpc s") (auto simp: main_ok_def intro: steps_refl)
qed

lemma entering_steps:
  assumes "wthread s i = S_Enter" "workers_cell s = Some ws" "index_get ws i = Inr w"
  shows "\<exists>s'. steps (thread_step i) s s' \<and> wthread s' i = S_Loop w"
  using enter [OF assms] by (fastforce intro: steps_more steps_refl)

lemma checking_steps:
  assumes "wthread s i = S_Check" "workers_cell s = Some ws" "index_get ws i = Inr w"
  shows "\<exists>s'. steps (thread_step i) s s' \<and> wthread s' i = S_Loop w"
  using check_set [OF assms(1,2)] entering_steps [of "s\<lparr>wthread := (wthread s)(i := S_Enter)\<rparr>" i ws w] assms(2,3) by (fastforce intro: steps_more)

lemma thread_starts:
  assumes "main_ok me n s" "thread_ok s i" "mpc s = M_Done" "i < n"
  shows "\<exists>s'. steps (thread_step i) s s' \<and> wthread s' i = S_Loop new_worker"
proof -
  obtain ws where ws: "workers_cell s = Some ws" and born: "wthread s i \<noteq> S_Unborn"
    using assms(1,3,4) by (auto simp: main_ok_def built_upto_def)
  note found = entry_found [OF assms(1) born ws]
  show ?thesis
  proof (cases "wthread s i")
    case S_Park
    let ?s = "s\<lparr>wthread := (wthread s)(i := S_Check), wtoken := (wtoken s)(i := False)\<rparr>"
    have "thread_step i s ?s" using S_Park assms(2,3) by (intro take_token) (simp_all add: thread_ok_def)
    with checking_steps [of ?s i ws] found ws show ?thesis by (fastforce intro: steps_more)
  next
    case (S_Loop w)
    then show ?thesis using assms(2) by (auto simp: thread_ok_def intro: steps_refl)
  qed (use born assms(2) checking_steps [OF _ ws found] entering_steps [OF _ ws found] in \<open>auto simp: thread_ok_def\<close>)
qed

text \<open>A new runtime: nobody is parked, nothing is queued, and there is a handle for every index.\<close>

lemma thread_per_core_ok:
  assumes "n < 2 ^ 64"
  shows "\<exists>r hs. thread_per_core me q0 (Inr n) = Inr (r, hs) \<and> workers_ok r (replicate n new_worker) \<and> global_queue r = q0 \<and>
    contents (parked_workers r) = [] \<and> map (unat \<circ> worker_index) hs = [0..<n] \<and> (\<forall>h \<in> set hs. shared h = me \<and> elems (local_queue h) = [])"
  using assms by (auto simp: thread_per_core_def mt_new_def init_workers_def new_runtime_def workers_ok_def new_map_ok map_replicate_trivial comp_def
      unat_of_nat take_bit_nat_eq_self intro!: map_idI)

text \<open>
  C8: When a runtime is created, under every interleaving with spurious returns of park: neither the
  main thread nor a worker panics, the main thread can finish, what it has set then is what
  \<^verbatim>\<open>init_workers\<close> returns, and from then on every worker can reach its loop with its own entry by its
  own steps, so no worker sleeps through the start.
\<close>

theorem every_worker_starts:
  assumes "startup_reaches me n r s" "workers r = None"
  shows "mpc s \<noteq> M_Panic \<and> wthread s i \<noteq> S_Panic \<and> (\<exists>s'. steps (main_step me n) s s' \<and> mpc s' = M_Done) \<and>
    (mpc s = M_Done \<longrightarrow> init_workers me n r = Inr (r\<lparr>workers := workers_cell s\<rparr>, handles s)) \<and>
    (mpc s = M_Done \<longrightarrow> i < n \<longrightarrow> (\<exists>s'. steps (thread_step i) s s' \<and> wthread s' i = S_Loop new_worker))"
proof -
  note I = startup_reachable [OF assms]
  have "mpc s \<noteq> M_Panic" "wthread s i \<noteq> S_Panic" using I(1) I(2) [of i] by (auto simp: main_ok_def thread_ok_def)
  moreover have "init_workers me n r = Inr (r\<lparr>workers := workers_cell s\<rparr>, handles s)" if "mpc s = M_Done"
    using that I(1) assms(2) by (simp add: main_ok_def built_upto_def init_workers_def)
  ultimately show ?thesis using main_finishes [OF I(1)] thread_starts [OF I(1) I(2) [of i]] by blast
qed

theorem every_worker_starts_witness:
  "\<exists>s s'. startup_reaches 0 2 (new_runtime [] 2 :: nat list mt_runtime) s \<and> mpc s = M_Done \<and> steps (thread_step 1) s s' \<and>
     wthread s' 1 = S_Loop new_worker"
proof -
  let ?r = "new_runtime [] 2 :: nat list mt_runtime"
  have r: "workers ?r = None" by (simp add: new_runtime_def)
  have i: "startup_reaches 0 2 ?r (startup_init ?r)" by (rule reaches_start) simp
  have main: "steps (startup_step 0 2) s s'" if "steps (main_step 0 2) s s'" for s s'
    using that by (induction rule: steps.induct) (auto intro: steps.intros startup_step.main)
  from every_worker_starts [OF i r] obtain s where s: "steps (main_step 0 2) (startup_init ?r) s" "mpc s = M_Done" by blast
  have t: "startup_reaches 0 2 ?r s" using reaches_steps [OF main [OF s(1)] i] .
  have "(1 :: nat) < 2" by simp
  with every_worker_starts [OF t r, of 1] s(2) t show ?thesis by blast
qed

end
