(* ===== verification/Block_On.thy ===== *)
theory Block_On
  imports Task_Conc
begin

text \<open>
  \<^verbatim>\<open>MTRuntime::block_on\<close> of \<^verbatim>\<open>src/src/lib.rs\<close> on a future that awaits the join handle of a task, interleaved with
  everything that happens to the task. The thread polls the handle as \<^verbatim>\<open>Task_Conc\<close> has it, step by step, under the waker
  \<open>me\<close> of \<^verbatim>\<open>ThreadWaker\<close>, whose wake is \<^verbatim>\<open>unpark\<close>: it leaves the token of the thread. \<^verbatim>\<open>thread::park\<close> waits for the
  token and takes it, or returns for no reason, as its documentation allows; anybody may leave a token. \<open>nested\<close> says whether
  the future itself parks the thread inside its poll, as code that blocks on a channel does.
\<close>

datatype 'o bpc =
    B_Poll                       \<comment> \<open>polls the handle\<close>
  | B_Rest                       \<comment> \<open>the handle is pending, before the future that awaits it returns\<close>
  | B_Park                       \<comment> \<open>the poll returned Pending, before or inside \<^verbatim>\<open>thread::park\<close>\<close>
  | B_Done "join_error + 'o"     \<comment> \<open>\<^verbatim>\<open>block_on\<close> has left its loop with the output\<close>

record ('f, 'o, 'aw) blocked =
  joined :: "('f, 'o, 'aw) tconc"
  park_token :: bool
  bpc :: "'o bpc"

text \<open>The steps of the task that are steps of a poll of the handle.\<close>

definition join_step :: "('f, 'o, 'aw) tconc \<Rightarrow> ('f, 'o, 'aw) tconc \<Rightarrow> bool" where
  "join_step t t' \<longleftrightarrow> jpc t' \<noteq> jpc t \<or> delivered t' \<noteq> delivered t"

text \<open>Where the thread is after a step of a poll.\<close>

definition after_join :: "('f, 'o, 'aw) tconc \<Rightarrow> ('f, 'o, 'aw) tconc \<Rightarrow> 'o bpc" where
  "after_join t t' = (if delivered t' \<noteq> delivered t then B_Done (last (delivered t')) else if jpc t' = J_Pending then B_Rest else B_Poll)"

definition blocked_init :: "'aw atomic_waker_ops \<Rightarrow> 'f \<Rightarrow> bool \<Rightarrow> ('f, 'o, 'aw) blocked" where
  "blocked_init aw f tok = \<lparr>joined = tconc_init aw f, park_token = tok, bpc = B_Poll\<rparr>"

text \<open>The steps of the blocked thread alone, and those of all threads.\<close>

inductive block_step ::
    "bool \<Rightarrow> nat \<Rightarrow> 'aw atomic_waker_ops \<Rightarrow> ('f \<Rightarrow> 'f \<times> 'o fut_poll) \<Rightarrow> ('f, 'o, 'aw) blocked \<Rightarrow> ('f, 'o, 'aw) blocked \<Rightarrow> bool"
  for nested :: bool and me :: nat and aw :: "'aw atomic_waker_ops" and fp :: "'f \<Rightarrow> 'f \<times> 'o fut_poll" where
  block_poll: "bpc s = B_Poll \<Longrightarrow> tstep aw fp (joined s) t \<Longrightarrow> join_step (joined s) t \<Longrightarrow> (\<forall>w. jpc t = J_Register w \<longrightarrow> w = me) \<Longrightarrow>
    block_step nested me aw fp s (s\<lparr>joined := t, bpc := after_join (joined s) t\<rparr>)"
| nested_park: "bpc s = B_Rest \<Longrightarrow> nested \<Longrightarrow> park_token s \<Longrightarrow> block_step nested me aw fp s (s\<lparr>park_token := False\<rparr>)"
| block_return: "bpc s = B_Rest \<Longrightarrow> block_step nested me aw fp s (s\<lparr>bpc := B_Park\<rparr>)"
| block_park: "bpc s = B_Park \<Longrightarrow> park_token s \<Longrightarrow> block_step nested me aw fp s (s\<lparr>park_token := False, bpc := B_Poll\<rparr>)"

inductive blocked_step ::
    "bool \<Rightarrow> nat \<Rightarrow> 'aw atomic_waker_ops \<Rightarrow> ('f \<Rightarrow> 'f \<times> 'o fut_poll) \<Rightarrow> ('f, 'o, 'aw) blocked \<Rightarrow> ('f, 'o, 'aw) blocked \<Rightarrow> bool"
  for nested :: bool and me :: nat and aw :: "'aw atomic_waker_ops" and fp :: "'f \<Rightarrow> 'f \<times> 'o fut_poll" where
  own: "block_step nested me aw fp s s' \<Longrightarrow> blocked_step nested me aw fp s s'"
| spurious: "bpc s = B_Park \<Longrightarrow> blocked_step nested me aw fp s (s\<lparr>bpc := B_Poll\<rparr>)"
| other: "tstep aw fp (joined s) t \<Longrightarrow> \<not> join_step (joined s) t \<Longrightarrow>
    blocked_step nested me aw fp s (s\<lparr>joined := t, park_token := (park_token s \<or> \<not> jwoken (joined s) \<and> jwoken t)\<rparr>)"
| stray: "blocked_step nested me aw fp s (s\<lparr>park_token := True\<rparr>)"

abbreviation blocked_reaches ::
    "bool \<Rightarrow> nat \<Rightarrow> 'aw atomic_waker_ops \<Rightarrow> ('f \<Rightarrow> 'f \<times> 'o fut_poll) \<Rightarrow> ('f, 'o, 'aw) blocked \<Rightarrow> bool" where
  "blocked_reaches nested me aw fp \<equiv> reaches (\<lambda>s. \<exists>f tok. s = blocked_init aw f tok) (blocked_step nested me aw fp)"

subsection \<open>The invariant\<close>

text \<open>Between the registration and the end of the park, a wake has left the token.\<close>

definition token_kept :: "('f, 'o, 'aw) blocked \<Rightarrow> bool" where
  "token_kept s \<longleftrightarrow> (jwoken (joined s) \<longrightarrow> (bpc s = B_Poll \<longrightarrow> jpc (joined s) = J_Recheck \<longrightarrow> park_token s) \<and>
     (bpc s = B_Rest \<or> bpc s = B_Park \<longrightarrow> park_token s))"

definition block_ok :: "('f, 'o, 'aw) blocked \<Rightarrow> bool" where
  "block_ok s \<longleftrightarrow> (bpc s = B_Rest \<or> bpc s = B_Park \<longrightarrow> jpc (joined s) = J_Pending) \<and>
     (case bpc s of B_Done v \<Rightarrow> final (joined s) = Some v | _ \<Rightarrow> delivered (joined s) = [])"

lemma final_kept: "tstep aw fp t t' \<Longrightarrow> final t = Some v \<Longrightarrow> final t' = Some v"
  by (cases rule: tstep.cases) auto

text \<open>What a step of the poll does.\<close>

lemma join_step_cases:
  assumes "tstep aw fp t t'" "join_step t t'"
  obtains v where "t' = t\<lparr>cell := Return (Inl Aborted), delivered := delivered t @ [v], jpc := J_Idle\<rparr>" "cell t = Return v"
    | w f where "t' = t\<lparr>jpc := J_Register w\<rparr>" "jpc t = J_Idle \<or> jpc t = J_Pending" "cell t = Future f"
    | w where "t' = t\<lparr>jw := aw_register aw w (jw t), jwaker := w, jwoken := False, jpc := J_Recheck\<rparr>" "jpc t = J_Register w"
    | f where "t' = t\<lparr>jpc := J_Pending\<rparr>" "jpc t = J_Recheck" "cell t = Future f"
  using assms(1)
proof cases
  case (join_take v)
  then show ?thesis using that(1) by blast
next
  case (join_first f w)
  then show ?thesis using that(2) by blast
next
  case (join_register w)
  then show ?thesis using that(3) by blast
next
  case (join_second f)
  then show ?thesis using that(4) by blast
qed (use assms(2) in \<open>simp_all add: join_step_def\<close>)

lemma token_kept_step:
  assumes "blocked_step False me aw fp s s'" "token_kept s" "block_ok s"
  shows "token_kept s'"
  using assms(1)
proof cases
  case own
  then show ?thesis
  proof cases
    case (block_poll t)
    from block_poll(3,4) show ?thesis
      by (cases rule: join_step_cases) (use block_poll assms(2) in \<open>auto simp: token_kept_def after_join_def\<close>)
  qed (use assms(2,3) in \<open>auto simp: token_kept_def block_ok_def\<close>)
next
  case (other t)
  then show ?thesis using assms(2) by (auto simp: token_kept_def join_step_def)
qed (use assms(2,3) in \<open>auto simp: token_kept_def block_ok_def\<close>)

lemma block_ok_step:
  assumes "blocked_step nested me aw fp s s'" "block_ok s" "result_ok (joined s)"
  shows "block_ok s'"
  using assms(1)
proof cases
  case own
  then show ?thesis
  proof cases
    case (block_poll t)
    then have d: "delivered (joined s) = []" using assms(2) by (simp add: block_ok_def)
    from block_poll(3,4) show ?thesis
      by (cases rule: join_step_cases) (use block_poll d assms(3) in \<open>auto simp: block_ok_def after_join_def result_ok_def\<close>)
  qed (use assms(2) in \<open>auto simp: block_ok_def split: bpc.splits\<close>)
next
  case (other t)
  then show ?thesis using assms(2) final_kept [OF other(2)] by (auto simp: block_ok_def join_step_def split: bpc.splits)
qed (use assms(2) in \<open>auto simp: block_ok_def split: bpc.splits\<close>)

definition block_inv :: "bool \<Rightarrow> 'aw atomic_waker_ops \<Rightarrow> ('f, 'o, 'aw) blocked \<Rightarrow> bool" where
  "block_inv nested aw s \<longleftrightarrow> task_inv aw (joined s) \<and> block_ok s \<and> (nested \<or> token_kept s)"

lemma block_inv_init: "atomic_waker_spec aw \<Longrightarrow> block_inv nested aw (blocked_init aw f tok)"
  using task_inv_init [of aw f] by (simp add: block_inv_def blocked_init_def block_ok_def token_kept_def tconc_init_def)

lemma block_inv_step:
  assumes "atomic_waker_spec aw" "block_inv nested aw s" "blocked_step nested me aw fp s s'"
  shows "block_inv nested aw s'"
proof -
  note I = assms(2) [unfolded block_inv_def]
  have "joined s' = joined s \<or> tstep aw fp (joined s) (joined s')" using assms(3) by (auto elim!: blocked_step.cases block_step.cases)
  then have "task_inv aw (joined s')" using I task_inv_step [OF assms(1)] by metis
  moreover have "block_ok s'" using block_ok_step [OF assms(3)] I by (simp add: task_inv_def)
  moreover have "nested \<or> token_kept s'" using token_kept_step assms(3) I by (cases nested) auto
  ultimately show ?thesis by (simp add: block_inv_def)
qed

interpretation bo: transition_system "\<lambda>s. \<exists>f tok. s = blocked_init aw f tok" "blocked_step nested me aw fp"
  "\<lambda>s. atomic_waker_spec aw \<longrightarrow> block_inv nested aw s"
  for nested me aw fp
  by unfold_locales (auto intro: block_inv_init block_inv_step)

lemma blocked_inv:
  assumes "atomic_waker_spec aw" "blocked_reaches nested me aw fp s"
  shows "task_inv aw (joined s)" "block_ok s" "nested \<or> token_kept s"
  using bo.invar_reaches [OF assms(2)] assms(1) by (simp_all add: block_inv_def)

subsection \<open>The thread leaves its loop\<close>

text \<open>How many steps the blocked thread still needs once the result is there.\<close>

fun block_rank :: "('f, 'o, 'aw) blocked \<Rightarrow> nat" where
  "block_rank s = (case bpc s of
     B_Done _ \<Rightarrow> 0
   | B_Poll \<Rightarrow> (case jpc (joined s) of J_Register _ \<Rightarrow> 2 | _ \<Rightarrow> 1)
   | B_Park \<Rightarrow> 3
   | B_Rest \<Rightarrow> 4)"

text \<open>The result is stored and nobody else is busy with the task.\<close>

definition settled :: "('f, 'o, 'aw) blocked \<Rightarrow> bool" where
  "settled s \<longleftrightarrow> is_return (cell (joined s)) \<and> (\<forall>t. pc (joined s) t = T_Idle)"

lemma settled_progress:
  assumes "atomic_waker_spec aw" "block_inv False aw s" "settled s" "\<forall>v. bpc s \<noteq> B_Done v"
  shows "\<exists>s'. block_step False me aw fp s s'"
proof -
  obtain v where c: "cell (joined s) = Return v" using assms(3) by (cases "cell (joined s)") (auto simp: settled_def)
  have h: "holder (joined s) = None"
    using assms(2,3) by (cases "holder (joined s)") (auto simp: block_inv_def task_inv_def lock_ok_def settled_def)
  show ?thesis
  proof (cases "bpc s")
    case B_Poll
    show ?thesis
    proof (cases "\<exists>w. jpc (joined s) = J_Register w")
      case True
      then obtain w where "jpc (joined s) = J_Register w" by blast
      then show ?thesis using block_poll [OF B_Poll join_register [of _ w]] by (fastforce simp: join_step_def)
    next
      case False
      then have "jpc (joined s) = J_Idle \<or> jpc (joined s) = J_Pending \<or> jpc (joined s) = J_Recheck" by (cases "jpc (joined s)") auto
      then show ?thesis using block_poll [OF B_Poll join_take [OF _ h c]] by (fastforce simp: join_step_def)
    qed
  next
    case B_Park
    then have "jwoken (joined s)" using assms(2,3) some_pc_idle [of "pc (joined s)" waking_pc]
      by (auto simp: block_inv_def task_inv_def join_safe_def block_ok_def settled_def)
    then show ?thesis using block_park [OF B_Park] B_Park assms(2) by (fastforce simp: block_inv_def token_kept_def)
  qed (use assms(4) in \<open>auto intro: block_return\<close>)
qed

lemma settled_step:
  assumes "block_step False me aw fp s s'" "settled s"
  shows "settled s' \<and> block_rank s' < block_rank s"
  using assms(1)
proof cases
  case (block_poll t)
  from block_poll(3,4) show ?thesis
    by (cases rule: join_step_cases) (use block_poll assms(2) in \<open>auto simp: settled_def after_join_def split: jpc.splits\<close>)
qed (use assms(2) in \<open>auto simp: settled_def split: jpc.splits\<close>)


lemma settled_finishes:
  assumes "atomic_waker_spec aw" "block_inv False aw s" "settled s"
  shows "\<exists>s' v. steps (block_step False me aw fp) s s' \<and> bpc s' = B_Done v"
  using assms(2,3)
proof (induction "block_rank s" arbitrary: s rule: less_induct)
  case less
  show ?case
  proof (cases "\<exists>v. bpc s = B_Done v")
    case True
    then show ?thesis by (auto intro: steps_refl)
  next
    case False
    then obtain s1 where s1: "block_step False me aw fp s s1" using settled_progress [OF assms(1) less.prems] by blast
    then have "block_inv False aw s1" using block_inv_step [OF assms(1) less.prems(1)] own by blast
    with settled_step [OF s1 less.prems(2)] less.hyps obtain s' v where "steps (block_step False me aw fp) s1 s'" "bpc s' = B_Done v" by blast
    with s1 show ?thesis by (blast intro: steps_more)
  qed
qed

lemma block_steps_keep:
  assumes "steps (block_step False me aw fp) s s'" "atomic_waker_spec aw" "block_inv False aw s" "settled s" "final (joined s) = Some r"
  shows "block_inv False aw s' \<and> settled s' \<and> final (joined s') = Some r"
  using assms(1,3-5)
proof (induction rule: steps.induct)
  case (steps_more s t u)
  have "joined t = joined s \<or> tstep aw fp (joined s) (joined t)" using steps_more.hyps(1) by (auto elim!: block_step.cases)
  then have "final (joined t) = Some r" using steps_more.prems(3) final_kept by metis
  moreover have "block_inv False aw t" using block_inv_step [OF assms(2) steps_more.prems(1)] own steps_more.hyps(1) by blast
  moreover have "settled t" using settled_step [OF steps_more.hyps(1) steps_more.prems(2)] by blast
  ultimately show ?case using steps_more.IH by blast
qed simp

subsection \<open>Steps of the others\<close>

lemma other_steps:
  assumes "steps (\<lambda>t t'. tstep aw fp t t' \<and> \<not> join_step t t') (joined s) t"
  shows "\<exists>tok. steps (blocked_step nested me aw fp) s (s\<lparr>joined := t, park_token := tok\<rparr>)"
  using assms
proof (induction "joined s" t arbitrary: s rule: steps.induct)
  case steps_refl
  have "s\<lparr>joined := joined s, park_token := park_token s\<rparr> = s" by simp
  then show ?case by (metis steps.steps_refl)
next
  case (steps_more t u)
  let ?s = "s\<lparr>joined := t, park_token := (park_token s \<or> \<not> jwoken (joined s) \<and> jwoken t)\<rparr>"
  have "blocked_step nested me aw fp s ?s" using steps_more.hyps(1) by (intro other) auto
  moreover obtain tok where "steps (blocked_step nested me aw fp) ?s (?s\<lparr>joined := u, park_token := tok\<rparr>)"
    using steps_more.hyps(3) [of ?s] by auto
  ultimately show ?case by (intro exI [of _ tok]) (auto intro: steps.steps_more)
qed

lemma sample_runs: "steps (\<lambda>t t'. tstep option_waker sample_future t t' \<and> \<not> join_step t t') sample_pending sample_finished"
proof -
  note r = steps_trans [OF _ steps_more [where step = "\<lambda>t t'. tstep option_waker sample_future t t' \<and> \<not> join_step t t'", OF conjI steps_refl]]
  note 1 = r [OF steps_refl tstep.wake_local, of sample_pending]
  note 2 = r [OF 1 tstep.take_task [where t = 1 and k = 0]]
  note 3 = r [OF 2 tstep.run_ok_idle [where t = 1 and x = RUNNING]]
  note 4 = r [OF 3 tstep.lock [where t = 1]]
  note 5 = r [OF 4 tstep.poll_ready [where t = 1 and j = "Return (Inr 42)"]]
  note 6 = r [OF 5 tstep.store [where t = 1]]
  note 7 = r [OF 6 tstep.drop_ready [where t = 1]]
  note 8 = r [OF 7 tstep.wake_joiner [where t = 1 and a = None and w = "Some 9"]]
  show ?thesis using 8
    by (simp add: sample_finished_def sample_pending_def at_pc_def option_waker_def sample_future_def join_step_def fun_upd_idem)
qed

lemma blocked_sample_pending:
  "blocked_reaches nested 9 option_waker sample_future \<lparr>joined = sample_pending, park_token = False, bpc = B_Rest\<rparr>"
proof -
  let ?s0 = "blocked_init option_waker 0 False :: (nat, nat, nat option) blocked"
  note r = reaches_step [where start = "\<lambda>s. \<exists>f tok. s = blocked_init option_waker f tok" and step = "blocked_step nested 9 option_waker sample_future"]
  have 0: "blocked_reaches nested 9 option_waker sample_future ?s0" by (rule reaches_start) blast
  note 1 = r [OF 0 own [OF block_poll [OF _ tstep.join_first [where f = 0 and w = 9]]]]
  note 2 = r [OF 1 own [OF block_poll [OF _ tstep.join_register [where w = 9]]]]
  note 3 = r [OF 2 own [OF block_poll [OF _ tstep.join_second [where f = 0]]]]
  show ?thesis using 3 by (simp add: blocked_init_def sample_pending_def tconc_init_def new_task_def option_waker_def IDLE_def join_step_def after_join_def)
qed

lemma blocked_sample_finished:
  "\<exists>tok. blocked_reaches nested 9 option_waker sample_future \<lparr>joined = sample_finished, park_token = tok, bpc = B_Rest\<rparr>"
proof -
  let ?s = "\<lparr>joined = sample_pending, park_token = False, bpc = B_Rest\<rparr>"
  have "steps (\<lambda>t t'. tstep option_waker sample_future t t' \<and> \<not> join_step t t') (joined ?s) sample_finished"
    using sample_runs by simp
  from other_steps [OF this, of nested 9] obtain tok where
    "steps (blocked_step nested 9 option_waker sample_future) ?s \<lparr>joined = sample_finished, park_token = tok, bpc = B_Rest\<rparr>" by auto
  from reaches_steps [OF this blocked_sample_pending] show ?thesis ..
qed

subsection \<open>Properties\<close>

text \<open>
  C6: block_on over a join handle, under every interleaving with what happens to the task: once the
  result is stored and no thread is busy with the task, the blocked thread can always take a step,
  each step brings it closer to the end of its loop, and it leaves the loop with the first result
  that was stored. This holds when the future does not park its thread itself.
\<close>

theorem block_on_join_returns:
  assumes "atomic_waker_spec aw" "blocked_reaches False me aw fp s" "is_return (cell (joined s))" "\<forall>t. pc (joined s) t = T_Idle"
  shows "\<exists>r. final (joined s) = Some r \<and> (\<exists>s'. steps (block_step False me aw fp) s s' \<and> bpc s' = B_Done r) \<and>
    (\<forall>s'. steps (block_step False me aw fp) s s' \<longrightarrow> bpc s' = B_Done r \<or> (\<exists>s''. block_step False me aw fp s' s'')) \<and>
    (\<forall>s' s''. steps (block_step False me aw fp) s s' \<longrightarrow> block_step False me aw fp s' s'' \<longrightarrow> block_rank s'' < block_rank s')"
proof -
  have I: "block_inv False aw s" using bo.invar_reaches [OF assms(2)] assms(1) by blast
  have S: "settled s" using assms(3,4) by (simp add: settled_def)
  obtain r where r: "final (joined s) = Some r" using I assms(3) by (cases "cell (joined s)") (auto simp: block_inv_def task_inv_def result_ok_def)
  note K = block_steps_keep [OF _ assms(1) I S r]
  have D: "v = r" if "steps (block_step False me aw fp) s s'" "bpc s' = B_Done v" for s' v
    using K [OF that(1)] that(2) by (auto simp: block_inv_def block_ok_def)
  show ?thesis using r settled_finishes [OF assms(1) I S] K D settled_progress [OF assms(1)] settled_step by metis
qed

theorem block_on_join_returns_witness:
  "\<exists>s s'. blocked_reaches False 9 option_waker sample_future s \<and> steps (block_step False 9 option_waker sample_future) s s' \<and>
     bpc s = B_Rest \<and> bpc s' = B_Done (Inr 42)"
proof -
  obtain tok where t: "blocked_reaches False 9 option_waker sample_future \<lparr>joined = sample_finished, park_token = tok, bpc = B_Rest\<rparr>"
    (is "blocked_reaches _ _ _ _ ?t") using blocked_sample_finished by blast
  have f: "is_return (cell (joined ?t))" "\<forall>x. pc (joined ?t) x = T_Idle" "final (joined ?t) = Some (Inr 42)" "bpc ?t = B_Rest"
    by (simp_all add: sample_finished_def sample_pending_def)
  from block_on_join_returns [OF option_waker_ok t f(1,2)] f(3) obtain s' where
    "steps (block_step False 9 option_waker sample_future) ?t s'" "bpc s' = B_Done (Inr 42)" by auto
  with t f(4) show ?thesis by blast
qed

text \<open>
  C7: When the future parks its thread inside its poll, there is an execution after which the task
  is complete, no thread is busy with it, and block_on waits in its park with no token: the park
  inside the poll has taken the token of the wake-up.
\<close>

theorem nested_park_loses_wake:
  "\<exists>s. blocked_reaches True 9 option_waker sample_future s \<and> is_return (cell (joined s)) \<and> (\<forall>t. pc (joined s) t = T_Idle) \<and>
     \<not> queued (joined s) \<and> bpc s = B_Park \<and> (\<nexists>s'. block_step True 9 option_waker sample_future s s')"
proof -
  let ?t = "\<lparr>joined = sample_finished, park_token = False, bpc = B_Rest\<rparr>"
  obtain tok where 1: "blocked_reaches True 9 option_waker sample_future (?t\<lparr>park_token := tok\<rparr>)" using blocked_sample_finished by auto
  have 2: "blocked_reaches True 9 option_waker sample_future ?t"
    using 1 reaches_step [OF 1 own [OF nested_park]] by (cases tok) simp_all
  have "blocked_reaches True 9 option_waker sample_future (?t\<lparr>bpc := B_Park\<rparr>)" using reaches_step [OF 2 own [OF block_return]] by simp
  then show ?thesis by (intro exI [of _ "?t\<lparr>bpc := B_Park\<rparr>"])
    (auto simp: sample_finished_def sample_pending_def queued_def elim: block_step.cases)
qed

end
