(* ===== verification/Fmt.thy ===== *)
theory Fmt
  imports Prelude
begin

text \<open>
  What the sources use of \<^verbatim>\<open>std::fmt\<close>: integers in a radix, the builder behind \<^verbatim>\<open>debug_struct\<close>, the derived \<^verbatim>\<open>Debug\<close> of an
  option, and the adapter that indents a nested value when the alternate form \<^verbatim>\<open>{:#?}\<close> is asked for. A value to
  be shown is its text as a function of whether the alternate form is on.
\<close>

subsection \<open>Integers\<close>

definition digit :: "nat \<Rightarrow> char" where
  "digit d = char_of (48 + d)"

function radix :: "nat \<Rightarrow> nat \<Rightarrow> string" where
  "radix b n = (if b < 2 \<or> n < b then [digit n] else radix b (n div b) @ [digit (n mod b)])"
  by auto
termination by (relation "measure snd") auto

declare radix.simps [simp del]

definition display_nat :: "nat \<Rightarrow> string" where
  "display_nat n = radix 10 n"

definition display_binary :: "nat \<Rightarrow> string" where
  "display_binary n = radix 2 n"

text \<open>Reading the digits of a number.\<close>

definition read_radix :: "nat \<Rightarrow> string \<Rightarrow> nat" where
  "read_radix b s = foldl (\<lambda>n c. b * n + (of_char c - 48)) 0 s"

lemma of_char_digit: "d < 10 \<Longrightarrow> (of_char (digit d) :: nat) = 48 + d"
  by (simp add: digit_def)

lemma read_radix: "2 \<le> b \<Longrightarrow> b \<le> 10 \<Longrightarrow> read_radix b (radix b n) = n"
proof (induction b n rule: radix.induct)
  case (1 b n)
  have "n mod b < 10" using 1(2,3) mod_less_divisor [of b n] by linarith
  then show ?case using 1 by (subst radix.simps) (simp add: read_radix_def of_char_digit)
qed

lemma radix_digits: "2 \<le> b \<Longrightarrow> set (radix b n) \<subseteq> digit ` {..<b}"
proof (induction b n rule: radix.induct)
  case (1 b n)
  then show ?case by (subst radix.simps) auto
qed

lemma not_a_digit: "(of_char c :: nat) < 48 \<or> 57 < (of_char c :: nat) \<Longrightarrow> c \<notin> digit ` {..<10}"
  using of_char_digit by auto

lemma radix_no_char:
  assumes "2 \<le> b" "b \<le> 10" "(of_char c :: nat) < 48 \<or> 57 < (of_char c :: nat)"
  shows "c \<notin> set (radix b n)"
  using radix_digits [OF assms(1), of n] not_a_digit [OF assms(3)] assms(2) by auto

lemma radix_inj: "2 \<le> b \<Longrightarrow> b \<le> 10 \<Longrightarrow> radix b m = radix b n \<longleftrightarrow> m = n"
  by (metis read_radix)

lemma display_nat_simps: "display_nat n = (if n < 10 then [digit n] else display_nat (n div 10) @ [digit (n mod 10)])"
  unfolding display_nat_def by (subst radix.simps) simp

text \<open>Two texts that end before a character that is in neither.\<close>

lemma append_Cons_inj: "c \<notin> set xs \<Longrightarrow> c \<notin> set ys \<Longrightarrow> xs @ c # zs = ys @ c # us \<longleftrightarrow> xs = ys \<and> zs = us"
proof (induction xs arbitrary: ys)
  case Nil
  then show ?case by (cases ys) auto
next
  case (Cons x xs)
  then show ?case by (cases ys) auto
qed

subsection \<open>Builders\<close>

type_synonym shown = "bool \<Rightarrow> string"

fun show_bool :: "bool \<Rightarrow> shown" where
  "show_bool True alt = ''true''"
| "show_bool False alt = ''false''"

text \<open>\<^verbatim>\<open>PadAdapter\<close>: four spaces before every line.\<close>

fun pad :: "bool \<Rightarrow> string \<Rightarrow> string" where
  "pad on_newline [] = []"
| "pad on_newline (c # s) = (if on_newline then ''    '' else []) @ c # pad (c = CHR 0x0A) s"

fun debug_fields :: "bool \<Rightarrow> bool \<Rightarrow> (string \<times> shown) list \<Rightarrow> string" where
  "debug_fields alt has_fields [] = (if has_fields then (if alt then ''}'' else '' }'') else [])"
| "debug_fields alt has_fields ((name, val) # fs) =
     (if alt then (if has_fields then [] else '' {'' @ [CHR 0x0A]) @ pad True (name @ '': '' @ val True @ '','' @ [CHR 0x0A])
      else (if has_fields then '', '' else '' { '') @ name @ '': '' @ val False) @ debug_fields alt True fs"

definition debug_struct :: "string \<Rightarrow> (string \<times> shown) list \<Rightarrow> shown" where
  "debug_struct name fs alt = name @ debug_fields alt False fs"

definition show_option :: "shown option \<Rightarrow> shown" where
  "show_option x alt = (case x of
       None \<Rightarrow> ''None''
     | Some v \<Rightarrow> if alt then ''Some('' @ [CHR 0x0A] @ pad True (v True @ '','' @ [CHR 0x0A]) @ '')'' else ''Some('' @ v False @ '')'')"

lemma show_bool_append [simp]: "show_bool a alt @ s = show_bool b alt @ t \<longleftrightarrow> a = b \<and> s = t"
  by (cases a; cases b) auto

lemma show_bool_inj [simp]: "show_bool a alt = show_bool b alt \<longleftrightarrow> a = b"
  by (cases a; cases b) auto

lemma pad_show_bool [simp]: "pad False (show_bool b alt @ s) = show_bool b alt @ pad False s"
  by (cases b) simp_all

end
