(* ===== verification/Debug_Output.thy ===== *)
theory Debug_Output
  imports Fmt Bits Ready Task Udp Tcp
begin

text \<open>
  The texts the types of the runtime show: \<^verbatim>\<open>Debug\<close> of \<^verbatim>\<open>Pack\<close> (\<^verbatim>\<open>bits.rs\<close>), of \<^verbatim>\<open>Ready\<close> (\<^verbatim>\<open>io/ready.rs\<close>), of
  \<^verbatim>\<open>PollEvented\<close> (\<^verbatim>\<open>io/poll_evented.rs\<close>) and of the sockets, which show their \<^verbatim>\<open>PollEvented\<close>, and \<^verbatim>\<open>Display\<close> and \<^verbatim>\<open>Debug\<close>
  of \<^verbatim>\<open>JoinError\<close> (\<^verbatim>\<open>join_handle.rs\<close>). How a source shows itself is a parameter. The lemmas show that the text of a
  field of a word tells which one it is, and what the text of a readiness tells.
\<close>

definition pack_fmt :: "Pack \<Rightarrow> shown" where
  "pack_fmt p alt = ''Pack { mask: '' @ display_binary (unat (pmask p)) @ '', shift: '' @ display_nat (unat (pshift p)) @ '' }''"

definition ready_fmt :: "ready \<Rightarrow> shown" where
  "ready_fmt r =
     debug_struct ''Ready''
       [(''is_readable'', show_bool (is_readable r)), (''is_writable'', show_bool (is_writable r)),
        (''is_read_closed'', show_bool (is_read_closed r)), (''is_write_closed'', show_bool (is_write_closed r))]"

definition poll_evented_fmt :: "('e \<Rightarrow> shown) \<Rightarrow> 'e poll_evented \<Rightarrow> shown" where
  "poll_evented_fmt show_source pe = debug_struct ''PollEvented'' [(''io'', show_option (map_option show_source (io pe)))]"

definition tcp_stream_fmt :: "('e \<Rightarrow> shown) \<Rightarrow> 'e tcp_stream \<Rightarrow> shown" where
  "tcp_stream_fmt show_source s = poll_evented_fmt show_source (tcp_io s)"

definition tcp_listener_fmt :: "('d \<Rightarrow> shown) \<Rightarrow> 'd tcp_listener \<Rightarrow> shown" where
  "tcp_listener_fmt show_source l = poll_evented_fmt show_source (listener_io l)"

definition udp_socket_fmt :: "('e \<Rightarrow> shown) \<Rightarrow> 'e udp_socket \<Rightarrow> shown" where
  "udp_socket_fmt show_source s = poll_evented_fmt show_source (udp_io s)"

text \<open>The value of a panic is not shown.\<close>

fun join_error_display :: "join_error \<Rightarrow> shown" where
  "join_error_display Aborted alt = ''task was aborted''"
| "join_error_display (Panic p) alt = ''task panicked''"

fun join_error_fmt :: "join_error \<Rightarrow> shown" where
  "join_error_fmt Aborted alt = ''JoinError::Aborted''"
| "join_error_fmt (Panic p) alt = ''JoinError::Panic(...)''"

lemma pack_fmt_inj: "pack_fmt p alt = pack_fmt q alt \<Longrightarrow> p = q"
proof -
  assume a: "pack_fmt p alt = pack_fmt q alt"
  have n: "CHR '','' \<notin> set (radix 2 m)" "CHR '' '' \<notin> set (radix 10 m)" for m by (rule radix_no_char; simp)+
  have "radix 2 (unat (pmask p)) = radix 2 (unat (pmask q)) \<and> radix 10 (unat (pshift p)) = radix 10 (unat (pshift q))"
    using a n by (simp add: pack_fmt_def display_binary_def display_nat_def append_Cons_inj)
  then show ?thesis by (simp add: radix_inj word_unat_eq_iff)
qed

text \<open>
  \<^verbatim>\<open>is_readable\<close> is also true of a source whose reading side is closed, so the text of a readiness does not tell whether the flag
  \<^verbatim>\<open>READABLE\<close> is set then: it tells the four answers and no more.
\<close>

lemma ready_fmt_eq:
  "ready_fmt r alt = ready_fmt s alt \<longleftrightarrow> is_readable r = is_readable s \<and> is_writable r = is_writable s \<and>
     is_read_closed r = is_read_closed s \<and> is_write_closed r = is_write_closed s"
  by (cases alt) (simp_all add: ready_fmt_def debug_struct_def)

lemma ready_fmt_ambiguous: "ready_fmt READ_CLOSED alt = ready_fmt (bitor READABLE READ_CLOSED) alt"
  by (simp add: ready_fmt_eq is_readable_def is_writable_def is_read_closed_def is_write_closed_def contains_def bitand_def bitor_def
      READABLE_def WRITABLE_def READ_CLOSED_def WRITE_CLOSED_def)

end
