(* ===== verification/Http_Date.thy ===== *)
theory Http_Date
  imports Prelude
begin

text \<open>
  The module \<^verbatim>\<open>date\<close> of \<^verbatim>\<open>src/examples/http-server.rs\<close>: the rendered date of a \<^verbatim>\<open>Date\<close> header, kept by each
  thread in a buffer of 128 bytes for the second it was rendered in. Byte strings are lists of characters. A \<^verbatim>\<open>SystemTime\<close>
  is the number of nanoseconds since the epoch. The rendering of \<^verbatim>\<open>HttpDate\<close> is a parameter: the pieces its
  \<^verbatim>\<open>Display\<close> writes, or the panic of its conversion.
\<close>

subsection \<open>UTF-8\<close>

text \<open>What \<^verbatim>\<open>str::from_utf8\<close> accepts: no overlong forms, no surrogates, nothing above U+10FFFF.\<close>

definition continuation :: "nat \<Rightarrow> bool" where
  "continuation b \<longleftrightarrow> 0x80 \<le> b \<and> b \<le> 0xBF"

definition second_ok :: "nat \<Rightarrow> nat \<Rightarrow> bool" where
  "second_ok a b \<longleftrightarrow>
     (if a = 0xE0 then 0xA0 \<le> b \<and> b \<le> 0xBF
      else if a = 0xED then 0x80 \<le> b \<and> b \<le> 0x9F
      else if a = 0xF0 then 0x90 \<le> b \<and> b \<le> 0xBF
      else if a = 0xF4 then 0x80 \<le> b \<and> b \<le> 0x8F
      else continuation b)"

text \<open>The number of bytes that follow a leading byte, when they are right.\<close>

definition trailing :: "nat \<Rightarrow> nat list \<Rightarrow> nat option" where
  "trailing a s =
     (if a < 0x80 then Some 0
      else if 0xC2 \<le> a \<and> a \<le> 0xDF then (case s of b # _ \<Rightarrow> if continuation b then Some 1 else None | _ \<Rightarrow> None)
      else if 0xE0 \<le> a \<and> a \<le> 0xEF then
        (case s of b # c # _ \<Rightarrow> if second_ok a b \<and> continuation c then Some 2 else None | _ \<Rightarrow> None)
      else if 0xF0 \<le> a \<and> a \<le> 0xF4 then
        (case s of b # c # d # _ \<Rightarrow> if second_ok a b \<and> continuation c \<and> continuation d then Some 3 else None | _ \<Rightarrow> None)
      else None)"

fun utf8 :: "nat list \<Rightarrow> bool" where
  "utf8 [] = True"
| "utf8 (a # s) = (case trailing a s of None \<Rightarrow> False | Some n \<Rightarrow> utf8 (drop n s))"

definition from_utf8 :: "string \<Rightarrow> string option" where
  "from_utf8 s = (if utf8 (map of_char s) then Some s else None)"

subsection \<open>The cache\<close>

type_synonym system_time = int

record last_rendered_now =
  cached_bytes :: string
  cached_amt :: nat
  unix_date :: nat

definition LAST :: last_rendered_now where
  "LAST = \<lparr>cached_bytes = replicate 128 (CHR 0x00), cached_amt = 0, unix_date = 0\<rparr>"

text \<open>\<^verbatim>\<open>LocalBuffer::write_str\<close>: the slice panics when its end is outside the buffer.\<close>

definition local_write_str :: "string \<Rightarrow> last_rendered_now \<Rightarrow> panic + last_rendered_now" where
  "local_write_str s c =
     (let start = cached_amt c; stop = start + length s in
      if stop \<le> length (cached_bytes c)
      then Inr (c\<lparr>cached_bytes := take start (cached_bytes c) @ s @ drop stop (cached_bytes c), cached_amt := cached_amt c + length s\<rparr>)
      else Inl Index_Out_Of_Bounds)"

fun write_pieces :: "string list \<Rightarrow> last_rendered_now \<Rightarrow> panic + last_rendered_now" where
  "write_pieces [] c = Inr c"
| "write_pieces (p # ps) c = bindE (local_write_str p c) (write_pieces ps)"

definition buffer :: "last_rendered_now \<Rightarrow> panic + string" where
  "buffer c =
     (if cached_amt c \<le> length (cached_bytes c)
      then (case from_utf8 (take (cached_amt c) (cached_bytes c)) of None \<Rightarrow> Inl Unwrap_Err | Some s \<Rightarrow> Inr s)
      else Inl Index_Out_Of_Bounds)"

definition update :: "(system_time \<Rightarrow> panic + string list) \<Rightarrow> system_time \<Rightarrow> nat \<Rightarrow> last_rendered_now \<Rightarrow> panic + last_rendered_now" where
  "update render now now_unix c =
     (let c1 = c\<lparr>cached_amt := 0, unix_date := now_unix\<rparr> in bindE (render now) (\<lambda>pieces. write_pieces pieces c1))"

text \<open>The whole seconds since the epoch, 0 for a clock before it.\<close>

definition unix_secs :: "system_time \<Rightarrow> nat" where
  "unix_secs now = (if 0 \<le> now then nat (now div 1000000000) else 0)"

definition now_fmt :: "(system_time \<Rightarrow> panic + string list) \<Rightarrow> system_time \<Rightarrow> last_rendered_now \<Rightarrow> panic + string \<times> last_rendered_now" where
  "now_fmt render now c =
     (let now_unix = unix_secs now in
      bindE (if unix_date c \<noteq> now_unix then update render now now_unix c else Inr c)
        (\<lambda>c1. bindE (buffer c1) (\<lambda>s. Inr (s, c1))))"

text \<open>The dates a thread renders one after the other.\<close>

fun render_all :: "(system_time \<Rightarrow> panic + string list) \<Rightarrow> system_time list \<Rightarrow> last_rendered_now \<Rightarrow> panic + string list \<times> last_rendered_now" where
  "render_all render [] c = Inr ([], c)"
| "render_all render (t # ts) c =
     bindE (now_fmt render t c) (\<lambda>(s, c1). bindE (render_all render ts c1) (\<lambda>(ss, c2). Inr (s # ss, c2)))"

subsection \<open>What the code relies on\<close>

text \<open>
  \<^verbatim>\<open>HttpDate\<close> has a resolution of seconds, and its text is one line of less than 128 bytes.
\<close>

definition http_date_spec :: "(system_time \<Rightarrow> panic + string list) \<Rightarrow> bool" where
  "http_date_spec render \<longleftrightarrow>
     (\<forall>t u. 0 \<le> t \<and> 0 \<le> u \<and> unix_secs t = unix_secs u \<longrightarrow> render t = render u) \<and>
     (\<forall>t ps. render t = Inr ps \<longrightarrow> length (concat ps) < 128 \<and> (\<forall>p \<in> set ps. utf8 (map of_char p) \<and> CHR 0x0D \<notin> set p))"

text \<open>The date without the cache.\<close>

definition uncached :: "(system_time \<Rightarrow> panic + string list) \<Rightarrow> system_time \<Rightarrow> string" where
  "uncached render t = (case render t of Inl _ \<Rightarrow> [] | Inr ps \<Rightarrow> concat ps)"

text \<open>An instance: the first ten seconds of every minute of 1970.\<close>

definition sample_date :: "system_time \<Rightarrow> panic + string list" where
  "sample_date t =
     (if t < 0 then Inl (Expect_Failed ''all times should be after the epoch'')
      else Inr [''Thu, 01 Jan 1970 00:00:0'', [char_of (48 + unix_secs t mod 10)], '' GMT''])"

subsection \<open>Lemmas\<close>

lemma trailing_append: "trailing a s = Some n \<Longrightarrow> n \<le> length s \<and> trailing a (s @ t) = Some n"
  by (auto simp: trailing_def split: if_splits list.splits)

lemma utf8_append: "utf8 a \<Longrightarrow> utf8 b \<Longrightarrow> utf8 (a @ b)"
proof (induction a rule: utf8.induct)
  case (2 a s)
  then obtain n where n: "trailing a s = Some n" "utf8 (drop n s)" by (auto split: option.splits)
  with 2 trailing_append [OF n(1), of b] show ?case by auto
qed simp

lemma utf8_ascii: "\<forall>x \<in> set a. x < 0x80 \<Longrightarrow> utf8 a"
  by (induction a) (auto simp: trailing_def)

lemma utf8_concat: "\<forall>p \<in> set ps. utf8 (map of_char p) \<Longrightarrow> utf8 (map of_char (concat ps))"
  by (induction ps) (auto intro: utf8_append)

lemma sample_date_ok: "http_date_spec sample_date"
proof -
  have "utf8 [of_char (char_of (48 + n mod 10) :: char)]" for n :: nat
    by (rule utf8_ascii) simp
  moreover have "utf8 (map of_char ''Thu, 01 Jan 1970 00:00:0'')" "utf8 (map of_char '' GMT'')"
    by (rule utf8_ascii; simp)+
  moreover have "CHR 0x0D \<noteq> char_of (48 + n mod 10)" for n :: nat
  proof
    assume "CHR 0x0D = char_of (48 + n mod 10)"
    then have "(of_char (CHR 0x0D) :: nat) = of_char (char_of (48 + n mod 10) :: char)" by (rule arg_cong)
    then show False by simp
  qed
  ultimately show ?thesis unfolding http_date_spec_def sample_date_def by (simp del: utf8.simps)
qed

text \<open>The bytes in use and their bounds.\<close>

definition cache_bounds :: "last_rendered_now \<Rightarrow> bool" where
  "cache_bounds c \<longleftrightarrow> length (cached_bytes c) = 128 \<and> cached_amt c \<le> 128"

lemma write_pieces_ok:
  assumes "cache_bounds c" "cached_amt c + length (concat ps) \<le> 128"
  shows "\<exists>c1. write_pieces ps c = Inr c1 \<and> cache_bounds c1 \<and> unix_date c1 = unix_date c \<and>
    take (cached_amt c1) (cached_bytes c1) = take (cached_amt c) (cached_bytes c) @ concat ps"
  using assms
proof (induction ps arbitrary: c)
  case (Cons p ps)
  let ?c = "c\<lparr>cached_bytes := take (cached_amt c) (cached_bytes c) @ p @ drop (cached_amt c + length p) (cached_bytes c), cached_amt := cached_amt c + length p\<rparr>"
  have "local_write_str p c = Inr ?c" using Cons.prems by (simp add: local_write_str_def cache_bounds_def Let_def)
  moreover have "cache_bounds ?c" using Cons.prems by (simp add: cache_bounds_def)
  moreover have "take (cached_amt ?c) (cached_bytes ?c) = take (cached_amt c) (cached_bytes c) @ p"
    using Cons.prems by (simp add: cache_bounds_def)
  ultimately show ?case using Cons.IH [of ?c] Cons.prems by auto
qed simp

lemma update_ok:
  assumes "http_date_spec render" "cache_bounds c" "render now = Inr ps"
  shows "\<exists>c1. update render now k c = Inr c1 \<and> cache_bounds c1 \<and> unix_date c1 = k \<and> take (cached_amt c1) (cached_bytes c1) = concat ps"
proof -
  have "length (concat ps) < 128" using assms(1,3) by (auto simp: http_date_spec_def)
  then show ?thesis using write_pieces_ok [of "c\<lparr>cached_amt := 0, unix_date := k\<rparr>" ps] assms(2,3)
    by (auto simp: update_def cache_bounds_def)
qed

text \<open>The invariant: the bytes in use are the rendering of a time in the second of the cache, or none after the start.\<close>

definition cache_ok :: "(system_time \<Rightarrow> panic + string list) \<Rightarrow> last_rendered_now \<Rightarrow> bool" where
  "cache_ok render c \<longleftrightarrow> cache_bounds c \<and>
     (cached_amt c = 0 \<and> unix_date c = 0 \<or>
      (\<exists>t ps. unix_secs t = unix_date c \<and> (0 \<le> t \<or> unix_date c = 0) \<and> render t = Inr ps \<and> take (cached_amt c) (cached_bytes c) = concat ps))"

lemma LAST_ok: "cache_ok render LAST"
  by (simp add: cache_ok_def cache_bounds_def LAST_def)

lemma unix_secs_pos: "0 < unix_secs t \<Longrightarrow> 0 \<le> t"
  by (simp add: unix_secs_def split: if_splits)

lemma cache_ok_text:
  assumes "http_date_spec render" "cache_ok render c"
  shows "utf8 (map of_char (take (cached_amt c) (cached_bytes c))) \<and> length (take (cached_amt c) (cached_bytes c)) < 128"
proof (cases "cached_amt c = 0")
  case False
  then obtain t ps where "render t = Inr ps" "take (cached_amt c) (cached_bytes c) = concat ps" using assms(2) by (auto simp: cache_ok_def)
  then show ?thesis using assms(1) utf8_concat by (simp add: http_date_spec_def)
qed simp

lemma cache_ok_bounds:
  assumes "http_date_spec render" "cache_ok render c"
  shows "length (cached_bytes c) = 128" "cached_amt c < 128"
  using cache_ok_text [OF assms] assms(2) by (simp_all add: cache_ok_def cache_bounds_def)

lemma cache_ok_buffer:
  assumes "http_date_spec render" "cache_ok render c"
  shows "buffer c = Inr (take (cached_amt c) (cached_bytes c))"
  using cache_ok_text [OF assms] assms(2) by (simp add: buffer_def from_utf8_def cache_ok_def cache_bounds_def)

lemma now_fmt_hit:
  assumes "http_date_spec render" "cache_ok render c" "unix_date c = unix_secs now"
  shows "now_fmt render now c = Inr (take (cached_amt c) (cached_bytes c), c)"
  using cache_ok_buffer [OF assms(1,2)] assms(3) by (simp add: now_fmt_def)

lemma now_fmt_miss:
  assumes "http_date_spec render" "cache_ok render c" "unix_date c \<noteq> unix_secs now" "render now = Inr ps"
  shows "\<exists>c1. now_fmt render now c = Inr (take (cached_amt c1) (cached_bytes c1), c1) \<and> take (cached_amt c1) (cached_bytes c1) = concat ps \<and>
    cache_ok render c1"
proof -
  obtain c1 where c1: "update render now (unix_secs now) c = Inr c1" "cache_bounds c1" "unix_date c1 = unix_secs now"
    "take (cached_amt c1) (cached_bytes c1) = concat ps"
    using update_ok [OF assms(1) _ assms(4)] assms(2) by (auto simp: cache_ok_def)
  have "0 \<le> now \<or> unix_secs now = 0" by (simp add: unix_secs_def)
  with c1 assms(4) have "cache_ok render c1" unfolding cache_ok_def by metis
  moreover from cache_ok_buffer [OF assms(1) this] have "now_fmt render now c = Inr (take (cached_amt c1) (cached_bytes c1), c1)"
    using assms(3) c1(1) by (simp add: now_fmt_def)
  ultimately show ?thesis using c1(4) by blast
qed

lemma now_fmt_uncached:
  assumes "http_date_spec render" "cache_ok render c" "0 < unix_secs now" "render now = Inr ps"
  shows "\<exists>c1. now_fmt render now c = Inr (concat ps, c1) \<and> cache_ok render c1"
proof (cases "unix_date c = unix_secs now")
  case True
  with assms(2,3) obtain t ps' where t: "unix_secs t = unix_secs now" "render t = Inr ps'" "take (cached_amt c) (cached_bytes c) = concat ps'"
    by (auto simp: cache_ok_def)
  with assms have "ps' = ps" using unix_secs_pos [of t] unix_secs_pos [of now]
    by (metis http_date_spec_def sum.inject(2))
  with t show ?thesis using now_fmt_hit [OF assms(1,2) True] assms(2) by simp
next
  case False
  from now_fmt_miss [OF assms(1,2) False assms(4)] show ?thesis by auto
qed

subsection \<open>Properties\<close>

text \<open>
  C40: However the clock moves after the epoch, the dates a thread renders through its cache are
  those rendered without it.
\<close>

theorem cached_dates_are_uncached:
  assumes "http_date_spec render" "\<forall>t \<in> set ts. 0 < unix_secs t \<and> (\<exists>ps. render t = Inr ps)"
  shows "\<exists>c. render_all render ts LAST = Inr (map (uncached render) ts, c)"
proof -
  have "\<exists>c1. render_all render ts c = Inr (map (uncached render) ts, c1)" if "cache_ok render c" for c
    using that assms(2)
  proof (induction ts arbitrary: c)
    case (Cons t ts)
    then obtain ps where ps: "render t = Inr ps" "0 < unix_secs t" by auto
    from now_fmt_uncached [OF assms(1) Cons.prems(1) ps(2,1)] obtain c1 where
      c1: "now_fmt render t c = Inr (concat ps, c1)" "cache_ok render c1" by blast
    from Cons.IH [OF c1(2)] Cons.prems(2) obtain c2 where "render_all render ts c1 = Inr (map (uncached render) ts, c2)" by auto
    with c1(1) ps(1) show ?case by (simp add: uncached_def)
  qed simp
  from this [OF LAST_ok] show ?thesis .
qed

theorem cached_dates_are_uncached_witness:
  "\<exists>c. render_all sample_date [7000000000, 7900000000, 3000000000] LAST =
     Inr ([''Thu, 01 Jan 1970 00:00:07 GMT'', ''Thu, 01 Jan 1970 00:00:07 GMT'', ''Thu, 01 Jan 1970 00:00:03 GMT''], c)"
  using cached_dates_are_uncached [OF sample_date_ok, of "[7000000000, 7900000000, 3000000000]"]
  by (simp add: uncached_def sample_date_def unix_secs_def char_of_def bit_0 del: render_all.simps)

text \<open>
  Rendering a date stays inside the buffer of 128 bytes and yields valid text: it panics only where
  the rendering itself does.
\<close>

theorem date_buffer_in_bounds:
  assumes "http_date_spec render" "cache_ok render c"
  shows "case now_fmt render now c of
      Inl e \<Rightarrow> render now = Inl e
    | Inr (s, c1) \<Rightarrow> length (cached_bytes c1) = 128 \<and> cached_amt c1 < 128 \<and> s = take (cached_amt c1) (cached_bytes c1) \<and> cache_ok render c1"
proof (cases "unix_date c = unix_secs now")
  case True
  then show ?thesis using now_fmt_hit [OF assms] assms(2) cache_ok_bounds [OF assms] by simp
next
  case False
  show ?thesis
  proof (cases "render now")
    case (Inl e)
    then show ?thesis using False by (simp add: now_fmt_def update_def)
  next
    case (Inr ps)
    from now_fmt_miss [OF assms False this] show ?thesis using cache_ok_bounds [OF assms(1)] by auto
  qed
qed

theorem date_buffer_in_bounds_witness:
  "\<exists>s c. now_fmt sample_date 7000000000 LAST = Inr (s, c) \<and> cached_amt c < 128"
  using date_buffer_in_bounds [OF sample_date_ok LAST_ok, of 7000000000]
  by (auto simp: sample_date_def split: sum.splits)

text \<open>
  The cache starts with the second 0 and no text: in the first second after the epoch, and before
  it, the first date is empty.
\<close>

theorem date_empty_at_epoch:
  assumes "unix_secs now = 0"
  shows "now_fmt render now LAST = Inr ([], LAST)"
  using assms by (simp add: now_fmt_def LAST_def buffer_def from_utf8_def)

theorem date_empty_at_epoch_witness:
  "now_fmt sample_date 0 LAST = Inr ([], LAST) \<and> uncached sample_date 0 = ''Thu, 01 Jan 1970 00:00:00 GMT''"
  using date_empty_at_epoch [of 0 sample_date]
  by (simp add: unix_secs_def uncached_def sample_date_def char_of_def bit_0)

end
