(* ===== verification/Http_Server.thy ===== *)
theory Http_Server
  imports Http_Date Net Fmt
begin

text \<open>
  The example server \<^verbatim>\<open>src/examples/http-server.rs\<close>: the routes, the encoder of responses, the decoder of requests, the
  loop of a connection and the loop that accepts connections. The crates it uses are parameters: \<^verbatim>\<open>http\<close> (\<open>http_crate\<close>),
  \<^verbatim>\<open>httparse\<close> (\<open>parse\<close>), \<^verbatim>\<open>serde_json\<close> (\<open>json\<close>), \<^verbatim>\<open>httpdate\<close> (\<open>render\<close>) and the transport of \<^verbatim>\<open>tokio_util\<close>. Where
  they fail, the left of a sum is the text of the error. An address is a natural number, and a slice is a pair of an address
  and a length.
\<close>

type_synonym bytes = string

subsection \<open>The crate http\<close>

text \<open>
  Requests \<open>'q\<close> and responses \<open>'r\<close> with their builders \<open>'b\<close> and \<open>'c\<close>, methods \<open>'m\<close> and header values \<open>'v\<close>.
\<close>

record ('q, 'r, 'b, 'c, 'm, 'v) http_crate =
  method_try_from :: "bytes \<Rightarrow> string + 'm"
  header_value_from_bytes :: "bytes \<Rightarrow> string + 'v"
  request_builder :: 'b
  request_method :: "'m \<Rightarrow> 'b \<Rightarrow> 'b"
  request_uri :: "bytes \<Rightarrow> 'b \<Rightarrow> 'b"
  request_version_11 :: "'b \<Rightarrow> 'b"
  request_header :: "bytes \<Rightarrow> 'v \<Rightarrow> 'b \<Rightarrow> 'b"
  request_body :: "'b \<Rightarrow> string + 'q"
  uri_path :: "'q \<Rightarrow> bytes"
  response_builder :: 'c
  response_header :: "bytes \<Rightarrow> bytes \<Rightarrow> 'c \<Rightarrow> 'c"
  response_status :: "nat \<Rightarrow> 'c \<Rightarrow> 'c"
  response_body :: "bytes \<Rightarrow> 'c \<Rightarrow> string + 'r"
  status :: "'r \<Rightarrow> bytes"
  headers :: "'r \<Rightarrow> (bytes \<times> bytes) list"
  body :: "'r \<Rightarrow> bytes"

definition other_error :: "string \<Rightarrow> io_error" where
  "other_error e = Io_Error Other_Error e"

subsection \<open>Routes\<close>

datatype server_error = Io_Failed io_error | Json_Failed string

definition NOT_FOUND :: nat where
  "NOT_FOUND = 404"

definition respond :: "('q, 'r, 'b, 'c, 'm, 'v) http_crate \<Rightarrow> (string \<Rightarrow> string + bytes) \<Rightarrow> 'q \<Rightarrow> server_error + 'r" where
  "respond hc json req =
     (let response = response_builder hc; path = uri_path hc req in
      bindE
        (if path = ''/plaintext'' then Inr (response_header hc ''Content-Type'' ''text/plain'' response, ''Hello, World!'')
         else if path = ''/json'' then
           (let response = response_header hc ''Content-Type'' ''application/json'' response in
            case json ''Hello, World!'' of Inl e \<Rightarrow> Inl (Json_Failed e) | Inr s \<Rightarrow> Inr (response, s))
         else Inr (response_status hc NOT_FOUND response, []))
        (\<lambda>(response, text).
           case response_body hc text response of Inl e \<Rightarrow> Inl (Io_Failed (other_error e)) | Inr r \<Rightarrow> Inr r))"

subsection \<open>The encoder\<close>

definition crlf :: bytes where
  "crlf = [CHR 0x0D, CHR 0x0A]"

definition bytes_write_str :: "bytes \<Rightarrow> bytes \<Rightarrow> bytes" where
  "bytes_write_str s dst = dst @ s"

fun write_headers :: "(bytes \<times> bytes) list \<Rightarrow> bytes \<Rightarrow> bytes" where
  "write_headers [] dst = dst"
| "write_headers ((k, v) # hs) dst = write_headers hs (dst @ k @ '': '' @ v @ crlf)"

definition encode ::
    "('q, 'r, 'b, 'c, 'm, 'v) http_crate \<Rightarrow> (system_time \<Rightarrow> panic + string list) \<Rightarrow> system_time \<Rightarrow> 'r \<Rightarrow> bytes \<Rightarrow>
     last_rendered_now \<Rightarrow> panic + bytes \<times> last_rendered_now" where
  "encode hc render now item dst cache =
     (let dst = bytes_write_str ''HTTP/1.1 '' dst;
          dst = bytes_write_str (status hc item) dst;
          dst = bytes_write_str (crlf @ ''Server: Example'' @ crlf @ ''Content-Length: '') dst;
          dst = bytes_write_str (display_nat (length (body hc item))) dst;
          dst = bytes_write_str (crlf @ ''Date: '') dst in
      bindE (now_fmt render now cache) (\<lambda>(date, cache).
        let dst = bytes_write_str date dst;
            dst = bytes_write_str crlf dst;
            dst = write_headers (headers hc item) dst;
            dst = dst @ crlf
        in Inr (dst @ body hc item, cache)))"

subsection \<open>The decoder\<close>

type_synonym slice = "nat \<times> nat"

datatype parse_status = Complete nat | Partial

record httparse_request =
  r_method :: "bytes option"
  r_path :: "slice option"
  r_version :: "nat option"
  r_headers :: "(slice \<times> slice) list"

text \<open>
  \<^verbatim>\<open>httparse::Request::parse\<close>, for the length of the array of headers, the address of the buffer and its content.
\<close>

type_synonym httparse = "nat \<Rightarrow> nat \<Rightarrow> bytes \<Rightarrow> string + parse_status \<times> httparse_request"

definition toslice :: "nat \<Rightarrow> bytes \<Rightarrow> slice \<Rightarrow> panic + nat \<times> nat" where
  "toslice base src a =
     (if fst a < base then Inl Arithmetic_Overflow
      else let start = fst a - base in
        if start < length src then Inr (start, start + snd a) else Inl Assertion_Failed)"

fun set_headers ::
    "nat \<Rightarrow> bytes \<Rightarrow> nat \<Rightarrow> (slice \<times> slice) list \<Rightarrow> ((nat \<times> nat) \<times> nat \<times> nat) option list \<Rightarrow>
     panic + ((nat \<times> nat) \<times> nat \<times> nat) option list" where
  "set_headers base src i [] hs = Inr hs"
| "set_headers base src i ((name, value) # rest) hs =
     bindE (toslice base src name) (\<lambda>k.
     bindE (toslice base src value) (\<lambda>v.
     bindE (index_set hs i (Some (k, v))) (\<lambda>hs. set_headers base src (i + 1) rest hs)))"

definition parse_head ::
    "('q, 'r, 'b, 'c, 'm, 'v) http_crate \<Rightarrow> httparse \<Rightarrow> nat \<Rightarrow> bytes \<Rightarrow>
     panic + (io_error + ('m \<times> (nat \<times> nat) \<times> nat \<times> nat \<times> ((nat \<times> nat) \<times> nat \<times> nat) option list) option)" where
  "parse_head hc parse base src =
     (case parse 16 base src of
        Inl e \<Rightarrow> Inr (Inl (other_error (''failed to parse http request: '' @ e)))
      | Inr (Partial, r) \<Rightarrow> Inr (Inr None)
      | Inr (Complete amt, r) \<Rightarrow>
          bindE (set_headers base src 0 (r_headers r) (replicate 16 None)) (\<lambda>hs.
            case r_method r of
              None \<Rightarrow> Inl Unwrap_None
            | Some m \<Rightarrow>
                (case method_try_from hc m of
                   Inl e \<Rightarrow> Inr (Inl (other_error e))
                 | Inr method \<Rightarrow>
                     (case r_path r of
                        None \<Rightarrow> Inl Unwrap_None
                      | Some p \<Rightarrow>
                          bindE (toslice base src p) (\<lambda>path.
                            case r_version r of
                              None \<Rightarrow> Inl Unwrap_None
                            | Some version \<Rightarrow> Inr (Inr (Some (method, path, version, amt, hs))))))))"

text \<open>\<^verbatim>\<open>Bytes::slice\<close> and indexing by a range.\<close>

definition slice_range :: "bytes \<Rightarrow> nat \<times> nat \<Rightarrow> panic + bytes" where
  "slice_range data r =
     (if fst r \<le> snd r \<and> snd r \<le> length data then Inr (take (snd r - fst r) (drop (fst r) data)) else Inl Index_Out_Of_Bounds)"

fun add_headers ::
    "('q, 'r, 'b, 'c, 'm, 'v) http_crate \<Rightarrow> bytes \<Rightarrow> ((nat \<times> nat) \<times> nat \<times> nat) option list \<Rightarrow> 'b \<Rightarrow> panic + (io_error + 'b)" where
  "add_headers hc data [] ret = Inr (Inr ret)"
| "add_headers hc data (None # hs) ret = Inr (Inr ret)"
| "add_headers hc data (Some (k, v) # hs) ret =
     bindE (slice_range data v) (\<lambda>v.
       case header_value_from_bytes hc v of
         Inl e \<Rightarrow> Inr (Inl (other_error ''header decode error''))
       | Inr value \<Rightarrow> bindE (slice_range data k) (\<lambda>k. add_headers hc data hs (request_header hc k value ret)))"

text \<open>\<^verbatim>\<open>src.split_to(amt)\<close> leaves the rest in the buffer; it panics when the buffer is shorter.\<close>

definition decode ::
    "('q, 'r, 'b, 'c, 'm, 'v) http_crate \<Rightarrow> httparse \<Rightarrow> nat \<Rightarrow> bytes \<Rightarrow> panic + (io_error + 'q option) \<times> bytes" where
  "decode hc parse base src =
     bindE (parse_head hc parse base src) (\<lambda>head.
       case head of
         Inl e \<Rightarrow> Inr (Inl e, src)
       | Inr None \<Rightarrow> Inr (Inr None, src)
       | Inr (Some (method, path, version, amt, hs)) \<Rightarrow>
           if version \<noteq> 1 then Inr (Inl (other_error ''only HTTP/1.1 accepted''), src)
           else if length src < amt then Inl Assertion_Failed
           else
             (let data = take amt src; src = drop amt src; ret = request_method hc method (request_builder hc) in
              bindE (slice_range data path) (\<lambda>s.
                let ret = request_version_11 hc (request_uri hc s ret) in
                bindE (add_headers hc data hs ret) (\<lambda>ret.
                  case ret of
                    Inl e \<Rightarrow> Inr (Inl e, src)
                  | Inr ret \<Rightarrow>
                      (case request_body hc ret of
                         Inl e \<Rightarrow> Inr (Inl (other_error e), src)
                       | Inr req \<Rightarrow> Inr (Inr (Some req), src))))))"

subsection \<open>A connection\<close>

text \<open>The transport: \<open>next_frame\<close> and \<open>send_frame\<close> are what awaiting \<^verbatim>\<open>next\<close> and \<^verbatim>\<open>send\<close> yields.\<close>

record ('t, 'q, 'r) transport =
  next_frame :: "'t \<Rightarrow> (io_error + 'q) option \<times> 't"
  send_frame :: "'r \<Rightarrow> 't \<Rightarrow> (io_error + unit) \<times> 't"

partial_function (option) process_frames ::
    "('t, 'q, 'r) transport \<Rightarrow> ('q \<Rightarrow> server_error + 'r) \<Rightarrow> 't \<Rightarrow> ((server_error + unit) \<times> 't) option" where
  "process_frames tr answer t =
     (case next_frame tr t of
        (None, t) \<Rightarrow> Some (Inr (), t)
      | (Some (Inl e), t) \<Rightarrow> Some (Inl (Io_Failed e), t)
      | (Some (Inr request), t) \<Rightarrow>
          (case answer request of
             Inl e \<Rightarrow> Some (Inl e, t)
           | Inr response \<Rightarrow>
               (case send_frame tr response t of
                  (Inl e, t) \<Rightarrow> Some (Inl (Io_Failed e), t)
                | (Inr _, t) \<Rightarrow> process_frames tr answer t)))"

definition process ::
    "('q, 'r, 'b, 'c, 'm, 'v) http_crate \<Rightarrow> (string \<Rightarrow> string + bytes) \<Rightarrow> ('t, 'q, 'r) transport \<Rightarrow> 't \<Rightarrow>
     ((server_error + unit) \<times> 't) option" where
  "process hc json tr t = process_frames tr (respond hc json) t"

subsection \<open>The server\<close>

text \<open>The address to listen on: \<^verbatim>\<open>main\<close> unwraps the result of the parser.\<close>

definition server_socket :: "resolver \<Rightarrow> string list \<Rightarrow> panic + socket_addr" where
  "server_socket rs args =
     (let addr = (if 1 < length args then args ! 1 else ''127.0.0.1:8080'') in
      case parse_socket_addr rs addr of None \<Rightarrow> Inl Unwrap_Err | Some socket \<Rightarrow> Inr socket)"

text \<open>The future of \<^verbatim>\<open>main\<close>: \<open>accept\<close> and \<open>spawn\<close> act on the state of the runtime; it completes only with an error.\<close>

partial_function (option) accept_loop ::
    "('s \<Rightarrow> (io_error + 'st \<times> socket_addr) \<times> 's) \<Rightarrow> ('st \<Rightarrow> 's \<Rightarrow> 's) \<Rightarrow> 's \<Rightarrow> (io_error \<times> 's) option" where
  "accept_loop accept spawn s =
     (case accept s of
        (Inl e, s) \<Rightarrow> Some (e, s)
      | (Inr (stream, _), s) \<Rightarrow> accept_loop accept spawn (spawn stream s))"

definition serve ::
    "(socket_addr \<Rightarrow> 's \<Rightarrow> (io_error + unit) \<times> 's) \<Rightarrow> ('s \<Rightarrow> (io_error + 'st \<times> socket_addr) \<times> 's) \<Rightarrow> ('st \<Rightarrow> 's \<Rightarrow> 's) \<Rightarrow>
     socket_addr \<Rightarrow> 's \<Rightarrow> (io_error \<times> 's) option" where
  "serve bind accept spawn socket s =
     (case bind socket s of
        (Inl e, s) \<Rightarrow> Some (e, s)
      | (Inr _, s) \<Rightarrow> accept_loop accept spawn s)"

subsection \<open>The decoder against the parser\<close>

definition within :: "nat \<Rightarrow> nat \<Rightarrow> slice \<Rightarrow> bool" where
  "within base n a \<longleftrightarrow> base \<le> fst a \<and> fst a < base + n \<and> fst a + snd a \<le> base + n"

text \<open>
  What \<^verbatim>\<open>httparse\<close> documents: a complete request has a method, a path and a version, lies in the bytes it has consumed, and has
  no more headers than the array has room for; its parts are slices of the buffer.
\<close>

definition httparse_spec :: "httparse \<Rightarrow> bool" where
  "httparse_spec parse \<longleftrightarrow>
     (\<forall>cap base buf n r. parse cap base buf = Inr (Complete n, r) \<longrightarrow>
        n \<le> length buf \<and> r_method r \<noteq> None \<and> r_version r \<noteq> None \<and> (\<exists>p. r_path r = Some p \<and> within base n p) \<and>
        length (r_headers r) \<le> cap \<and> (\<forall>(k, v) \<in> set (r_headers r). within base n k \<and> within base n v))"

text \<open>The bytes of a slice of the buffer.\<close>

definition view :: "nat \<Rightarrow> bytes \<Rightarrow> slice \<Rightarrow> bytes" where
  "view base src a = take (snd a) (drop (fst a - base) src)"

text \<open>The request that the builder makes of the parts of a message.\<close>

fun build_headers :: "('q, 'r, 'b, 'c, 'm, 'v) http_crate \<Rightarrow> (bytes \<times> bytes) list \<Rightarrow> 'b \<Rightarrow> io_error + 'b" where
  "build_headers hc [] ret = Inr ret"
| "build_headers hc ((k, v) # hs) ret =
     (case header_value_from_bytes hc v of
        Inl e \<Rightarrow> Inl (other_error ''header decode error'')
      | Inr value \<Rightarrow> build_headers hc hs (request_header hc k value ret))"

definition build_request :: "('q, 'r, 'b, 'c, 'm, 'v) http_crate \<Rightarrow> 'm \<Rightarrow> bytes \<Rightarrow> (bytes \<times> bytes) list \<Rightarrow> io_error + 'q option" where
  "build_request hc m path hs =
     bindE (build_headers hc hs (request_version_11 hc (request_uri hc path (request_method hc m (request_builder hc))))) (\<lambda>ret.
       case request_body hc ret of Inl e \<Rightarrow> Inl (other_error e) | Inr req \<Rightarrow> Inr (Some req))"

definition offsets :: "nat \<Rightarrow> slice \<Rightarrow> nat \<times> nat" where
  "offsets base a = (fst a - base, fst a - base + snd a)"

lemma toslice_within: "within base n a \<Longrightarrow> n \<le> length src \<Longrightarrow> toslice base src a = Inr (offsets base a)"
  by (auto simp: within_def toslice_def offsets_def Let_def)

lemma slice_range_within:
  assumes "within base n a" "n \<le> length src"
  shows "slice_range (take n src) (offsets base a) = Inr (view base src a)"
proof -
  have "min (snd a) (n - (fst a - base)) = snd a" using assms(1) by (auto simp: within_def min_def)
  moreover have "fst a - base + snd a \<le> n" using assms(1) by (auto simp: within_def)
  ultimately show ?thesis using assms(2)
    by (simp add: slice_range_def offsets_def view_def drop_take)
qed

lemma set_headers_within:
  assumes "\<forall>(k, v) \<in> set hs. within base n k \<and> within base n v" "n \<le> length src" "length pre = i" "length hs \<le> m"
  shows "set_headers base src i hs (pre @ replicate m None) =
    Inr (pre @ map (\<lambda>(k, v). Some (offsets base k, offsets base v)) hs @ replicate (m - length hs) None)"
  using assms
proof (induction hs arbitrary: pre i m)
  case (Cons h hs)
  obtain k v where h: "h = (k, v)" by (cases h)
  obtain m' where m: "m = Suc m'" using Cons.prems(4) by (cases m) auto
  have "index_set (pre @ replicate m None) i (Some (offsets base k, offsets base v)) =
      Inr ((pre @ [Some (offsets base k, offsets base v)]) @ replicate m' None)"
    using Cons.prems(3) by (simp add: index_set_def m list_update_append)
  moreover have "toslice base src k = Inr (offsets base k)" "toslice base src v = Inr (offsets base v)"
    using Cons.prems(1,2) by (auto simp: h intro!: toslice_within)
  ultimately show ?case using Cons.IH [of "pre @ [Some (offsets base k, offsets base v)]" "i + 1" m'] Cons.prems
    by (simp add: h m del: replicate_Suc)
qed simp

lemma add_headers_within:
  assumes "\<forall>(k, v) \<in> set hs. within base n k \<and> within base n v" "n \<le> length src"
  shows "add_headers hc (take n src) (map (\<lambda>(k, v). Some (offsets base k, offsets base v)) hs @ replicate m None) ret =
    Inr (build_headers hc (map (\<lambda>(k, v). (view base src k, view base src v)) hs) ret)"
  using assms
proof (induction hs arbitrary: ret)
  case Nil
  then show ?case by (cases m) simp_all
next
  case (Cons h hs)
  then show ?case by (cases h) (auto simp: slice_range_within split: sum.splits)
qed

subsection \<open>A sample of the crates\<close>

text \<open>
  Requests are their paths, responses triples of status, headers and body; builders are what they have collected. The parser knows one
  request, with one header.
\<close>

type_synonym sample_response = "bytes \<times> (bytes \<times> bytes) list \<times> bytes"

definition sample_crate ::
    "(bytes \<times> (bytes \<times> bytes) list, sample_response, bytes \<times> (bytes \<times> bytes) list, nat \<times> (bytes \<times> bytes) list, bytes, bytes) http_crate" where
  "sample_crate =
     \<lparr>method_try_from = Inr, header_value_from_bytes = Inr,
      request_builder = (''/'', []), request_method = (\<lambda>m b. b), request_uri = (\<lambda>u b. (u, snd b)), request_version_11 = (\<lambda>b. b),
      request_header = (\<lambda>k v b. (fst b, snd b @ [(k, v)])), request_body = Inr, uri_path = fst,
      response_builder = (200, []), response_header = (\<lambda>k v b. (fst b, snd b @ [(''content-type'', v)])),
      response_status = (\<lambda>n b. (n, snd b)),
      response_body = (\<lambda>s b. Inr (if fst b = 200 then ''200 OK'' else ''404 Not Found'', snd b, s)),
      status = (\<lambda>r. filter (\<lambda>c. c \<noteq> CHR 0x0D) (fst r)),
      headers = (\<lambda>r. map (\<lambda>(k, v). (filter (\<lambda>c. c \<noteq> CHR 0x0D) k, filter (\<lambda>c. c \<noteq> CHR 0x0D) v)) (fst (snd r))),
      body = (\<lambda>r. snd (snd r))\<rparr>"

definition sample_request :: bytes where
  "sample_request = ''GET /plaintext HTTP/1.1'' @ crlf @ ''Host: a'' @ crlf @ crlf"

definition sample_parse :: httparse where
  "sample_parse cap base buf =
     (if take 36 buf = sample_request \<and> 1 \<le> cap
      then Inr (Complete 36, \<lparr>r_method = Some ''GET'', r_path = Some (base + 4, 10), r_version = Some 1,
        r_headers = [((base + 25, 4), (base + 31, 1))]\<rparr>)
      else Inr (Partial, \<lparr>r_method = None, r_path = None, r_version = None, r_headers = []\<rparr>))"

lemma sample_parse_ok: "httparse_spec sample_parse"
proof -
  have "36 \<le> length buf" if "take 36 buf = sample_request" for buf
    using arg_cong [OF that, of length] by (simp add: sample_request_def crlf_def)
  then show ?thesis by (auto simp: httparse_spec_def sample_parse_def within_def split: if_splits)
qed

subsection \<open>Properties of the decoder\<close>

text \<open>
  decode never panics and returns what the parser found: nothing for a partial request, with the
  buffer unchanged; an error with the buffer unchanged when the parser or the method fails or the
  version is not 1.1; else the request built from the bytes of the path and the headers, with
  exactly the parsed bytes removed from the buffer.
\<close>

theorem decode_follows_parse:
  assumes "httparse_spec parse"
  shows "decode hc parse base src = Inr
     (case parse 16 base src of
        Inl e \<Rightarrow> (Inl (other_error (''failed to parse http request: '' @ e)), src)
      | Inr (Partial, _) \<Rightarrow> (Inr None, src)
      | Inr (Complete n, r) \<Rightarrow>
          (case method_try_from hc (the (r_method r)) of
             Inl e \<Rightarrow> (Inl (other_error e), src)
           | Inr m \<Rightarrow>
               if the (r_version r) \<noteq> 1 then (Inl (other_error ''only HTTP/1.1 accepted''), src)
               else (build_request hc m (view base src (the (r_path r)))
                       (map (\<lambda>(k, v). (view base src k, view base src v)) (r_headers r)), drop n src)))"
proof (cases "\<exists>n r. parse 16 base src = Inr (Complete n, r)")
  case True
  then obtain n r where p: "parse 16 base src = Inr (Complete n, r)" by blast
  with assms have "n \<le> length src \<and> r_method r \<noteq> None \<and> r_version r \<noteq> None \<and> (\<exists>p. r_path r = Some p \<and> within base n p) \<and>
        length (r_headers r) \<le> 16 \<and> (\<forall>(k, v) \<in> set (r_headers r). within base n k \<and> within base n v)"
    unfolding httparse_spec_def by blast
  then obtain m ver path where r: "n \<le> length src" "r_method r = Some m" "r_version r = Some ver" "r_path r = Some path" "within base n path"
    "length (r_headers r) \<le> 16" "\<forall>(k, v) \<in> set (r_headers r). within base n k \<and> within base n v" by blast
  note H = set_headers_within [OF r(7,1) list.size(3) r(6), simplified]
  note A = add_headers_within [OF r(7,1)]
  note T = toslice_within [OF r(5,1)] and S = slice_range_within [OF r(5,1)]
  show ?thesis
  proof (cases "method_try_from hc m")
    case (Inl e)
    then show ?thesis using p r(2) H by (simp add: decode_def parse_head_def)
  next
    case (Inr x)
    then have "parse_head hc parse base src = Inr (Inr (Some (x, offsets base path, ver, n,
        map (\<lambda>(k, v). Some (offsets base k, offsets base v)) (r_headers r) @ replicate (16 - length (r_headers r)) None)))"
      using p r(2-4) H T by (simp add: parse_head_def)
    then show ?thesis using p r(1-4) Inr S
      by (simp add: decode_def build_request_def A Let_def bindE_def split: sum.splits)
  qed
next
  case False
  then show ?thesis by (auto simp: decode_def parse_head_def split: sum.splits prod.splits parse_status.splits)
qed

theorem decode_follows_parse_witness:
  "decode sample_crate sample_parse 1000 (sample_request @ ''GET'') = Inr (Inr (Some (''/plaintext'', [(''Host'', ''a'')])), ''GET'')"
  using decode_follows_parse [OF sample_parse_ok, of sample_crate 1000 "sample_request @ ''GET''"]
  by (simp add: sample_parse_def sample_request_def crlf_def sample_crate_def build_request_def view_def)

subsection \<open>Reading responses back\<close>

text \<open>A reader of responses: a line ends at the first CRLF, the head at an empty line.\<close>

fun split_line :: "bytes \<Rightarrow> (bytes \<times> bytes) option" where
  "split_line (c # d # s) =
     (if c = CHR 0x0D \<and> d = CHR 0x0A then Some ([], s) else map_option (\<lambda>(l, r). (c # l, r)) (split_line (d # s)))"
| "split_line _ = None"

lemma split_line_shorter: "split_line s = Some (l, r) \<Longrightarrow> length r < length s"
  by (induction s arbitrary: l r rule: split_line.induct) (auto split: if_splits)

function read_head :: "bytes \<Rightarrow> (bytes list \<times> bytes) option" where
  "read_head s =
     (case split_line s of
        None \<Rightarrow> None
      | Some (l, r) \<Rightarrow> if l = [] then Some ([], r) else map_option (\<lambda>(ls, r). (l # ls, r)) (read_head r))"
  by pat_completeness auto
termination by (relation "measure length") (auto dest: split_line_shorter)

declare read_head.simps [simp del]

fun content_length :: "bytes list \<Rightarrow> nat option" where
  "content_length [] = None"
| "content_length (l # ls) =
     (if take 16 l = ''Content-Length: '' then Some (read_radix 10 (drop 16 l)) else content_length ls)"

fun read_responses :: "nat \<Rightarrow> bytes \<Rightarrow> ((bytes list \<times> bytes) list \<times> bytes) option" where
  "read_responses 0 s = Some ([], s)"
| "read_responses (Suc n) s =
     (case read_head s of
        None \<Rightarrow> None
      | Some (ls, r) \<Rightarrow>
          (case content_length ls of
             None \<Rightarrow> None
           | Some k \<Rightarrow>
               if length r < k then None
               else map_option (\<lambda>(rs, r1). ((ls, take k r) # rs, r1)) (read_responses n (drop k r))))"

text \<open>What the reader is to find: the lines of a response.\<close>

definition head_lines :: "('q, 'r, 'b, 'c, 'm, 'v) http_crate \<Rightarrow> 'r \<Rightarrow> bytes \<Rightarrow> bytes list" where
  "head_lines hc r date =
     [''HTTP/1.1 '' @ status hc r, ''Server: Example'', ''Content-Length: '' @ display_nat (length (body hc r)), ''Date: '' @ date] @
     map (\<lambda>(k, v). k @ '': '' @ v) (headers hc r)"

text \<open>The responses a connection sends one after the other.\<close>

fun encode_all ::
    "('q, 'r, 'b, 'c, 'm, 'v) http_crate \<Rightarrow> (system_time \<Rightarrow> panic + string list) \<Rightarrow> (system_time \<times> 'r) list \<Rightarrow> bytes \<Rightarrow>
     last_rendered_now \<Rightarrow> panic + bytes \<times> last_rendered_now" where
  "encode_all hc render [] dst c = Inr (dst, c)"
| "encode_all hc render ((t, r) # xs) dst c = bindE (encode hc render t r dst c) (\<lambda>(dst, c). encode_all hc render xs dst c)"

text \<open>\<^verbatim>\<open>http\<close>: a status, the names and the values of headers are one line each.\<close>

definition lines_spec :: "('q, 'r, 'b, 'c, 'm, 'v) http_crate \<Rightarrow> bool" where
  "lines_spec hc \<longleftrightarrow>
     (\<forall>r. CHR 0x0D \<notin> set (status hc r) \<and> (\<forall>(k, v) \<in> set (headers hc r). CHR 0x0D \<notin> set k \<and> CHR 0x0D \<notin> set v))"

lemma sample_crate_lines: "lines_spec sample_crate"
  by (auto simp: lines_spec_def sample_crate_def)

lemma write_headers_lines: "write_headers hs dst = dst @ concat (map (\<lambda>(k, v). k @ '': '' @ v @ crlf) hs)"
  by (induction hs arbitrary: dst) auto

lemma encode_lines:
  "encode hc render now r dst c =
     bindE (now_fmt render now c) (\<lambda>(d, c1). Inr (dst @ concat (map (\<lambda>l. l @ crlf) (head_lines hc r d)) @ crlf @ body hc r, c1))"
proof -
  have "map (\<lambda>(k, v). k @ '': '' @ v @ crlf) hs = map (\<lambda>l. l @ crlf) (map (\<lambda>(k, v). k @ '': '' @ v) hs)" for hs :: "(bytes \<times> bytes) list"
    by auto
  then show ?thesis
    by (simp add: encode_def bytes_write_str_def write_headers_lines head_lines_def bindE_def Let_def split: sum.splits del: map_map)
qed

lemma split_line_crlf: "CHR 0x0D \<notin> set l \<Longrightarrow> split_line (l @ crlf @ rest) = Some (l, rest)"
proof (induction l)
  case (Cons c l)
  then show ?case by (cases l) (auto simp: crlf_def)
qed (simp add: crlf_def)

lemma read_head_lines:
  "\<forall>l \<in> set ls. l \<noteq> [] \<and> CHR 0x0D \<notin> set l \<Longrightarrow> read_head (concat (map (\<lambda>l. l @ crlf) ls) @ crlf @ rest) = Some (ls, rest)"
proof (induction ls)
  case Nil
  show ?case using split_line_crlf [of "[]" rest] by (subst read_head.simps) simp
next
  case (Cons l ls)
  then show ?case using split_line_crlf [of l] by (subst read_head.simps) simp
qed

lemma display_nat_line: "CHR 0x0D \<notin> set (display_nat n)"
  unfolding display_nat_def by (rule radix_no_char) simp_all

lemma head_lines_ok:
  assumes "lines_spec hc" "CHR 0x0D \<notin> set d"
  shows "\<forall>l \<in> set (head_lines hc r d). l \<noteq> [] \<and> CHR 0x0D \<notin> set l"
  using assms display_nat_line by (auto simp: head_lines_def lines_spec_def)

lemma content_length_head: "content_length (head_lines hc r d) = Some (length (body hc r))"
  by (simp add: head_lines_def display_nat_def read_radix)

lemma uncached_line: "http_date_spec render \<Longrightarrow> CHR 0x0D \<notin> set (uncached render t)"
  by (cases "render t") (auto simp: uncached_def http_date_spec_def)

subsection \<open>Properties of the encoder\<close>

text \<open>
  C38: A reader that splits at line ends, stops at the empty line and takes Content-Length bytes
  finds in the output of consecutive calls of encode exactly the status lines, headers and bodies of
  the responses, with the dates of their times, in order, and leaves what follows them.
\<close>

theorem responses_read_back:
  assumes "http_date_spec render" "lines_spec hc" "cache_ok render c" "\<forall>(t, r) \<in> set xs. 0 < unix_secs t \<and> (\<exists>ps. render t = Inr ps)"
  shows "\<exists>out c1. encode_all hc render xs dst c = Inr (dst @ out, c1) \<and>
    read_responses (length xs) (out @ rest) = Some (map (\<lambda>(t, r). (head_lines hc r (uncached render t), body hc r)) xs, rest)"
  using assms(3,4)
proof (induction xs arbitrary: dst c)
  case (Cons x xs)
  obtain t r where x: "x = (t, r)" by (cases x)
  with Cons.prems(2) obtain ps where ps: "0 < unix_secs t" "render t = Inr ps" by auto
  let ?d = "uncached render t"
  let ?m = "concat (map (\<lambda>l. l @ crlf) (head_lines hc r ?d)) @ crlf @ body hc r"
  obtain c1 where c1: "now_fmt render t c = Inr (?d, c1)" "cache_ok render c1"
    using now_fmt_uncached [OF assms(1) Cons.prems(1) ps] ps(2) by (auto simp: uncached_def)
  then have e: "encode hc render t r dst c = Inr (dst @ ?m, c1)" by (simp add: encode_lines)
  obtain out c2 where out: "encode_all hc render xs (dst @ ?m) c1 = Inr ((dst @ ?m) @ out, c2)"
    "read_responses (length xs) (out @ rest) = Some (map (\<lambda>(t, r). (head_lines hc r (uncached render t), body hc r)) xs, rest)"
    using Cons.IH [OF c1(2), of "dst @ ?m"] Cons.prems(2) by auto
  have "read_head ((?m @ out) @ rest) = Some (head_lines hc r ?d, body hc r @ out @ rest)"
    using read_head_lines [OF head_lines_ok [OF assms(2) uncached_line [OF assms(1)]], of r t "body hc r @ out @ rest"] by simp
  with e out show ?case by (intro exI [of _ "?m @ out"] exI [of _ c2]) (simp add: x content_length_head)
qed simp

theorem responses_read_back_witness:
  "\<exists>out c. encode_all sample_crate sample_date [(7000000000, (''200 OK'', [(''a'', ''b'')], ''x'' @ crlf @ crlf)), (8000000000, (''404'', [], []))] [] LAST = Inr (out, c) \<and>
     map_option fst (read_responses (Suc (Suc 0)) out) = Some
       [([''HTTP/1.1 200 OK'', ''Server: Example'', ''Content-Length: 5'', ''Date: Thu, 01 Jan 1970 00:00:07 GMT'', ''a: b''], ''x'' @ crlf @ crlf),
        ([''HTTP/1.1 404'', ''Server: Example'', ''Content-Length: 0'', ''Date: Thu, 01 Jan 1970 00:00:08 GMT''], [])]"
  using responses_read_back [OF sample_date_ok sample_crate_lines LAST_ok,
      of "[(7000000000, (''200 OK'', [(''a'', ''b'')], ''x'' @ crlf @ crlf)), (8000000000, (''404'', [], []))]" "[]" "[]"]
  by (auto simp: head_lines_def sample_crate_def display_nat_simps digit_def uncached_def sample_date_def unix_secs_def char_of_def bit_0 crlf_def
      simp del: encode_all.simps read_responses.simps)

text \<open>
  The response builder of \<^verbatim>\<open>http\<close>, seen as the status and the headers it has collected: it starts with 200 and no header,
  takes a printable value under the name \<^verbatim>\<open>Content-Type\<close>, which it keeps in lower case, and the status 404. An unspoiled
  builder makes a response.
\<close>

definition printable :: "bytes \<Rightarrow> bool" where
  "printable s \<longleftrightarrow> list_all (\<lambda>c. 32 \<le> (of_char c :: nat) \<and> (of_char c :: nat) < 127) s"

definition response_builder_spec ::
    "('q, 'r, 'b, 'c, 'm, 'v) http_crate \<Rightarrow> ('c \<Rightarrow> (nat \<times> (bytes \<times> bytes) list) option) \<Rightarrow> bool" where
  "response_builder_spec hc collected \<longleftrightarrow>
     collected (response_builder hc) = Some (200, []) \<and>
     (\<forall>b v s hs. collected b = Some (s, hs) \<and> printable v \<longrightarrow>
        collected (response_header hc ''Content-Type'' v b) = Some (s, hs @ [(''content-type'', v)])) \<and>
     (\<forall>b s hs. collected b = Some (s, hs) \<longrightarrow> collected (response_status hc 404 b) = Some (404, hs)) \<and>
     (\<forall>b s hs content. collected b = Some (s, hs) \<longrightarrow>
        (\<exists>r. response_body hc content b = Inr r \<and> headers hc r = hs \<and> body hc r = content \<and>
           (s = 200 \<longrightarrow> status hc r = ''200 OK'') \<and> (s = 404 \<longrightarrow> status hc r = ''404 Not Found'')))"

definition route :: "bytes \<Rightarrow> bytes \<Rightarrow> bytes \<times> bytes list \<times> bytes" where
  "route js path =
     (if path = ''/plaintext'' then (''200 OK'', [''content-type: text/plain''], ''Hello, World!'')
      else if path = ''/json'' then (''200 OK'', [''content-type: application/json''], js)
      else (''404 Not Found'', [], []))"

text \<open>
  The bytes that answer a request: the greeting for /plaintext, the serialised message for /json,
  status 404 with an empty body for every other path, with server, length of the body, date of now
  and content type.
\<close>

theorem answers_on_the_wire:
  assumes "response_builder_spec hc collected" "json ''Hello, World!'' = Inr js"
    and "http_date_spec render" "cache_ok render c" "0 < unix_secs now" "render now = Inr ps"
    and "route js (uri_path hc req) = (stat, ls, content)"
  shows "\<exists>r c1. respond hc json req = Inr r \<and>
    encode hc render now r dst c = Inr (dst @
      concat (map (\<lambda>l. l @ crlf) ([''HTTP/1.1 '' @ stat, ''Server: Example'', ''Content-Length: '' @ display_nat (length content), ''Date: '' @ concat ps] @ ls)) @
      crlf @ content, c1)"
proof -
  obtain c1 where c1: "now_fmt render now c = Inr (concat ps, c1)" using now_fmt_uncached [OF assms(3-6)] by blast
  have p: "printable ''text/plain''" "printable ''application/json''" by (simp_all add: printable_def)
  note B = assms(1) [unfolded response_builder_spec_def]
  let ?b = "response_builder hc"
  have b: "collected ?b = Some (200, [])"
    "collected (response_header hc ''Content-Type'' ''text/plain'' ?b) = Some (200, [(''content-type'', ''text/plain'')])"
    "collected (response_header hc ''Content-Type'' ''application/json'' ?b) = Some (200, [(''content-type'', ''application/json'')])"
    "collected (response_status hc 404 ?b) = Some (404, [])"
    using B p by force+
  have made: "\<exists>r. response_body hc content b = Inr r \<and> headers hc r = hs \<and> body hc r = content \<and>
      (s = 200 \<longrightarrow> status hc r = ''200 OK'') \<and> (s = 404 \<longrightarrow> status hc r = ''404 Not Found'')" if "collected b = Some (s, hs)" for b s hs content
    using B that by blast
  have "\<exists>r. respond hc json req = Inr r \<and> status hc r = stat \<and> map (\<lambda>(k, v). k @ '': '' @ v) (headers hc r) = ls \<and> body hc r = content"
    using made [OF b(2), of "''Hello, World!''"] made [OF b(3), of js] made [OF b(4), of "[]"] assms(2,7)
    by (auto simp: respond_def route_def NOT_FOUND_def split: if_splits)
  then show ?thesis using c1 by (auto simp: encode_lines head_lines_def)
qed

definition sample_collected :: "nat \<times> (bytes \<times> bytes) list \<Rightarrow> (nat \<times> (bytes \<times> bytes) list) option" where
  "sample_collected b = (if \<forall>(k, v) \<in> set (snd b). CHR 0x0D \<notin> set k \<and> CHR 0x0D \<notin> set v then Some b else None)"

lemma sample_builder_ok: "response_builder_spec sample_crate sample_collected"
proof -
  have line: "filter (\<lambda>c. c \<noteq> CHR 0x0D) s = s" if "CHR 0x0D \<notin> set s" for s using that by (induction s) auto
  have "map (\<lambda>(k, v). (filter (\<lambda>c. c \<noteq> CHR 0x0D) k, filter (\<lambda>c. c \<noteq> CHR 0x0D) v)) hs = hs"
    if "\<forall>(k, v) \<in> set hs. CHR 0x0D \<notin> set k \<and> CHR 0x0D \<notin> set v" for hs
    using that by (induction hs) (auto simp: line)
  moreover have "CHR 0x0D \<notin> set v" if "printable v" for v using that by (auto simp: printable_def list_all_iff)
  ultimately show ?thesis by (auto simp: response_builder_spec_def sample_crate_def sample_collected_def split: if_splits)
qed

theorem answers_on_the_wire_witness:
  "\<exists>r c. respond sample_crate (\<lambda>_. Inr ''{}'') (''/plaintext'', []) = Inr r \<and>
     encode sample_crate sample_date 7000000000 r [] LAST = Inr (''HTTP/1.1 200 OK'' @ crlf @ ''Server: Example'' @ crlf @
       ''Content-Length: 13'' @ crlf @ ''Date: Thu, 01 Jan 1970 00:00:07 GMT'' @ crlf @ ''content-type: text/plain'' @ crlf @ crlf @ ''Hello, World!'', c)"
proof -
  have r: "sample_date 7000000000 = Inr [''Thu, 01 Jan 1970 00:00:0'', ''7'', '' GMT'']"
    by (simp add: sample_date_def unix_secs_def char_of_def bit_0)
  have p: "route ''{}'' (uri_path sample_crate (''/plaintext'', [])) = (''200 OK'', [''content-type: text/plain''], ''Hello, World!'')"
    by (simp add: route_def sample_crate_def)
  have t: "0 < unix_secs 7000000000" by (simp add: unix_secs_def)
  have n: "display_nat (length ''Hello, World!'') = ''13''" by (simp add: display_nat_simps digit_def char_of_def bit_0)
  from answers_on_the_wire [OF sample_builder_ok _ sample_date_ok LAST_ok t r p, of "\<lambda>_. Inr ''{}''" "[]"] n
  show ?thesis by simp
qed

subsection \<open>Properties of a connection\<close>

text \<open>
  The transport, seen as the frames that come in and the responses that have gone out. A response whose sending failed may have
  gone out or not.
\<close>

definition transport_spec :: "('t, 'q, 'r) transport \<Rightarrow> ('t \<Rightarrow> (io_error + 'q) list) \<Rightarrow> ('t \<Rightarrow> 'r list) \<Rightarrow> bool" where
  "transport_spec tr inbox outbox \<longleftrightarrow>
     (\<forall>t. case next_frame tr t of
        (None, t1) \<Rightarrow> inbox t = [] \<and> outbox t1 = outbox t
      | (Some x, t1) \<Rightarrow> inbox t = x # inbox t1 \<and> outbox t1 = outbox t) \<and>
     (\<forall>r t. case send_frame tr r t of
        (Inr _, t1) \<Rightarrow> inbox t1 = inbox t \<and> outbox t1 = outbox t @ [r]
      | (Inl e, t1) \<Rightarrow> outbox t1 = outbox t \<or> outbox t1 = outbox t @ [r])"

text \<open>The responses to the requests up to the first failure, and that failure.\<close>

fun replies :: "('q \<Rightarrow> server_error + 'r) \<Rightarrow> (io_error + 'q) list \<Rightarrow> 'r list \<times> (server_error + unit)" where
  "replies answer [] = ([], Inr ())"
| "replies answer (Inl e # xs) = ([], Inl (Io_Failed e))"
| "replies answer (Inr q # xs) =
     (case answer q of Inl e \<Rightarrow> ([], Inl e) | Inr r \<Rightarrow> (case replies answer xs of (rs, res) \<Rightarrow> (r # rs, res)))"

text \<open>The transport failed to send response \<open>k\<close>, with the ones before it sent and no frame after its request read.\<close>

definition send_fails ::
    "('t, 'q, 'r) transport \<Rightarrow> ('t \<Rightarrow> (io_error + 'q) list) \<Rightarrow> ('t \<Rightarrow> 'r list) \<Rightarrow> 't \<Rightarrow> 'r list \<Rightarrow> nat \<Rightarrow> io_error \<Rightarrow> 't \<Rightarrow> bool" where
  "send_fails tr inbox outbox t rs k e t1 \<longleftrightarrow> k < length rs \<and>
     (\<exists>t2. inbox t2 = drop (Suc k) (inbox t) \<and> outbox t2 = outbox t @ take k rs \<and> send_frame tr (rs ! k) t2 = (Inl e, t1)) \<and>
     (outbox t1 = outbox t @ take k rs \<or> outbox t1 = outbox t @ take (Suc k) rs)"

lemma transport_next:
  assumes "transport_spec tr inbox outbox"
  obtains t1 where "next_frame tr t = (None, t1)" "inbox t = []" "outbox t1 = outbox t"
  | x t1 where "next_frame tr t = (Some x, t1)" "inbox t = x # inbox t1" "outbox t1 = outbox t"
proof -
  obtain y t1 where n: "next_frame tr t = (y, t1)" by (cases "next_frame tr t")
  have "case (y, t1) of (None, t1) \<Rightarrow> inbox t = [] \<and> outbox t1 = outbox t
      | (Some x, t1) \<Rightarrow> inbox t = x # inbox t1 \<and> outbox t1 = outbox t"
    using conjunct1 [OF assms [unfolded transport_spec_def], THEN spec, of t] n by simp
  then show thesis using that n by (cases y) auto
qed

lemma transport_send:
  assumes "transport_spec tr inbox outbox"
  obtains t1 where "send_frame tr r t = (Inr (), t1)" "inbox t1 = inbox t" "outbox t1 = outbox t @ [r]"
  | e t1 where "send_frame tr r t = (Inl e, t1)" "outbox t1 = outbox t \<or> outbox t1 = outbox t @ [r]"
proof -
  obtain y t1 where n: "send_frame tr r t = (y, t1)" by (cases "send_frame tr r t")
  have "case (y, t1) of (Inr _, t1) \<Rightarrow> inbox t1 = inbox t \<and> outbox t1 = outbox t @ [r]
      | (Inl e, t1) \<Rightarrow> outbox t1 = outbox t \<or> outbox t1 = outbox t @ [r]"
    using conjunct2 [OF assms [unfolded transport_spec_def], THEN spec [where x = r], THEN spec [where x = t]] n by simp
  then show thesis using that n by (cases y) auto
qed

lemma send_fails_later:
  assumes "send_fails tr inbox outbox t2 rs k e t3" "inbox t = x # inbox t2" "outbox t2 = outbox t @ [r]"
  shows "send_fails tr inbox outbox t (r # rs) (Suc k) e t3"
  using assms by (auto simp: send_fails_def)

lemma process_frames_sent:
  assumes "transport_spec tr inbox outbox" "next_frame tr t = (Some (Inr q), t1)" "inbox t = Inr q # inbox t1" "outbox t1 = outbox t" "answer q = Inr r"
    and "\<And>t2. inbox t2 = inbox t1 \<Longrightarrow> \<exists>t3. process_frames tr answer t2 = Some (res, t3) \<and> outbox t3 = outbox t2 @ rs \<or>
      (\<exists>e k. process_frames tr answer t2 = Some (Inl (Io_Failed e), t3) \<and> send_fails tr inbox outbox t2 rs k e t3)"
  shows "\<exists>t3. process_frames tr answer t = Some (res, t3) \<and> outbox t3 = outbox t @ r # rs \<or>
    (\<exists>e k. process_frames tr answer t = Some (Inl (Io_Failed e), t3) \<and> send_fails tr inbox outbox t (r # rs) k e t3)"
  using assms(1)
proof (cases rule: transport_send [where r = r and t = t1])
  case (1 t2)
  then have "process_frames tr answer t = process_frames tr answer t2"
    using assms(2,5) by (simp add: process_frames.simps [of tr answer t])
  moreover have "send_fails tr inbox outbox t (r # rs) (Suc k) e t3" if "send_fails tr inbox outbox t2 rs k e t3" for k e t3
    using send_fails_later [OF that] 1(2,3) assms(3,4) by simp
  ultimately show ?thesis using assms(6) [of t2] 1(2,3) assms(4) by (metis append.assoc append_Cons append_Nil)
next
  case (2 e t2)
  then have "process_frames tr answer t = Some (Inl (Io_Failed e), t2)"
    using assms(2,5) by (simp add: process_frames.simps [of tr answer t])
  moreover have "send_fails tr inbox outbox t (r # rs) 0 e t2" using 2 assms(3,4) by (auto simp: send_fails_def)
  ultimately show ?thesis by blast
qed

lemma process_frames_replies:
  assumes "transport_spec tr inbox outbox" "replies answer (inbox t) = (rs, res)"
  shows "\<exists>t1. process_frames tr answer t = Some (res, t1) \<and> outbox t1 = outbox t @ rs \<or>
    (\<exists>e k. process_frames tr answer t = Some (Inl (Io_Failed e), t1) \<and> send_fails tr inbox outbox t rs k e t1)"
  using assms(2)
proof (induction "inbox t" arbitrary: t rs)
  case Nil
  from assms(1) show ?case
    by (cases rule: transport_next [where t = t]) (use Nil in \<open>auto simp: process_frames.simps [of tr answer t]\<close>)
next
  case (Cons x xs)
  obtain t1 where t1: "next_frame tr t = (Some x, t1)" "xs = inbox t1" "outbox t1 = outbox t"
    using assms(1) by (cases rule: transport_next [where t = t]) (use Cons(2) in auto)
  note unfold = process_frames.simps [of tr answer t] and prems = Cons(3) [folded Cons(2)]
  consider (failed) e where "x = Inl e" | (refused) q e where "x = Inr q" "answer q = Inl e" | (answered) q r where "x = Inr q" "answer q = Inr r"
    by (metis sum.exhaust)
  then show ?case
  proof cases
    case failed
    then show ?thesis using prems t1 by (auto simp: unfold)
  next
    case refused
    then show ?thesis using prems t1 by (auto simp: unfold)
  next
    case (answered q r)
    obtain rs1 where rs1: "rs = r # rs1" "replies answer xs = (rs1, res)"
      using prems answered by (auto split: prod.splits)
    have "next_frame tr t = (Some (Inr q), t1)" "inbox t = Inr q # inbox t1" using t1(1,2) Cons(2) answered(1) by simp_all
    note sent = process_frames_sent [OF assms(1) this t1(3), of answer r res rs1]
    show ?thesis unfolding rs1(1)
      by (rule sent [OF answered(2)]) (use Cons(1) t1(2) rs1(2) in simp)
  qed
qed

text \<open>
  C39: A connection whose frames come to an end returns. Either the responses it has sent are the
  answers to its requests in order up to the first failure, which is its result; or the transport
  failed to send one of these answers, its error is the result, the answers before it have been sent
  and none after it.
\<close>

theorem connection_answers_in_order:
  assumes "transport_spec tr inbox outbox" "replies (respond hc json) (inbox t) = (rs, res)"
  shows "\<exists>t1. process hc json tr t = Some (res, t1) \<and> outbox t1 = outbox t @ rs \<or>
    (\<exists>e k. process hc json tr t = Some (Inl (Io_Failed e), t1) \<and> send_fails tr inbox outbox t rs k e t1)"
  unfolding process_def by (rule process_frames_replies [OF assms])

definition list_transport :: "((io_error + 'q) list \<times> 'r list, 'q, 'r) transport" where
  "list_transport =
     \<lparr>next_frame = (\<lambda>(i, out). case i of [] \<Rightarrow> (None, i, out) | x # xs \<Rightarrow> (Some x, xs, out)),
      send_frame = (\<lambda>r (i, out). (Inr (), i, out @ [r]))\<rparr>"

lemma list_transport_ok: "transport_spec list_transport fst snd"
  by (auto simp: transport_spec_def list_transport_def split: list.splits)

lemma list_transport_sends: "\<not> send_fails list_transport fst snd t rs k e t1"
  by (simp add: send_fails_def list_transport_def split: prod.splits)

theorem connection_answers_in_order_witness:
  "\<exists>t. process sample_crate (\<lambda>_. Inr ''{}'') list_transport ([Inr (''/x'', []), Inr (''/json'', [])], []) = Some (Inr (), t) \<and>
     snd t = [(''404 Not Found'', [], []), (''200 OK'', [(''content-type'', ''application/json'')], ''{}'')]"
  using connection_answers_in_order [OF list_transport_ok, of sample_crate "\<lambda>_. Inr ''{}''" "([Inr (''/x'', []), Inr (''/json'', [])], [])"]
  by (auto simp: respond_def sample_crate_def NOT_FOUND_def list_transport_sends)

text \<open>The accept loop takes connections until the first error, and spawns each before it accepts the next.\<close>

lemma accept_loop_until_error:
  assumes "\<And>i. i < n \<Longrightarrow> \<exists>stream addr s1. accept (s i) = (Inr (stream, addr), s1) \<and> s (Suc i) = spawn stream s1"
    and "accept (s n) = (Inl e, s1)"
  shows "accept_loop accept spawn (s 0) = Some (e, s1)"
proof -
  have "accept_loop accept spawn (s i) = Some (e, s1)" if "i \<le> n" for i
    using that
  proof (induction rule: inc_induct)
    case base
    then show ?case using assms(2) by (subst accept_loop.simps) simp
  next
    case (step i)
    then show ?case using assms(1) [of i] by (subst accept_loop.simps) auto
  qed
  then show ?thesis by simp
qed

end
