(* ===== verification/Model_Tests.thy ===== *)
theory Model_Tests
  imports Runtime
begin

text \<open>
  The repository's own tests, run on the model: each scenario is the body of a test of \<^verbatim>\<open>src/src/sync_slot_map.rs\<close>,
  \<^verbatim>\<open>src/src/lib.rs\<close>, \<^verbatim>\<open>src/src/join_handle/tests.rs\<close> or \<^verbatim>\<open>src/src/task/tests.rs\<close>, written over the definitions of the
  library, and the lemma says that its assertions hold. Where a test fixes a future or a number the lemma is for
  every one.
\<close>

subsection \<open>The queue of parked workers\<close>

fun push_each :: "nat list \<Rightarrow> slot_map \<Rightarrow> panic + slot_map" where
  "push_each [] m = Inr m"
| "push_each (i # is) m = bindE (push i m) (push_each is)"

fun pop_times :: "nat \<Rightarrow> slot_map \<Rightarrow> panic + nat ready_slot list \<times> slot_map" where
  "pop_times 0 m = Inr ([], m)"
| "pop_times (Suc n) m = bindE (pop m) (\<lambda>(r, m1). bindE (pop_times n m1) (\<lambda>(rs, m2). Inr (r # rs, m2)))"

definition push_pop :: "panic + nat ready_slot list" where
  "push_pop =
     bindE (push_each [0..<16] (new_map 16)) (\<lambda>m1.
     bindE (pop_times 8 m1) (\<lambda>(rs1, m2).
     bindE (push 0 m2) (\<lambda>m3.
     bindE (pop_times 8 m3) (\<lambda>(rs2, m4).
     bindE (pop m4) (\<lambda>(r3, m5).
     bindE (pop m5) (\<lambda>(r4, m6). Inr (rs1 @ rs2 @ [r3, r4])))))))"

lemma push_pop_passes: "push_pop = Inr (map Slot_Ready [0..<16] @ [Slot_Ready 0, Slot_None])"
  by code_simp

subsection \<open>Join handles\<close>

text \<open>A runtime without workers, which the tests drive by hand.\<close>

definition manual_runtime :: "'q \<Rightarrow> 'q mt_runtime" where
  "manual_runtime q0 = \<lparr>global_queue = q0, workers = Some [], parked_workers = new_map 0, io_wakes = 0\<rparr>"

definition manual_world :: "'aw atomic_waker_ops \<Rightarrow> 'q \<Rightarrow> 'f \<Rightarrow> ('f, 'o, 'aw, 'q) world" where
  "manual_world aw q0 f0 = \<lparr>rt = manual_runtime q0, tasks = (\<lambda>_. new_task aw f0), woken = []\<rparr>"

text \<open>
  The joiner polls, the task completes or is aborted, and the waker polls the join handle from its callback: what that
  poll yields, \<open>None\<close> when an assertion fails on the way.
\<close>

definition poll_during_completion_wake ::
    "'aw atomic_waker_ops \<Rightarrow> 'q linked_list_ops \<Rightarrow> ('f \<Rightarrow> 'f \<times> 'o fut_poll) \<Rightarrow> 'q \<Rightarrow> 'f \<Rightarrow> bool \<Rightarrow> (join_error + 'o) option" where
  "poll_during_completion_wake aw ll fp q0 f abort_it =
     (let ((t, join), w0) = join_handle_new aw 0 f (manual_world aw q0 f);
          (first, w1) = join_handle_poll aw 7 (join_task join) w0;
          queued = (if abort_it then cancel ll True t w1 else Some (Inr w1)) in
      case (first, queued) of
        (Poll_Pending, Some (Inr w2)) \<Rightarrow>
          (let (popped, g) = (if abort_it then ll_pop_front ll (global_queue (rt w2)) else (Some t, global_queue (rt w2))) in
           case popped of
             None \<Rightarrow> None
           | Some u \<Rightarrow>
               (case run aw ll True fp (\<lambda>w. w) u (w2\<lparr>rt := (rt w2)\<lparr>global_queue := g\<rparr>\<rparr>) of
                  Some (Inr w3) \<Rightarrow>
                    if 7 \<in> set (woken w3) then
                      (case join_handle_poll aw 8 (join_task join) w3 of (Poll_Ready v, _) \<Rightarrow> Some v | _ \<Rightarrow> None)
                    else None
                | _ \<Rightarrow> None))
      | _ \<Rightarrow> None)"

text \<open>
  A task that completes after the first check of its output and before the registration of the waker: \<open>reg\<close> is what the
  substituted \<^verbatim>\<open>register\<close> does.
\<close>

definition poll_registering ::
    "(('f, 'o, 'aw, 'q) world \<Rightarrow> ('f, 'o, 'aw, 'q) world) \<Rightarrow> nat \<Rightarrow> ('f, 'o, 'aw, 'q) world \<Rightarrow>
     (join_error + 'o) poll \<times> ('f, 'o, 'aw, 'q) world" where
  "poll_registering reg t w =
     (case take_output t w of
        (Some v, w1) \<Rightarrow> (Poll_Ready v, w1)
      | (None, w1) \<Rightarrow>
          (case take_output t (reg w1) of
             (Some v, w2) \<Rightarrow> (Poll_Ready v, w2)
           | (None, w2) \<Rightarrow> (Poll_Pending, w2)))"

definition complete_on_register ::
    "'aw atomic_waker_ops \<Rightarrow> 'q linked_list_ops \<Rightarrow> ('f \<Rightarrow> 'f \<times> 'o fut_poll) \<Rightarrow> bool \<Rightarrow> nat \<Rightarrow> nat \<Rightarrow>
     ('f, 'o, 'aw, 'q) world \<Rightarrow> ('f, 'o, 'aw, 'q) world" where
  "complete_on_register aw ll fp abort_it wk t w =
     (let w1 = (if abort_it then projr (the (cancel ll True t w)) else w) in
      register aw wk t (projr (the (run aw ll True fp (\<lambda>w. w) t w1))))"

definition complete_during_registration ::
    "'aw atomic_waker_ops \<Rightarrow> 'q linked_list_ops \<Rightarrow> ('f \<Rightarrow> 'f \<times> 'o fut_poll) \<Rightarrow> 'q \<Rightarrow> 'f \<Rightarrow> bool \<Rightarrow> (join_error + 'o) poll" where
  "complete_during_registration aw ll fp q0 f abort_it =
     (let ((t, join), w0) = join_handle_new aw 0 f (manual_world aw q0 f) in
      fst (poll_registering (complete_on_register aw ll fp abort_it 7 t) (join_task join) w0))"

lemma poll_registering_register: "poll_registering (register aw wk t) t w = join_handle_poll aw wk t w"
  by (simp add: poll_registering_def join_handle_poll_def)

lemma manual_runtime_ok: "workers_ok (manual_runtime q0) []"
  by (simp add: workers_ok_def manual_runtime_def new_map_ok)

lemma manual_task:
  "state (tasks (manual_world aw q0 f) t) = IDLE" "fut (tasks (manual_world aw q0 f) t) = Future f"
  "rt (manual_world aw q0 f) = manual_runtime q0" "woken (manual_world aw q0 f) = []"
  by (simp_all add: manual_world_def new_task_def IDLE_def)

lemma join_handle_new_manual:
  "join_handle_new aw t f (manual_world aw q0 f) = ((t, \<lparr>join_task = t\<rparr>), manual_world aw q0 f)"
  by (simp add: join_handle_new_def allocate_def manual_world_def fun_upd_idem)

lemma completion_wake_can_poll_join:
  assumes "atomic_waker_spec aw" "fp f = (f', Fut_Ready x) \<and> v = Inr x \<or> fp f = (f', Fut_Panic p) \<and> v = Inl (Panic p)"
  shows "poll_during_completion_wake aw ll fp q0 f False = Some v"
proof -
  let ?w = "register aw 7 0 (manual_world aw q0 f)"
  have p: "join_inner_poll fp (fut (tasks ?w 0)) = (Return v, Poll_Ready ())" using assms(2) by (auto simp: manual_task)
  have "state (tasks ?w 0) = IDLE" by (simp add: manual_task)
  note R = run_ready [OF this p, of aw ll True "\<lambda>w. w"]
  have "7 \<in> set (woken (waker_wake aw 0 (set_state 0 COMPLETED (set_fut 0 (Return v) (set_state 0 RUNNING ?w)))))"
    using assms(1) by (simp add: atomic_waker_spec_def)
  then show ?thesis
    by (simp add: poll_during_completion_wake_def join_handle_new_manual join_poll_future manual_task R join_poll_return Let_def)
qed


lemma manual_cancel:
  assumes "linked_list_spec ll items" "items q0 = []" "rt w = manual_runtime q0" "state (tasks w t) = IDLE"
  shows "\<exists>r. cancel ll True t w = Some (Inr ((set_state t CANCELLED w)\<lparr>rt := r\<rparr>)) \<and> items (global_queue r) = [t]"
proof -
  have "\<exists>ws. workers_ok (rt (set_state t CANCELLED w)) ws" using manual_runtime_ok [of q0] assms(3) by auto
  from schedule_global_ok [OF assms(1), of True "set_state t CANCELLED w" t] this assms(2,3)
  obtain r where "schedule_global ll True t (set_state t CANCELLED w) = Some (Inr ((set_state t CANCELLED w)\<lparr>rt := r\<rparr>))"
    "items (global_queue r) = [t]" by (auto simp: manual_runtime_def)
  then show ?thesis using assms(4) by (auto simp: cancel_def)
qed

lemma completion_wake_can_poll_cancelled_join:
  fixes fp :: "'f \<Rightarrow> 'f \<times> 'o fut_poll" and aw :: "'aw atomic_waker_ops" and ll :: "'q linked_list_ops"
  assumes "linked_list_spec ll items" "items q0 = []" "atomic_waker_spec aw"
  shows "poll_during_completion_wake aw ll fp q0 f True = Some (Inl Aborted)"
proof -
  let ?w = "register aw 7 0 (manual_world aw q0 f) :: ('f, 'o, 'aw, 'q) world"
  have "rt ?w = manual_runtime q0" "state (tasks ?w 0) = IDLE" by (simp_all add: manual_task)
  from manual_cancel [OF assms(1,2) this] obtain r where
    r: "cancel ll True 0 ?w = Some (Inr ((set_state 0 CANCELLED ?w)\<lparr>rt := r\<rparr>))" "items (global_queue r) = [0]" by blast
  obtain g where g: "ll_pop_front ll (global_queue r) = (Some 0, g)"
    using assms(1) r(2) by (metis linked_list_spec_def list.case(2) prod.collapse)
  let ?w2 = "(set_state 0 CANCELLED ?w)\<lparr>rt := r\<lparr>global_queue := g\<rparr>\<rparr>"
  have run: "run aw ll True fp (\<lambda>w. w) 0 ?w2 = Some (Inr (finish_cancellation aw 0 ?w2))" by (rule run_cancelled) simp
  have "fut (tasks (finish_cancellation aw 0 ?w2) 0) = Return (Inl Aborted)" by (simp add: manual_task)
  note J = join_poll_return [OF this, of aw 8]
  have "7 \<in> set (woken (finish_cancellation aw 0 ?w2))" using assms(3) by (simp add: atomic_waker_spec_def)
  then show ?thesis
    by (simp add: poll_during_completion_wake_def join_handle_new_manual join_poll_future manual_task r(1) g run J Let_def)
qed

lemma result_during_registration_is_not_lost:
  assumes "fp f = (f', Fut_Ready x) \<and> v = Inr x \<or> fp f = (f', Fut_Panic p) \<and> v = Inl (Panic p)"
  shows "complete_during_registration aw ll fp q0 f False = Poll_Ready v"
proof -
  let ?w = "manual_world aw q0 f"
  have p: "join_inner_poll fp (fut (tasks ?w 0)) = (Return v, Poll_Ready ())" using assms by (auto simp: manual_task)
  note R = run_ready [OF manual_task(1) p, of aw ll True "\<lambda>w. w"]
  show ?thesis
    by (simp add: complete_during_registration_def join_handle_new_manual poll_registering_def complete_on_register_def
        take_output_simps manual_task R Let_def)
qed

lemma cancellation_during_registration_is_not_lost:
  fixes fp :: "'f \<Rightarrow> 'f \<times> 'o fut_poll" and aw :: "'aw atomic_waker_ops" and ll :: "'q linked_list_ops"
  assumes "linked_list_spec ll items" "items q0 = []"
  shows "complete_during_registration aw ll fp q0 f True = Poll_Ready (Inl Aborted)"
proof -
  let ?w = "manual_world aw q0 f :: ('f, 'o, 'aw, 'q) world"
  have "rt ?w = manual_runtime q0" "state (tasks ?w 0) = IDLE" by (simp_all add: manual_task)
  from manual_cancel [OF assms this] obtain r where
    r: "cancel ll True 0 ?w = Some (Inr ((set_state 0 CANCELLED ?w)\<lparr>rt := r\<rparr>))" by blast
  have "run aw ll True fp (\<lambda>w. w) 0 ((set_state 0 CANCELLED ?w)\<lparr>rt := r\<rparr>) =
      Some (Inr (finish_cancellation aw 0 ((set_state 0 CANCELLED ?w)\<lparr>rt := r\<rparr>)))" by (rule run_cancelled) simp
  with r show ?thesis
    by (simp add: complete_during_registration_def join_handle_new_manual poll_registering_def complete_on_register_def
        take_output_simps manual_task Let_def)
qed

subsection \<open>Tasks\<close>

text \<open>
  A poll that is paused while a worker consumes \<open>k\<close> notifications of the task, then stays pending; the next run completes it.
\<close>

primrec notified_runs ::
    "'aw atomic_waker_ops \<Rightarrow> 'q linked_list_ops \<Rightarrow> ('f \<Rightarrow> 'f \<times> 'o fut_poll) \<Rightarrow> nat \<Rightarrow> nat \<Rightarrow> ('f, 'o, 'aw, 'q) world \<Rightarrow> ('f, 'o, 'aw, 'q) world" where
  "notified_runs aw ll fp t 0 w = w"
| "notified_runs aw ll fp t (Suc k) w = notified_runs aw ll fp t k (projr (the (run aw ll True fp (\<lambda>w. w) t w)))"

lemma notified_runs_state:
  assumes "state (tasks w t) = RUNNING" "0 < k"
  shows "notified_runs aw ll fp t k w = set_state t NOTIFIED w"
proof -
  have inert: "notified_runs aw ll fp t k w = w" if "state (tasks w t) = NOTIFIED" for k w
    using that by (induction k) (simp_all add: run_inert)
  show ?thesis using assms inert [of "set_state t NOTIFIED w"] by (cases k) (simp_all add: run_notifies)
qed

lemma notification_during_poll_is_preserved:
  assumes "linked_list_spec ll items" "workers_ok (rt w) ws" "state (tasks w t) = IDLE" "fut (tasks w t) = Future f"
    and "fp f = (f1, Fut_Pending)" "fp f1 = (f2, Fut_Ready x)" "0 < k"
  shows "\<exists>w1 w2. run aw ll True fp (notified_runs aw ll fp t k) t w = Some (Inr w1) \<and> t \<in> set (items (global_queue (rt w1))) \<and>
    run aw ll True fp (\<lambda>w. w) t w1 = Some (Inr w2) \<and> fut (tasks w2 t) = Return (Inr x)"
proof -
  let ?w1 = "set_state t NOTIFIED (set_fut t (Future f1) (set_state t RUNNING w))"
  let ?w2 = "set_state t IDLE ?w1"
  have p: "join_inner_poll fp (fut (tasks w t)) = (Future f1, Poll_Pending)" using assms(4,5) by simp
  have g: "notified_runs aw ll fp t k (set_fut t (Future f1) (set_state t RUNNING w)) = ?w1"
    using assms(7) by (intro notified_runs_state) simp_all
  have run: "run aw ll True fp (notified_runs aw ll fp t k) t w = schedule_global ll True t ?w2"
    by (rule run_pending(2) [OF assms(3) p, where g = "notified_runs aw ll fp t k"]) (simp_all add: g)
  have "\<exists>ws. workers_ok (rt ?w2) ws" using assms(2) by auto
  from schedule_global_ok [OF assms(1), of True ?w2 t] this obtain r where
    r: "schedule_global ll True t ?w2 = Some (Inr (?w2\<lparr>rt := r\<rparr>))" "t \<in> set (items (global_queue r))"
    by (auto split: if_splits)
  have "join_inner_poll fp (fut (tasks (?w2\<lparr>rt := r\<rparr>) t)) = (Return (Inr x), Poll_Ready ())" using assms(6) by simp
  from run_ready [OF _ this, of aw ll True "\<lambda>w. w"] run r show ?thesis by simp
qed

lemma cancellation_during_notified_poll_wakes_joiner:
  assumes "atomic_waker_spec aw" "state (tasks w t) = IDLE" "fut (tasks w t) = Future f" "fp f = (f1, Fut_Pending)"
    and "waker (tasks w t) = aw_register aw wk a" "0 < k"
  shows "\<exists>w1. run aw ll True fp (\<lambda>w. set_state t CANCELLED (notified_runs aw ll fp t k w)) t w = Some (Inr w1) \<and>
    woken w1 = woken w @ [wk] \<and> fst (take_output t w1) = Some (Inl Aborted)"
proof -
  let ?w1 = "set_state t NOTIFIED (set_fut t (Future f1) (set_state t RUNNING w))"
  have p: "join_inner_poll fp (fut (tasks w t)) = (Future f1, Poll_Pending)" using assms(3,4) by simp
  have g: "notified_runs aw ll fp t k (set_fut t (Future f1) (set_state t RUNNING w)) = ?w1"
    using assms(6) by (intro notified_runs_state) simp_all
  let ?w2 = "set_state t CANCELLED ?w1"
  have run: "run aw ll True fp (\<lambda>w. set_state t CANCELLED (notified_runs aw ll fp t k w)) t w = Some (Inr (finish_cancellation aw t ?w2))"
    by (rule run_pending(3) [OF assms(2) p]) (simp_all add: g)
  show ?thesis using assms(1,5) run by (intro exI [of _ "finish_cancellation aw t ?w2"]) (simp add: atomic_waker_spec_def take_output_simps)
qed

subsection \<open>Entering a runtime\<close>

text \<open>The three tests of the context of \<^verbatim>\<open>block_on\<close>; the number of a runtime stands for its pointer.\<close>

definition ready_future :: "'o \<Rightarrow> unit \<Rightarrow> 's thread_local \<Rightarrow> (unit \<times> 'o fut_poll) \<times> 's thread_local" where
  "ready_future x = (\<lambda>f st. ((f, Fut_Ready x), st))"

definition panicking_future :: "string \<Rightarrow> unit \<Rightarrow> 's thread_local \<Rightarrow> (unit \<times> 'o fut_poll) \<times> 's thread_local" where
  "panicking_future p = (\<lambda>f st. ((f, Fut_Panic p), st))"

text \<open>A future of the outer runtime that enters another one and checks that it is refused and its own context is kept.\<close>

definition entering_future :: "nat \<Rightarrow> nat \<Rightarrow> unit \<Rightarrow> 's thread_local \<Rightarrow> (unit \<times> bool fut_poll) \<times> 's thread_local" where
  "entering_future outer inner = (\<lambda>f st.
     case block_on inner (ready_future ()) () st of
       Some (Inl m, st1) \<Rightarrow> ((f, Fut_Ready (case HANDLE st1 of None \<Rightarrow> False | Some exec \<Rightarrow> shared exec = outer)), st1)
     | Some (Inr _, st1) \<Rightarrow> ((f, Fut_Ready False), st1)
     | None \<Rightarrow> ((f, Fut_Pending), st))"

text \<open>A future that panics, then another call on the same thread.\<close>

definition panic_then_block_on :: "nat \<Rightarrow> 's \<Rightarrow> bool" where
  "panic_then_block_on me out =
     (case block_on me (panicking_future ''future panicked'' :: _ \<Rightarrow> _ \<Rightarrow> (_ \<times> unit fut_poll) \<times> _) () \<lparr>HANDLE = None, outside = out\<rparr> of
        Some (Inl _, st) \<Rightarrow>
          HANDLE st = None \<and> (case block_on me (ready_future (3 :: nat)) () st of Some (Inr v, _) \<Rightarrow> v = 3 | _ \<Rightarrow> False)
      | _ \<Rightarrow> False)"

lemmas block_on_simps = block_on_def enter_runtime_def reset_handle_def poll_loop_simps

lemma block_on_context_is_cleared_after_return:
  assumes "HANDLE st = None"
  shows "block_on me (ready_future x) () st = Some (Inr x, st)"
  using assms by (simp add: block_on_simps ready_future_def)

lemma block_on_context_is_cleared_after_panic: "panic_then_block_on me out"
  by (simp add: panic_then_block_on_def block_on_simps panicking_future_def ready_future_def)

lemma block_on_rejection_preserves_the_outer_context:
  assumes "HANDLE st = None"
  shows "block_on outer (entering_future outer inner) () st = Some (Inr True, st)"
proof -
  have "entering_future outer inner () (st\<lparr>HANDLE := Some (fake_exec outer)\<rparr>) = (((), Fut_Ready True), st\<lparr>HANDLE := Some (fake_exec outer)\<rparr>)"
    by (simp add: entering_future_def block_on_simps fake_exec_def)
  then show ?thesis using assms by (simp add: block_on_simps)
qed


subsection \<open>The sleeping future of the timer test\<close>

text \<open>
  Points in time are numbers. A poll yields its outcome, the future afterwards and the threads it has started, each with how
  long it sleeps and the waker it then wakes; a difference of points in time is zero when it would be negative.
\<close>

record thread_sleeper =
  instant :: nat
  spawned :: bool

definition sleep :: "nat \<Rightarrow> nat \<Rightarrow> thread_sleeper" where
  "sleep now duration = \<lparr>instant = now + duration, spawned = False\<rparr>"

definition sleeper_poll :: "nat \<Rightarrow> nat \<Rightarrow> 'w \<Rightarrow> thread_sleeper \<Rightarrow> unit poll \<times> thread_sleeper \<times> (nat \<times> 'w) list" where
  "sleeper_poll now started wk s =
     (if spawned s \<or> now > instant s then (Poll_Ready (), s, [])
      else (Poll_Pending, s\<lparr>spawned := True\<rparr>, [(instant s - started, wk)]))"

lemma sleep_waits_and_is_woken:
  assumes "now \<le> at + duration"
  obtains s1 where "sleeper_poll now started wk (sleep at duration) = (Poll_Pending, s1, [(at + duration - started, wk)])"
    and "\<And>later started' wk'. sleeper_poll later started' wk' s1 = (Poll_Ready (), s1, [])"
  using assms by (auto simp: sleeper_poll_def sleep_def)

end
