(* ===== verification/Spec2Isabelle.thy ===== *)
theory Spec2Isabelle
  imports Bits Ready Scheduled_IO Slot_Map Slot_Map_Conc Task Task_Conc Runtime Driver Registration Poll_Evented
    Linked_List Net Udp Tcp Sched_Conc Driver_Failure IO_Conc IO_Progress Startup Block_On Debug_Output Http_Date Http_Server Model_Tests
begin

text \<open>
  Verification of arc-discharge, a multi-threaded asynchronous runtime with network I/O.

  \<^bold>\<open>The program.\<close> A runtime (\<^verbatim>\<open>src/src/lib.rs\<close>) has worker threads with a local queue each and one global
  queue of tasks. A worker runs a task; with nothing to run it polls the I/O driver, or parks and leaves its index
  in the queue of parked workers (\<^verbatim>\<open>sync_slot_map.rs\<close>), from which \<^verbatim>\<open>Task::schedule_global\<close> takes the worker to
  notify. A task (\<^verbatim>\<open>task.rs\<close>) is a future with an atomic state; its result reaches the \<^verbatim>\<open>JoinHandle\<close>
  (\<^verbatim>\<open>join_handle.rs\<close>) through a cell under a lock and a registered waker. Tasks are queued through links embedded in
  them (\<^verbatim>\<open>linked_list.rs\<close>). The driver (\<^verbatim>\<open>io/mod.rs\<close>) turns events of the operating system into the readiness
  word (\<^verbatim>\<open>io/ready.rs\<close>, \<^verbatim>\<open>bits.rs\<close>) of a slab entry and wakes who waits there; a \<^verbatim>\<open>Registration\<close> (\<^verbatim>\<open>io/registration.rs\<close>)
  runs operations against this readiness, a \<^verbatim>\<open>PollEvented\<close> (\<^verbatim>\<open>io/poll_evented.rs\<close>) adds the source, and the sockets
  (\<^verbatim>\<open>net/\<close>) are operations over it. The example \<^verbatim>\<open>src/examples/http-server.rs\<close> serves HTTP on top.

  \<^bold>\<open>The theories.\<close>
  \<^item> \<^verbatim>\<open>Prelude\<close>: words of a 64-bit target, \<^verbatim>\<open>Poll\<close>, panics as values, checked indexing, the collections of
    rewrite rules on readiness (\<open>flag_simps\<close>, \<open>word_simps\<close>), and the locale of transition systems whose reachable states keep an
    invariant.
  \<^item> \<^verbatim>\<open>Bits\<close> (\<^verbatim>\<open>bits.rs\<close>): packing of fields in a word; every shift and assertion that can panic does. A locale
    \<open>packed_field\<close> gives the round trip and the frame of any field.
  \<^item> \<^verbatim>\<open>Ready\<close> (\<^verbatim>\<open>io/ready.rs\<close>): readiness flags, as an implementation of sets of flags (locale \<open>flag_algebra\<close>)
    and, with the derived order, an instance of \<open>linorder\<close>.
  \<^item> \<^verbatim>\<open>Scheduled_IO\<close> (\<^verbatim>\<open>ScheduledIo\<close> and \<^verbatim>\<open>Readiness\<close> in \<^verbatim>\<open>io/mod.rs\<close>): the readiness word with its
    compare-exchange loop, ticks and generations, the reader and writer slots, the list of waiters and the future over it.
  \<^item> \<^verbatim>\<open>IO_Conc\<close> (the same code): the loads and exchanges of the readiness word, the critical sections over the waiters and the
    wake-ups of one \<^verbatim>\<open>ScheduledIo\<close> as interleaved steps of the driver, the polls, the futures and the threads that clear; \<^verbatim>\<open>IO_Progress\<close>: they do not
    deadlock.
  \<^item> \<^verbatim>\<open>Driver\<close> (\<^verbatim>\<open>IODriver\<close> and \<^verbatim>\<open>Handle\<close> in \<^verbatim>\<open>io/mod.rs\<close>): dispatch of events, tokens, registration of sources.
  \<^item> \<^verbatim>\<open>Registration\<close>, \<^verbatim>\<open>Poll_Evented\<close>: the loops that attempt an operation and clear the readiness.
  \<^item> \<^verbatim>\<open>Slot_Map\<close> (\<^verbatim>\<open>sync_slot_map.rs\<close>): the queue of parked workers, refining a first-in first-out queue
    (locale \<open>index_fifo\<close>), and \<^verbatim>\<open>Slot_Map_Conc\<close>: the same operations as interleaved atomic accesses of producers and a consumer.
  \<^item> \<^verbatim>\<open>Task\<close> (\<^verbatim>\<open>task.rs\<close>, \<^verbatim>\<open>join_handle.rs\<close>): running, cancelling, joining and scheduling, each as a whole, and
    \<^verbatim>\<open>Task_Conc\<close>: their atomic steps, interleaved over any number of threads.
  \<^item> \<^verbatim>\<open>Runtime\<close> (\<^verbatim>\<open>lib.rs\<close>): workers, local queues, parking, spawning, \<^verbatim>\<open>block_on\<close>.
  \<^item> \<^verbatim>\<open>Sched_Conc\<close> (\<^verbatim>\<open>run_forever\<close> in \<^verbatim>\<open>lib.rs\<close>, \<^verbatim>\<open>schedule_global\<close> in \<^verbatim>\<open>task.rs\<close>): all workers and any number of scheduling
    threads, interleaved between the locks they take, with spurious returns of the condition variables; \<^verbatim>\<open>schedule_global\<close> as a whole is a
    run of its steps. \<^verbatim>\<open>Driver_Failure\<close>: the same workers with the driver they poll, the mutex around it and its poison flag, and the workers
    that died in \<open>poll_timeout\<close>.
  \<^item> \<^verbatim>\<open>Startup\<close> (\<^verbatim>\<open>init_workers\<close> in \<^verbatim>\<open>lib.rs\<close>): the main thread and the workers it starts, with park tokens and spurious returns.
  \<^item> \<^verbatim>\<open>Block_On\<close> (\<^verbatim>\<open>block_on\<close> in \<^verbatim>\<open>lib.rs\<close>): the loop of a blocked thread over a join handle, on top of the steps of \<^verbatim>\<open>Task_Conc\<close>.
  \<^item> \<^verbatim>\<open>Linked_List\<close> (\<^verbatim>\<open>linked_list.rs\<close>): the links, their operations (locale \<open>link_laws\<close>) and the adapter.
  \<^item> \<^verbatim>\<open>Net\<close> (\<^verbatim>\<open>net/addr.rs\<close>, \<^verbatim>\<open>net/lookup_host.rs\<close>), \<^verbatim>\<open>Udp\<close> (\<^verbatim>\<open>net/udp.rs\<close>), \<^verbatim>\<open>Tcp\<close> (\<^verbatim>\<open>net/tcp/\<close>): addresses, and
    the operations of sockets; an \<^verbatim>\<open>async fn\<close> is the poll of its future, with the state it keeps between two polls.
  \<^item> \<^verbatim>\<open>Fmt\<close>, \<^verbatim>\<open>Debug_Output\<close>: the builders of \<^verbatim>\<open>std::fmt\<close> the code uses, and the \<^verbatim>\<open>Debug\<close> and \<^verbatim>\<open>Display\<close> texts of its types.
  \<^item> \<^verbatim>\<open>Http_Date\<close>, \<^verbatim>\<open>Http_Server\<close> (\<^verbatim>\<open>src/examples/http-server.rs\<close>): the date cache; routes, encoder, decoder and the loops of a
    connection and of \<^verbatim>\<open>main\<close>, where an await is the value it yields.
  \<^item> \<^verbatim>\<open>Model_Tests\<close>: tests of the repository as scenarios over the model, with their assertions as lemmas.

  \<^bold>\<open>State, errors, loops.\<close> State is passed explicitly; a panic is the left of a sum, an \<^verbatim>\<open>io::Result\<close> another sum. A loop
  that may not end is a \<open>partial_function\<close> in the option type: \<open>None\<close> is a call that does not return unless another thread
  changes what it reads, and the theorems that state an outcome state that the call returns. The compare-exchange loop takes the list of values the other
  threads leave, and is shown to return once it is not interfered with. No fuel is used.

  \<^bold>\<open>Parameters.\<close> Code outside the repository is a parameter with its documented behaviour as a named
  hypothesis, and each hypothesis has an instance: \<open>pool_spec\<close> (\<^verbatim>\<open>sharded_slab\<close>; \<open>slab\<close>, and
  \<open>recycling_slab\<close>, which hands out cleared entries again), \<open>pin_list_spec\<close> (\<^verbatim>\<open>pin_list\<close>;
  \<open>list_pin_list\<close>), \<open>linked_list_spec\<close> (\<^verbatim>\<open>intrusive_collections::LinkedList\<close>; \<open>list_queue\<close>), \<open>link_laws\<close> (its
  \<^verbatim>\<open>AtomicLinkOps\<close>; \<open>map_link_ops\<close>), \<open>atomic_waker_spec\<close> (\<^verbatim>\<open>AtomicWaker\<close>; \<open>option_waker\<close>), and for the
  example \<open>http_date_spec\<close> (\<^verbatim>\<open>httpdate\<close>; \<open>sample_date\<close>), \<open>httparse_spec\<close> (\<open>sample_parse\<close>), \<open>lines_spec\<close> and
  \<open>response_builder_spec\<close> (\<^verbatim>\<open>http\<close>; \<open>sample_crate\<close>), \<open>transport_spec\<close> (\<^verbatim>\<open>Framed\<close>; \<open>list_transport\<close>). Futures, system calls of
  \<^verbatim>\<open>mio\<close>, parsers and the name resolver are arguments with no hypothesis.

  \<^bold>\<open>What is shown.\<close> For tasks: no wake-up, cancellation or result is lost, one thread polls at a time, no deadlock,
  the joiner is woken and gets the first result once; a spawned task is run and joined, and \<^verbatim>\<open>block_on\<close> over a join handle
  returns once the result is there. For the queue of parked workers: nothing lost or reordered under
  every interleaving, and what an empty or inconsistent answer means. For the workers: all of them start, order of tasks, bounds of the local queue,
  fairness to the global queue; under every interleaving, spurious returns included, some worker serves the driver, and a queued task has the attention of
  a worker as long as no thread found the lock of the parked workers taken since the queue was last empty. For I/O: what the readiness word records and forgets, that under every interleaving
  a pending poll or future that was not woken has nothing to wait for but the next event, that clearing keeps later events, that these threads do not deadlock, that a pending
  operation is woken by the event it waits for and its task queued, from the socket over the driver to the scheduler (below), that operations are
  attempted only when ready, that tokens lead to the entry they were made for, and that failed or dropped sockets free
  their slot. For the example: the bytes of the answers, that they can be read back, that the decoder removes and returns
  exactly what the parser found, and that the date cache is transparent. Eight theorems show defects: \<^verbatim>\<open>wake\<close> does not return when a listed waiter does not want the event, a
  spurious return of the wait of a parked worker makes a later \<^verbatim>\<open>schedule_global\<close> spin with a lock held until some worker parks, a failed registration leaks its slab entry, a scheduler that
  finds the lock of the parked workers taken leaves its task without waking anybody although the holder's wake-up may be spent, a thread delayed for 256 rounds of
  the driver clears a newer event, since ticks have 8 bits, a future that parks its thread inside its poll can take the token that \<^verbatim>\<open>block_on\<close> needs, after a failed poll the driver is never polled
  again and a task may be left without attention, and a slab entry that is used again still holds the wakers of its last source.

  \<^bold>\<open>Not modelled.\<close> Memory orderings weaker than sequential consistency, poisoned locks other than that of the driver, reference counts, the
  failure of starting a thread or of waking the driver, derived \<^verbatim>\<open>Debug\<close> output, the FreeBSD and Windows branches, and the tests of timers, pinning
  and reference counts. What is left of the sources besides is documentation, imports, module declarations and bounds on type parameters. In \<^verbatim>\<open>Slot_Map_Conc\<close> an index is pushed
  only while it is not queued; after a spurious return, when that may fail, \<^verbatim>\<open>Sched_Conc\<close> knows of the queue only that its slots are well-formed. The interleaving
  of \<^verbatim>\<open>IO_Conc\<close> is of one entry while it is registered, and no future
  is dropped while it waits, which \<^verbatim>\<open>pin_list\<close> would have to answer for.
\<close>

subsection \<open>From a socket to the driver and the scheduler\<close>

text \<open>The next round of the driver with a readable event for the stream wakes the waker of a pending read.\<close>

lemma pending_read_is_woken_by_driver:
  assumes "pool_spec po" "pin_list_spec pl els pos" "io (tcp_io stream) = Some src"
    and "pool_get po (key (tcp_reg stream)) p = Some sio"
    and "tcp_poll_read po ops stream cx buf p s = Some (Inr (Poll_Pending, buf1, p1, s1))"
    and "e \<in> set events" "token e \<noteq> WAKE_TOKEN" "pool_index po (token e) = pool_index po (key (tcp_reg stream))" "is_readable (from_mio e)"
    and "round_wanted po els events p1"
  shows "\<exists>p2 ws. poll_timeout po pl (Inr ()) events d p1 = Some (Inr (d\<lparr>driver_tick := driver_tick d + 1\<rparr>, p2, ws)) \<and> cx \<in> set ws"
proof -
  obtain x where "poll_io po (tcp_reg stream) cx Read (read_operation (tcp_sys_read ops) src) p (buf, s) = Some x"
    "Inr (Poll_Pending, buf1, p1, s1) = read_result x"
    using poll_read_to_io [OF assms(3)] assms(5) by (fastforce simp: tcp_poll_read_def tcp_poll_read_priv_def)
  then have "poll_io po (tcp_reg stream) cx Read (read_operation (tcp_sys_read ops) src) p (buf, s) =
      Some (Inr (Poll_Pending, p1, buf1, s1))"
    by (cases x) (auto simp: read_result_def)
  from poll_io_pending_registers [OF assms(1) this assms(4)] obtain sio1 where
    r: "pool_get po (key (tcp_reg stream)) p1 = Some sio1" "waker_slot Read sio1 = Some cx"
    by blast
  have "pool_get po (token e) p1 = Some sio1" "reader sio1 = Some cx" using pool_specD(6) [OF assms(1,8)] r by (simp_all add: waker_slot_def)
  with handle_events_wake [OF assms(1,2,10), of "driver_tick d + 1"] assms(6,7,9) show ?thesis
    by (fastforce simp: poll_timeout_def Let_def)
qed

text \<open>
  C28: From the socket over the driver to the scheduler: when a read of a TCP stream by a task is
  pending, however many attempts it made, the next round of the driver in which some event is a
  readable one for the stream returns, waking the collected wakers returns, and the task is then in
  the local queue of that worker or in the global queue. This holds when every listed waiter of an
  entry wants each event of the round for the entry, and the runtime has its workers and an intact
  queue of parked workers.
\<close>

theorem ready_read_queues_task:
  assumes "pool_spec po" "pin_list_spec pl els pos" "io (tcp_io stream) = Some src"
    and "pool_get po (key (tcp_reg stream)) p = Some sio"
    and "tcp_poll_read po ops stream task buf p s = Some (Inr (Poll_Pending, buf1, p1, s1))"
    and "e \<in> set events" "token e \<noteq> WAKE_TOKEN" "pool_index po (token e) = pool_index po (key (tcp_reg stream))" "is_readable (from_mio e)"
    and "round_wanted po els events p1"
    and "linked_list_spec ll items" "workers_ok (rt w) ws"
  shows "\<exists>p2 woken_tasks ex1 w1. poll_timeout po pl (Inr ()) events d p1 = Some (Inr (d\<lparr>driver_tick := driver_tick d + 1\<rparr>, p2, woken_tasks)) \<and>
    wake_each ll free (shared ex) woken_tasks (Some ex) w = Some (Inr (Some ex1, w1)) \<and> task \<in> set (Runtime.waiting items ex1 (rt w1))"
proof -
  obtain p2 woken_tasks where d: "poll_timeout po pl (Inr ()) events d p1 = Some (Inr (d\<lparr>driver_tick := driver_tick d + 1\<rparr>, p2, woken_tasks))"
    "task \<in> set woken_tasks"
    using pending_read_is_woken_by_driver [OF assms(1-10)] by blast
  with wake_each_queues [OF assms(11,12), of free ex woken_tasks] show ?thesis by blast
qed

theorem ready_read_queues_task_witness:
  "\<exists>p1 p2 woken_tasks ex1 w1. tcp_poll_read slab (sample_tcp None) sample_stream 9 [0] sample_pool 3 = Some (Inr (Poll_Pending, [0], p1, 3)) \<and>
     poll_timeout slab list_pin_list (Inr ()) [read_event\<lparr>token := WAKE_TOKEN\<rparr>, read_event] new_driver p1 = Some (Inr (\<lparr>driver_tick = 1\<rparr>, p2, woken_tasks)) \<and>
     wake_each list_queue True 0 woken_tasks (Some (sample_executor [])) (sample_world 0) = Some (Inr (Some ex1, w1)) \<and>
     9 \<in> set (elems (local_queue ex1) @ global_queue (rt w1))"
proof -
  let ?sio = "\<lparr>readiness = 0, waiter_list = [] :: (nat, nat) waiter list, reader = Some (7 :: nat), writer = None\<rparr>"
  let ?p1 = "pool_put slab 0 (store_waker Read 9 ?sio) sample_pool"
  have i: "io (tcp_io sample_stream) = Some ()" by simp
  have g: "pool_get slab (key (tcp_reg sample_stream)) sample_pool = Some ?sio" by (simp add: slab_def)
  have s: "\<not> shutdown_of (readiness ?sio)" by (simp add: shutdown_of_def)
  have f: "ready_flags Read ?sio = {}" by (simp add: ready_flags_def from_usize_def flags_def flag_simps)
  have "poll_read_ready slab (tcp_reg sample_stream) 9 sample_pool = Inr (Poll_Pending, ?p1)"
    using f poll_ready_cases [OF g s, of 9 Read] by (simp add: poll_read_ready_def)
  then have r: "tcp_poll_read slab (sample_tcp None) sample_stream 9 [0] sample_pool 3 = Some (Inr (Poll_Pending, [0], ?p1, 3))"
    by (simp add: tcp_poll_read_def tcp_poll_read_priv_def poll_read.simps)
  have t: "token read_event \<noteq> WAKE_TOKEN" by (simp add: WAKE_TOKEN_def)
  have k: "pool_index (slab :: (_, ((nat, nat) waiter list, nat) scheduled_io) pool_ops) (token read_event) =
      pool_index slab (key (tcp_reg sample_stream))" by (simp add: slab_def)
  have e: "is_readable (from_mio read_event)" by (simp add: flag_simps)
  have w: "round_wanted slab (\<lambda>l. l) [read_event\<lparr>token := WAKE_TOKEN\<rparr>, read_event] ?p1" by (simp add: round_wanted_def slab_def store_waker_def)
  have m: "read_event \<in> set [read_event\<lparr>token := WAKE_TOKEN\<rparr>, read_event]" by simp
  from ready_read_queues_task [OF slab_ok list_pin_list_spec i g r m t k e w list_queue_ok sample_workers_ok [of 0], of new_driver True "sample_executor []"] r
  show ?thesis by (auto simp: new_driver_def Runtime.waiting_def)
qed

end
